(* ===== verification/Prelude.thy ===== *)
theory Prelude
  imports Main "HOL-Library.Word" "HOL-Library.Multiset"
begin

text \<open>
  Shared layer of the development: the types of C values the models use, faults as values,
  checked array access, list lemmas about slices, and transition systems (reachable states,
  invariants, simulations) with the locales that give their proof rules once.
\<close>

section \<open>Types and faults\<close>

type_synonym u8 = "8 word"
type_synonym u32 = "32 word"
type_synonym u64 = "64 word"

text \<open>An address; \<open>0\<close> is \<open>NULL\<close>.\<close>
type_synonym ptr = "64 word"
type_synonym bytes = "u8 list"

abbreviation NULL :: ptr where
  "NULL \<equiv> 0"

text \<open>
  What stops a C program: a failed assertion, an access outside an array, a read of a cell
  that was never written, a dereference of \<open>NULL\<close>, an access to a block that was freed or a second
  release of it, a \<open>close\<close> of a descriptor that is not open, a shift of an \<open>int\<close> out of its range,
  arithmetic on integers or a conversion that leaves its range, or a signal that is not caught.
  Operations that can do one of these return a sum, the fault on the left.
\<close>

datatype fault = NullDeref | OutOfBounds | Uninit | AssertFailed | UseAfterFree | BadDescriptor | BadShift
  | Overflow | Killed

type_synonym 'a res = "fault + 'a"

text \<open>Sequencing of operations that may fault: the first fault wins.\<close>

definition andthen :: "'e + 'a \<Rightarrow> ('a \<Rightarrow> 'e + 'b) \<Rightarrow> 'e + 'b" where
  "andthen m f = (case m of Inl e \<Rightarrow> Inl e | Inr x \<Rightarrow> f x)"

lemma andthen_simps [simp]:
  "andthen (Inl e) f = Inl e"
  "andthen (Inr x) f = f x"
  by (simp_all add: andthen_def)

lemma andthen_eq_Inr_iff: "andthen m f = Inr y \<longleftrightarrow> (\<exists>x. m = Inr x \<and> f x = Inr y)"
  by (cases m) auto

lemma andthen_cong:
  "m = m' \<Longrightarrow> (\<And>x. m' = Inr x \<Longrightarrow> f x = f' x) \<Longrightarrow> andthen m f = andthen m' f'"
  by (cases m') simp_all

definition check :: "bool \<Rightarrow> unit res" where
  "check b = (if b then Inr () else Inl AssertFailed)"

lemma check_True [simp]: "check True = Inr ()"
  by (simp add: check_def)

section \<open>Arrays\<close>

definition rd :: "'a list \<Rightarrow> nat \<Rightarrow> 'a res" where
  "rd xs i = (if i < length xs then Inr (xs ! i) else Inl OutOfBounds)"

definition wr :: "'a list \<Rightarrow> nat \<Rightarrow> 'a \<Rightarrow> 'a list res" where
  "wr xs i v = (if i < length xs then Inr (xs[i := v]) else Inl OutOfBounds)"

lemma rd_in [simp]: "i < length xs \<Longrightarrow> rd xs i = Inr (xs ! i)"
  by (simp add: rd_def)

lemma wr_in [simp]: "i < length xs \<Longrightarrow> wr xs i v = Inr (xs[i := v])"
  by (simp add: wr_def)

lemma split_before:
  "pre @ p # post = pre' @ q # post' \<Longrightarrow> q \<notin> set pre \<Longrightarrow> q \<noteq> p \<Longrightarrow> p \<in> set pre'"
proof (induction pre arbitrary: pre')
  case Nil
  then show ?case by (cases pre') auto
next
  case (Cons x pre)
  then show ?case by (cases pre') auto
qed

lemma map_eqI: "(\<And>k v. f k = Some v \<longleftrightarrow> g k = Some v) \<Longrightarrow> f = g"
  by (metis ext not_Some_eq)

section \<open>Machine integers\<close>

definition INT_MAX :: int where
  "INT_MAX = 2147483647"

text \<open>\<open>1 << k\<close> on \<open>int\<close> is defined up to \<open>1 << 30\<close>.\<close>

definition int_shl :: "nat \<Rightarrow> u32 res" where
  "int_shl k = (if k < 31 then Inr (push_bit k 1) else Inl BadShift)"

lemma sint_word_of_nat32: "n < 2 ^ 31 \<Longrightarrow> sint (word_of_nat n :: 32 word) = int n"
  by (simp add: sint_uint unsigned_of_nat signed_take_bit_int_eq_self take_bit_nat_eq_self
      flip: of_nat_take_bit)

section \<open>Counting threads\<close>

text \<open>The number of threads below \<open>n\<close> whose local state has property \<open>P\<close>, and its updates.\<close>

definition count_of :: "nat \<Rightarrow> ('a \<Rightarrow> bool) \<Rightarrow> (nat \<Rightarrow> 'a) \<Rightarrow> nat" where
  "count_of n P f = (\<Sum>i<n. if P (f i) then 1 else 0)"

lemma sum_fun_upd:
  fixes w :: "'a \<Rightarrow> nat" and i n :: nat
  assumes "i < n"
  shows "(\<Sum>j<n. w ((f(i := x)) j)) + w (f i) = (\<Sum>j<n. w (f j)) + w x"
proof -
  have split: "(\<Sum>j<n. w (g j)) = w (g i) + (\<Sum>j\<in>{..<n} - {i}. w (g j))" for g
    using assms sum.remove [of "{..<n}" i "\<lambda>j. w (g j)"] by simp
  have "(\<Sum>j\<in>{..<n} - {i}. w ((f(i := x)) j)) = (\<Sum>j\<in>{..<n} - {i}. w (f j))"
    by (rule sum.cong) auto
  then show ?thesis using split [of f] split [of "f(i := x)"] by simp
qed

lemma count_of_update:
  "i < n \<Longrightarrow> count_of n P (f(i := x)) + (if P (f i) then 1 else 0) =
     count_of n P f + (if P x then 1 else 0)"
  using sum_fun_upd [of i n "\<lambda>y. if P y then 1 else 0" f x] by (simp add: count_of_def)

lemma count_of_same [simp]:
  "i < n \<Longrightarrow> P (f i) = P x \<Longrightarrow> count_of n P (f(i := x)) = count_of n P f"
  using count_of_update [of i n P f x] by simp

lemma count_of_enter:
  "i < n \<Longrightarrow> \<not> P (f i) \<Longrightarrow> P x \<Longrightarrow> count_of n P (f(i := x)) = Suc (count_of n P f)"
  using count_of_update [of i n P f x] by simp

lemma count_of_leave:
  "i < n \<Longrightarrow> P (f i) \<Longrightarrow> \<not> P x \<Longrightarrow> count_of n P f = Suc (count_of n P (f(i := x)))"
  using count_of_update [of i n P f x] by simp

lemma count_of_zero: "count_of n P f = 0 \<longleftrightarrow> (\<forall>i<n. \<not> P (f i))"
  by (auto simp: count_of_def)

lemma count_of_pos: "i < n \<Longrightarrow> P (f i) \<Longrightarrow> 1 \<le> count_of n P f"
  using count_of_zero [of n P f] by (metis One_nat_def Suc_leI neq0_conv)

section \<open>Transition systems\<close>

inductive reach :: "('s \<Rightarrow> bool) \<Rightarrow> ('s \<Rightarrow> 's \<Rightarrow> bool) \<Rightarrow> 's \<Rightarrow> bool"
  for I :: "'s \<Rightarrow> bool" and R :: "'s \<Rightarrow> 's \<Rightarrow> bool" where
  reach_init: "I s \<Longrightarrow> reach I R s"
| reach_step: "reach I R s \<Longrightarrow> R s t \<Longrightarrow> reach I R t"

text \<open>An inductive invariant of a system.\<close>

locale inductive_invariant =
  fixes I :: "'s \<Rightarrow> bool" and R :: "'s \<Rightarrow> 's \<Rightarrow> bool" and P :: "'s \<Rightarrow> bool"
  assumes inv_init: "I s \<Longrightarrow> P s"
    and inv_step: "P s \<Longrightarrow> R s t \<Longrightarrow> P t"
begin

lemma reach_inv: "reach I R s \<Longrightarrow> P s"
  by (induction rule: reach.induct) (auto intro: inv_init inv_step)

end

text \<open>
  A simulation by a function: every step of the concrete system is a step of the abstract
  one or leaves the abstract state as it is.
\<close>

locale simulation =
  fixes IC :: "'c \<Rightarrow> bool" and RC :: "'c \<Rightarrow> 'c \<Rightarrow> bool"
    and IA :: "'a \<Rightarrow> bool" and RA :: "'a \<Rightarrow> 'a \<Rightarrow> bool"
    and f :: "'c \<Rightarrow> 'a"
  assumes sim_init: "IC s \<Longrightarrow> IA (f s)"
    and sim_step: "reach IC RC s \<Longrightarrow> RC s t \<Longrightarrow> RA (f s) (f t) \<or> f t = f s"
begin

lemma sim_reach: "reach IC RC s \<Longrightarrow> reach IA RA (f s)"
proof (induction rule: reach.induct)
  case (reach_init s)
  then show ?case by (simp add: reach.reach_init sim_init)
next
  case (reach_step s t)
  then show ?case using sim_step [of s t] by (auto intro: reach.reach_step)
qed

end

end
