(* ===== verification/DynArray.thy ===== *)
theory DynArray
  imports Prelude
begin

text \<open>
  The dynamic array of \<open>02-computer-systems/02-introduction-to-c/04-dynamic-array/dynarray.c\<close>.
  A \<open>DA\<close> owns one heap block of \<open>cap\<close> pointer cells, the first \<open>size\<close> of which were
  written. A pointer to a \<open>DA\<close> is an option (\<open>None\<close> is \<open>NULL\<close>), so is the block
  (\<open>None\<close> after an allocation that failed); a cell is \<open>None\<close> until it is written.
  \<open>malloc\<close> and \<open>realloc\<close> succeed where the parameter \<open>alloc\<close> says so of the number of bytes,
  which they refuse above \<open>PTRDIFF_MAX\<close>. Sizes in bytes wrap around at \<open>2 ^ 64\<close>.
\<close>

section \<open>State and operations\<close>

definition STARTING_CAPACITY :: nat where
  "STARTING_CAPACITY = 8"

definition sizeof_ptr :: nat where
  "sizeof_ptr = 8"

definition sizeof_DA :: nat where
  "sizeof_DA = 24"

record DA =
  da_cap :: nat
  da_size :: nat
  da_arr :: "ptr option list option"

definition PTRDIFF_MAX :: nat where
  "PTRDIFF_MAX = 2 ^ 63 - 1"

definition malloc_ok :: "(nat \<Rightarrow> bool) \<Rightarrow> nat \<Rightarrow> bool" where
  "malloc_ok alloc bytes \<longleftrightarrow> bytes \<le> PTRDIFF_MAX \<and> alloc bytes"

text \<open>The product of a number of cells with the size of a pointer, as a \<open>size_t\<close>.\<close>

definition cell_bytes :: "nat \<Rightarrow> nat" where
  "cell_bytes n = n * sizeof_ptr mod 2 ^ 64"

definition malloc_cells :: "(nat \<Rightarrow> bool) \<Rightarrow> nat \<Rightarrow> ptr option list option" where
  "malloc_cells alloc n =
     (if malloc_ok alloc (cell_bytes n) then Some (replicate (cell_bytes n div sizeof_ptr) None) else None)"

text \<open>
  \<open>realloc\<close> keeps the cells both blocks have; the cells it adds are not written. A size of 0 frees
  the block.
\<close>

definition realloc_cells :: "(nat \<Rightarrow> bool) \<Rightarrow> ptr option list option \<Rightarrow> nat \<Rightarrow> ptr option list option" where
  "realloc_cells alloc blk n =
     (if cell_bytes n \<noteq> 0 \<and> malloc_ok alloc (cell_bytes n)
      then (let old = (case blk of None \<Rightarrow> [] | Some a \<Rightarrow> a); k = cell_bytes n div sizeof_ptr
            in Some (take k old @ replicate (k - length old) None))
      else None)"

definition DA_new :: "(nat \<Rightarrow> bool) \<Rightarrow> DA res" where
  "DA_new alloc =
     (if malloc_ok alloc sizeof_DA
      then Inr \<lparr>da_cap = STARTING_CAPACITY, da_size = 0,
                da_arr = malloc_cells alloc STARTING_CAPACITY\<rparr>
      else Inl AssertFailed)"

text \<open>The return type is \<open>int\<close>: the \<open>size_t\<close> is cut to 32 bits and read as signed.\<close>

definition DA_size :: "DA option \<Rightarrow> int res" where
  "DA_size da = (case da of None \<Rightarrow> Inl NullDeref
     | Some d \<Rightarrow> Inr (sint (word_of_nat (da_size d) :: 32 word)))"

text \<open>
  \<open>cap *= 1.5\<close> goes through \<open>double\<close>, whose significand has 53 bits: the capacity is rounded to the
  nearest \<open>double\<close>, ties to even, and so is the product, which is then cut to a \<open>size_t\<close>. As
  halving is exact, the product is rounded as \<open>3 * d\<close>. A product that is no \<open>size_t\<close> is undefined.
  \<open>excess\<close> is the number of bits a number has above 53.
\<close>

fun excess :: "nat \<Rightarrow> nat" where
  "excess n = (if n < 2 ^ 53 then 0 else Suc (excess (n div 2)))"

declare excess.simps [simp del]

definition to_double :: "nat \<Rightarrow> nat" where
  "to_double n =
     (let ulp = 2 ^ excess n; q = n div ulp; r = n mod ulp
      in if ulp < 2 * r \<or> 2 * r = ulp \<and> odd q then Suc q * ulp else q * ulp)"

definition times_1_5 :: "nat \<Rightarrow> nat" where
  "times_1_5 c = to_double (3 * to_double c) div 2"

definition grow_cap :: "nat \<Rightarrow> nat res" where
  "grow_cap c = (if times_1_5 c < 2 ^ 64 then Inr (times_1_5 c) else Inl Overflow)"

definition DA_push :: "(nat \<Rightarrow> bool) \<Rightarrow> DA option \<Rightarrow> ptr \<Rightarrow> DA option res" where
  "DA_push alloc da x =
     (case da of None \<Rightarrow> Inr None
      | Some d \<Rightarrow>
          andthen (if da_size d = da_cap d
                   then andthen (grow_cap (da_cap d)) (\<lambda>c.
                          Inr (d\<lparr>da_cap := c, da_arr := realloc_cells alloc (da_arr d) c\<rparr>))
                   else Inr d) (\<lambda>d1.
            case da_arr d1 of None \<Rightarrow> Inl NullDeref
            | Some a \<Rightarrow>
                andthen (wr a (da_size d1) (Some x))
                  (\<lambda>a'. Inr (Some (d1\<lparr>da_arr := Some a', da_size := Suc (da_size d1)\<rparr>)))))"

definition load :: "ptr option list option \<Rightarrow> nat \<Rightarrow> ptr res" where
  "load blk i =
     (case blk of None \<Rightarrow> Inl NullDeref
      | Some a \<Rightarrow> andthen (rd a i) (\<lambda>c. case c of None \<Rightarrow> Inl Uninit | Some v \<Rightarrow> Inr v))"

definition DA_pop :: "DA option \<Rightarrow> (ptr \<times> DA option) res" where
  "DA_pop da =
     (case da of None \<Rightarrow> Inr (NULL, None)
      | Some d \<Rightarrow>
          (if da_size d \<noteq> 0
           then (let n = da_size d - 1
                 in andthen (load (da_arr d) n) (\<lambda>v. Inr (v, Some (d\<lparr>da_size := n\<rparr>))))
           else Inr (NULL, Some d)))"

definition DA_set :: "DA option \<Rightarrow> ptr \<Rightarrow> int \<Rightarrow> DA option res" where
  "DA_set da x i =
     (case da of None \<Rightarrow> Inr None
      | Some d \<Rightarrow>
          (if 0 \<le> i \<and> nat i < da_size d
           then (case da_arr d of None \<Rightarrow> Inl NullDeref
                 | Some a \<Rightarrow> andthen (wr a (nat i) (Some x))
                               (\<lambda>a'. Inr (Some (d\<lparr>da_arr := Some a'\<rparr>))))
           else Inr (Some d)))"

definition DA_get :: "DA option \<Rightarrow> int \<Rightarrow> ptr res" where
  "DA_get da i =
     (case da of None \<Rightarrow> Inr NULL
      | Some d \<Rightarrow> (if 0 \<le> i \<and> nat i < da_size d then load (da_arr d) (nat i) else Inr NULL))"

section \<open>Invariant and abstraction\<close>

definition da_wf :: "DA \<Rightarrow> bool" where
  "da_wf d \<longleftrightarrow> STARTING_CAPACITY \<le> da_cap d \<and> da_size d \<le> da_cap d \<and> da_cap d * sizeof_ptr \<le> PTRDIFF_MAX \<and>
     (\<exists>a. da_arr d = Some a \<and> length a = da_cap d \<and> (\<forall>i<da_size d. a ! i \<noteq> None))"

definition da_list :: "DA \<Rightarrow> ptr list" where
  "da_list d = (case da_arr d of None \<Rightarrow> [] | Some a \<Rightarrow> map the (take (da_size d) a))"

lemma da_wfE:
  assumes "da_wf d"
  obtains a where "da_arr d = Some a" "length a = da_cap d" "da_size d \<le> da_cap d"
    "8 \<le> da_cap d" "\<And>i. i < da_size d \<Longrightarrow> a ! i \<noteq> None"
  using assms by (fastforce simp: da_wf_def STARTING_CAPACITY_def)

lemma da_wf_cap: "da_wf d \<Longrightarrow> 8 \<le> da_cap d \<and> da_cap d < 2 ^ 60"
  by (simp add: da_wf_def STARTING_CAPACITY_def PTRDIFF_MAX_def sizeof_ptr_def)

lemma length_da_list: "da_wf d \<Longrightarrow> length (da_list d) = da_size d"
  by (auto simp: da_wf_def da_list_def)

lemma excess_le: "excess n \<noteq> 0 \<Longrightarrow> 2 ^ (52 + excess n) \<le> n"
proof (induction n rule: excess.induct)
  case (1 n)
  note step = excess.simps [of n]
  show ?case
  proof (cases "n < 2 ^ 53")
    case False
    have ex: "excess n = Suc (excess (n div 2))" using step False by simp
    show ?thesis
    proof (cases "excess (n div 2) = 0")
      case True
      then show ?thesis using ex False by simp
    next
      case more: False
      then have "2 ^ (52 + excess (n div 2)) \<le> n div 2" using "1.IH" [OF False] by blast
      then have "2 * 2 ^ (52 + excess (n div 2)) \<le> n" by linarith
      then show ?thesis unfolding ex by (simp add: power_add)
    qed
  qed (use step 1 in simp)
qed

lemma to_double_small: "n < 2 ^ 53 \<Longrightarrow> to_double n = n"
  by (simp add: to_double_def excess.simps)

text \<open>Far more than a rounding to 53 bits is off.\<close>

lemma to_double_near: "8 * n \<le> 8 * to_double n + n" "8 * to_double n \<le> 9 * n"
proof -
  define ulp where "ulp = (2::nat) ^ excess n"
  have n: "n = n div ulp * ulp + n mod ulp" "n mod ulp < ulp"
    by (rule div_mult_mod_eq [symmetric]) (simp add: ulp_def)
  have t: "to_double n = n \<or> (to_double n = n div ulp * ulp \<or> to_double n = Suc (n div ulp) * ulp) \<and> 8 * ulp \<le> n"
  proof (cases "excess n = 0")
    case True
    then show ?thesis by (simp add: to_double_def)
  next
    case False
    have "8 * ulp \<le> 2 ^ (52 + excess n)" by (simp add: ulp_def power_add)
    then have "8 * ulp \<le> n" using excess_le [OF False] by linarith
    then show ?thesis by (simp add: to_double_def Let_def ulp_def)
  qed
  have "Suc (n div ulp) * ulp = n div ulp * ulp + ulp" by simp
  then show "8 * n \<le> 8 * to_double n + n" "8 * to_double n \<le> 9 * n" using n t by linarith+
qed

lemma times_1_5_small: "3 * c < 2 ^ 53 \<Longrightarrow> times_1_5 c = 3 * c div 2"
  by (simp add: times_1_5_def to_double_small)

lemma times_1_5_gt: "8 \<le> c \<Longrightarrow> c < times_1_5 c"
  using to_double_near [of c] to_double_near [of "3 * to_double c"] unfolding times_1_5_def by linarith

lemma times_1_5_less: "times_1_5 c \<le> 2 * c"
  using to_double_near [of c] to_double_near [of "3 * to_double c"] unfolding times_1_5_def by linarith

lemma cell_bytes_small: "n < 2 ^ 61 \<Longrightarrow> cell_bytes n = n * sizeof_ptr"
  by (simp add: cell_bytes_def sizeof_ptr_def)

lemma realloc_small:
  assumes "0 < n" "n < 2 ^ 61"
  shows "realloc_cells alloc blk n =
    (if malloc_ok alloc (n * sizeof_ptr)
     then Some (take n (case blk of None \<Rightarrow> [] | Some a \<Rightarrow> a) @
       replicate (n - length (case blk of None \<Rightarrow> [] | Some a \<Rightarrow> a)) None)
     else None)"
  using assms unfolding realloc_cells_def cell_bytes_small [OF assms(2)] by (simp add: sizeof_ptr_def Let_def)

lemma load_wf:
  assumes "da_wf d" and "i < da_size d"
  shows "load (da_arr d) i = Inr (da_list d ! i)"
proof -
  obtain a where "da_arr d = Some a" "length a = da_cap d" "da_size d \<le> da_cap d"
    "a ! i \<noteq> None"
    using assms by (metis da_wfE)
  then show ?thesis using assms(2)
    by (auto simp: load_def da_list_def split: option.splits)
qed

lemma DA_new_wf:
  assumes "\<And>n. n \<le> 64 \<Longrightarrow> alloc n"
  obtains d where "DA_new alloc = Inr d" "da_wf d" "da_list d = []"
proof -
  let ?d = "\<lparr>da_cap = 8, da_size = 0, da_arr = Some (replicate 8 None)\<rparr>"
  have "DA_new alloc = Inr ?d"
    using assms [of 24] assms [of 64]
    by (simp add: DA_new_def sizeof_DA_def malloc_cells_def STARTING_CAPACITY_def sizeof_ptr_def
        malloc_ok_def PTRDIFF_MAX_def cell_bytes_def)
  moreover have "da_wf ?d" "da_list ?d = []"
    by (simp_all add: da_wf_def da_list_def STARTING_CAPACITY_def sizeof_ptr_def PTRDIFF_MAX_def)
  ultimately show ?thesis by (rule that)
qed

text \<open>The room a push writes into: the block itself, or the grown one.\<close>

definition push_room :: "(nat \<Rightarrow> bool) \<Rightarrow> DA \<Rightarrow> bool" where
  "push_room alloc d \<longleftrightarrow>
     (da_size d = da_cap d \<longrightarrow> malloc_ok alloc (times_1_5 (da_cap d) * sizeof_ptr))"

lemma DA_push_wf:
  assumes wf: "da_wf d" and room: "push_room alloc d"
  obtains d' where "DA_push alloc (Some d) x = Inr (Some d')" "da_wf d'"
    "da_list d' = da_list d @ [x]"
proof -
  obtain a where a: "da_arr d = Some a" "length a = da_cap d" "da_size d \<le> da_cap d"
    "8 \<le> da_cap d" "\<And>i. i < da_size d \<Longrightarrow> a ! i \<noteq> None"
    using wf by (rule da_wfE) blast
  define g where "g = times_1_5 (da_cap d)"
  have g: "da_cap d < g" "g < 2 ^ 61" "0 < g" "grow_cap (da_cap d) = Inr g"
    using da_wf_cap [OF wf] times_1_5_gt [of "da_cap d"] times_1_5_less [of "da_cap d"]
    by (auto simp: g_def grow_cap_def)
  define b where "b = (if da_size d = da_cap d then a @ replicate (g - da_cap d) None else a)"
  define c where "c = (if da_size d = da_cap d then g else da_cap d)"
  have c: "da_size d < c" "8 \<le> c" "length b = c"
    using a g by (auto simp: b_def c_def)
  have bound: "c * sizeof_ptr \<le> PTRDIFF_MAX"
    using wf room by (auto simp: c_def g_def da_wf_def push_room_def malloc_ok_def)
  have tb: "take (da_size d) b = take (da_size d) a"
    using a by (simp add: b_def)
  have nb: "b ! i = a ! i" if "i < da_size d" for i
    using that a by (simp add: b_def nth_append)
  let ?d = "\<lparr>da_cap = c, da_size = Suc (da_size d), da_arr = Some (b[da_size d := Some x])\<rparr>"
  have "DA_push alloc (Some d) x = Inr (Some (?d\<lparr>da_arr := da_arr ?d\<rparr>))"
    using a room c g
    by (auto simp: DA_push_def realloc_small [OF g(3,2)] push_room_def b_def c_def wr_def simp flip: g_def)
  moreover have "da_wf ?d"
    using a c nb bound by (auto simp: da_wf_def STARTING_CAPACITY_def nth_list_update less_Suc_eq)
  moreover have "da_list ?d = da_list d @ [x]"
    using a c tb by (simp add: da_list_def take_Suc_conv_app_nth)
  ultimately show ?thesis using that by simp
qed

lemma DA_pop_wf:
  assumes wf: "da_wf d" and ne: "da_list d \<noteq> []"
  obtains d' where "DA_pop (Some d) = Inr (last (da_list d), Some d')" "da_wf d'"
    "da_list d' = butlast (da_list d)"
proof -
  obtain a where a: "da_arr d = Some a" "length a = da_cap d" "da_size d \<le> da_cap d"
    using wf by (rule da_wfE)
  have n: "0 < da_size d" "length (da_list d) = da_size d"
    using ne length_da_list [OF wf] by (metis length_greater_0_conv) (rule length_da_list [OF wf])
  let ?d = "d\<lparr>da_size := da_size d - 1\<rparr>"
  have "DA_pop (Some d) = Inr (last (da_list d), Some ?d)"
    using load_wf [OF wf, of "da_size d - 1"] n ne
    by (simp add: DA_pop_def Let_def last_conv_nth)
  moreover have "da_wf ?d"
    using wf n by (auto simp: da_wf_def)
  moreover have "da_list ?d = butlast (da_list d)"
    using a n by (simp add: da_list_def butlast_take flip: map_butlast)
  ultimately show ?thesis by (rule that)
qed

lemma DA_pop_empty: "da_wf d \<Longrightarrow> da_list d = [] \<Longrightarrow> DA_pop (Some d) = Inr (NULL, Some d)"
  using length_da_list [of d] by (simp add: DA_pop_def)

lemma DA_set_wf:
  assumes wf: "da_wf d"
  obtains d' where "DA_set (Some d) x i = Inr (Some d')" "da_wf d'"
    "da_list d' = (if 0 \<le> i then (da_list d)[nat i := x] else da_list d)"
proof (cases "0 \<le> i \<and> nat i < da_size d")
  case True
  obtain a where a: "da_arr d = Some a" "length a = da_cap d" "da_size d \<le> da_cap d"
    using wf by (rule da_wfE)
  let ?d = "d\<lparr>da_arr := Some (a[nat i := Some x])\<rparr>"
  have "DA_set (Some d) x i = Inr (Some ?d)"
    using True a by (simp add: DA_set_def)
  moreover have "da_wf ?d"
    using wf a True by (auto simp: da_wf_def nth_list_update)
  moreover have "da_list ?d = (da_list d)[nat i := x]"
    using a by (simp add: da_list_def take_update_swap map_update)
  ultimately show ?thesis using that [of ?d] True by simp
next
  case False
  then have "DA_set (Some d) x i = Inr (Some d)" by (auto simp: DA_set_def)
  then show ?thesis
    using that [of d] False wf length_da_list [OF wf] by (auto simp: list_update_beyond)
qed

lemma DA_get_wf:
  "da_wf d \<Longrightarrow> DA_get (Some d) i =
     Inr (if 0 \<le> i \<and> nat i < length (da_list d) then da_list d ! nat i else NULL)"
  using load_wf [of d "nat i"] length_da_list [of d] by (simp add: DA_get_def)

lemma DA_size_wf:
  "da_wf d \<Longrightarrow> length (da_list d) < 2 ^ 31 \<Longrightarrow> DA_size (Some d) = Inr (int (length (da_list d)))"
  by (simp add: DA_size_def length_da_list sint_word_of_nat32)

section \<open>The interface and its client loops\<close>

text \<open>The three loops of the test program: push a run of values, pop a number of them, compare
  each index with an expected value.\<close>

fun push_each :: "('s \<Rightarrow> 'a \<Rightarrow> 's res) \<Rightarrow> 's \<Rightarrow> 'a list \<Rightarrow> 's res" where
  "push_each push s [] = Inr s"
| "push_each push s (x # xs) = andthen (push s x) (\<lambda>s'. push_each push s' xs)"

fun pop_each :: "('s \<Rightarrow> ('a \<times> 's) res) \<Rightarrow> 's \<Rightarrow> nat \<Rightarrow> ('a list \<times> 's) res" where
  "pop_each pop s 0 = Inr ([], s)"
| "pop_each pop s (Suc n) =
     andthen (pop s) (\<lambda>(x, s'). andthen (pop_each pop s' n) (\<lambda>(xs, s''). Inr (x # xs, s'')))"

fun check_each :: "('s \<Rightarrow> int \<Rightarrow> 'a res) \<Rightarrow> 's \<Rightarrow> (nat \<Rightarrow> 'a) \<Rightarrow> nat \<Rightarrow> nat \<Rightarrow> unit res" where
  "check_each get s f i 0 = Inr ()"
| "check_each get s f i (Suc n) =
     andthen (get s (int i)) (\<lambda>v. andthen (check (v = f i)) (\<lambda>_. check_each get s f (Suc i) n))"

text \<open>What a client of an indexed stack relies on, for up to \<open>room\<close> elements.\<close>

locale indexed_stack =
  fixes inv :: "'s \<Rightarrow> bool" and elems :: "'s \<Rightarrow> 'a list"
    and push :: "'s \<Rightarrow> 'a \<Rightarrow> 's res" and pop :: "'s \<Rightarrow> ('a \<times> 's) res"
    and get :: "'s \<Rightarrow> int \<Rightarrow> 'a res" and room :: nat
  assumes push_law: "inv s \<Longrightarrow> length (elems s) < room \<Longrightarrow> \<exists>s'. push s x = Inr s' \<and> inv s' \<and> elems s' = elems s @ [x]"
    and pop_law: "inv s \<Longrightarrow> elems s \<noteq> [] \<Longrightarrow>
      \<exists>s'. pop s = Inr (last (elems s), s') \<and> inv s' \<and> elems s' = butlast (elems s)"
    and get_law: "inv s \<Longrightarrow> i < length (elems s) \<Longrightarrow> get s (int i) = Inr (elems s ! i)"
begin

lemma push_each_law:
  "inv s \<Longrightarrow> length (elems s) + length xs \<le> room \<Longrightarrow>
   \<exists>s'. push_each push s xs = Inr s' \<and> inv s' \<and> elems s' = elems s @ xs"
proof (induction xs arbitrary: s)
  case (Cons x xs)
  obtain s1 where s1: "push s x = Inr s1" "inv s1" "elems s1 = elems s @ [x]"
    using push_law [OF Cons.prems(1)] Cons.prems(2) by fastforce
  with Cons.IH [OF s1(2)] Cons.prems(2) show ?case by auto
qed simp

lemma pop_each_law:
  "inv s \<Longrightarrow> n \<le> length (elems s) \<Longrightarrow>
   \<exists>s'. pop_each pop s n = Inr (take n (rev (elems s)), s') \<and> inv s' \<and>
        elems s' = take (length (elems s) - n) (elems s)"
proof (induction n arbitrary: s)
  case (Suc n)
  then have ne: "elems s \<noteq> []" by auto
  then obtain s1 where s1: "pop s = Inr (last (elems s), s1)" "inv s1" "elems s1 = butlast (elems s)"
    using pop_law Suc.prems(1) by blast
  obtain s2 where s2: "pop_each pop s1 n = Inr (take n (rev (elems s1)), s2)" "inv s2"
    "elems s2 = take (length (elems s1) - n) (elems s1)"
    using Suc.IH [OF s1(2)] s1(3) Suc.prems(2) by fastforce
  have "take (Suc n) (rev (elems s)) = last (elems s) # take n (rev (butlast (elems s)))"
    using ne by (cases "elems s" rule: rev_cases) auto
  moreover have "take (length (elems s1) - n) (elems s1) = take (length (elems s) - Suc n) (elems s)"
    using s1(3) Suc.prems(2) by (simp add: take_butlast)
  ultimately show ?case using s1 s2 by simp
qed simp

lemma check_each_law:
  "inv s \<Longrightarrow> i + n \<le> length (elems s) \<Longrightarrow> (\<And>j. i \<le> j \<Longrightarrow> j < i + n \<Longrightarrow> elems s ! j = f j) \<Longrightarrow>
   check_each get s f i n = Inr ()"
proof (induction n arbitrary: i)
  case (Suc n)
  then have "get s (int i) = Inr (f i)" using get_law [of s i] by simp
  with Suc show ?case by simp
qed simp

lemma push_pop_each:
  assumes "inv s" "length (elems s) + length xs \<le> room"
  shows "\<exists>s1 s2. push_each push s xs = Inr s1 \<and> pop_each pop s1 (length xs) = Inr (rev xs, s2) \<and>
    inv s2 \<and> elems s2 = elems s"
proof -
  obtain s1 where s1: "push_each push s xs = Inr s1" "inv s1" "elems s1 = elems s @ xs"
    using push_each_law [OF assms] by blast
  then show ?thesis using pop_each_law [OF s1(2), of "length xs"] by auto
qed

end

definition da_ok :: "DA option \<Rightarrow> bool" where
  "da_ok da = (case da of None \<Rightarrow> False | Some d \<Rightarrow> da_wf d)"

definition da_elems :: "DA option \<Rightarrow> ptr list" where
  "da_elems da = (case da of None \<Rightarrow> [] | Some d \<Rightarrow> da_list d)"

interpretation dyn: indexed_stack da_ok da_elems "DA_push (\<lambda>_. True)" DA_pop DA_get "2 ^ 40"
proof (unfold_locales, goal_cases)
  case (1 s x)
  then obtain d where d: "s = Some d" "da_wf d" by (auto simp: da_ok_def split: option.splits)
  have "push_room (\<lambda>_. True) d"
    using 1(2) d times_1_5_small [of "da_cap d"] length_da_list [OF d(2)]
    by (auto simp: push_room_def malloc_ok_def PTRDIFF_MAX_def sizeof_ptr_def da_elems_def)
  then show ?case using d
    by (auto simp: da_ok_def da_elems_def intro: DA_push_wf [OF d(2), of "\<lambda>_. True" x])
next
  case (2 s)
  then obtain d where d: "s = Some d" "da_wf d" by (auto simp: da_ok_def split: option.splits)
  then show ?case using 2(2)
    by (auto simp: da_ok_def da_elems_def intro: DA_pop_wf [OF d(2)])
next
  case (3 s i)
  then show ?case by (auto simp: da_ok_def da_elems_def DA_get_wf split: option.splits)
qed

section \<open>The test program\<close>

datatype da_block = ArrBlock | StructBlock

text \<open>The blocks \<open>DA_free\<close> releases, in order.\<close>

definition DA_free :: "DA option \<Rightarrow> da_block list" where
  "DA_free da = (case da of None \<Rightarrow> [] | Some d \<Rightarrow> [ArrBlock, StructBlock])"

text \<open>
  \<open>main\<close>: the addresses of the locals \<open>x\<close>, \<open>y\<close> and of \<open>arr[i]\<close> are arguments. The result is
  the list of blocks that were freed, twice one array and its descriptor, or the fault of the
  first assertion that fails.
\<close>

definition assert_size :: "DA option \<Rightarrow> int \<Rightarrow> unit res" where
  "assert_size da n = andthen (DA_size da) (\<lambda>k. check (k = n))"

definition assert_pop :: "DA option \<Rightarrow> ptr \<Rightarrow> DA option res" where
  "assert_pop da x = andthen (DA_pop da) (\<lambda>(v, da'). andthen (check (v = x)) (\<lambda>_. Inr da'))"

definition main_basic :: "(nat \<Rightarrow> bool) \<Rightarrow> ptr \<Rightarrow> ptr \<Rightarrow> DA option \<Rightarrow> DA option res" where
  "main_basic alloc x y da0 =
     andthen (assert_size da0 0) (\<lambda>_.
     andthen (DA_push alloc da0 x) (\<lambda>da1.
     andthen (DA_push alloc da1 y) (\<lambda>da2.
     andthen (assert_size da2 2) (\<lambda>_.
     andthen (assert_pop da2 y) (\<lambda>da3.
     andthen (assert_size da3 1) (\<lambda>_.
     andthen (assert_pop da3 x) (\<lambda>da4.
     andthen (assert_size da4 0) (\<lambda>_.
     andthen (assert_pop da4 NULL) (\<lambda>da5.
     andthen (DA_push alloc da5 x) (\<lambda>da6.
     andthen (DA_set da6 y 0) (\<lambda>da7.
     andthen (DA_get da7 0) (\<lambda>v.
     andthen (check (v = y)) (\<lambda>_.
     andthen (DA_pop da7) (\<lambda>(_, da8).
     andthen (assert_size da8 0) (\<lambda>_. Inr da8)))))))))))))))"

definition main_expand :: "(nat \<Rightarrow> bool) \<Rightarrow> ptr \<Rightarrow> (nat \<Rightarrow> ptr) \<Rightarrow> DA option \<Rightarrow> da_block list res" where
  "main_expand alloc x elem da =
     andthen (DA_new alloc) (\<lambda>e0.
     andthen (DA_push alloc (Some e0) x) (\<lambda>da2.
     (let n = 100 * STARTING_CAPACITY in
     andthen (push_each (DA_push alloc) da (map elem [0..<n])) (\<lambda>da1.
     andthen (assert_size da1 (int n)) (\<lambda>_.
     andthen (check_each DA_get da1 elem 0 n) (\<lambda>_.
     andthen (pop_each DA_pop da1 n) (\<lambda>(_, da3).
     andthen (assert_size da3 0) (\<lambda>_.
     andthen (assert_pop da2 x) (\<lambda>da4.
     Inr (DA_free da3 @ DA_free da4))))))))))"

definition dynarray_main :: "(nat \<Rightarrow> bool) \<Rightarrow> ptr \<Rightarrow> ptr \<Rightarrow> (nat \<Rightarrow> ptr) \<Rightarrow> da_block list res" where
  "dynarray_main alloc x y elem =
     andthen (DA_new alloc) (\<lambda>d. andthen (main_basic alloc x y (Some d)) (main_expand alloc x elem))"

lemma da_ok_Some: "da_ok da \<Longrightarrow> \<exists>d. da = Some d \<and> da_wf d \<and> da_elems da = da_list d"
  by (auto simp: da_ok_def da_elems_def split: option.splits)

lemma assert_size_ok:
  "da_ok da \<Longrightarrow> length (da_elems da) < 2 ^ 31 \<Longrightarrow> n = int (length (da_elems da)) \<Longrightarrow>
   assert_size da n = Inr ()"
  by (auto dest!: da_ok_Some simp: assert_size_def DA_size_wf)

lemma assert_pop_ok:
  assumes "da_ok da" and "da_elems da = xs @ [x]"
  obtains da' where "assert_pop da x = Inr da'" "da_ok da'" "da_elems da' = xs"
proof -
  obtain da' where "DA_pop da = Inr (x, da')" "da_ok da'" "da_elems da' = xs"
    using dyn.pop_law [OF assms(1)] assms(2) by auto
  then show ?thesis using that [of da'] by (simp add: assert_pop_def)
qed

lemma DA_set_ok:
  assumes "da_ok da"
  shows "\<exists>da'. DA_set da x i = Inr da' \<and> da_ok da' \<and>
    da_elems da' = (if 0 \<le> i then (da_elems da)[nat i := x] else da_elems da)"
proof -
  obtain d where d: "da = Some d" "da_wf d" "da_elems da = da_list d"
    using da_ok_Some [OF assms] by blast
  obtain d' where "DA_set (Some d) x i = Inr (Some d')" "da_wf d'"
    "da_list d' = (if 0 \<le> i then (da_list d)[nat i := x] else da_list d)"
    by (rule DA_set_wf [OF d(2), of x i]) blast
  then show ?thesis using d by (simp add: da_ok_def da_elems_def)
qed

lemma DA_new_ok: "\<exists>d. DA_new (\<lambda>_. True) = Inr d \<and> da_ok (Some d) \<and> da_elems (Some d) = []"
proof -
  obtain d where "DA_new (\<lambda>_. True) = Inr d" "da_wf d" "da_list d = []"
    by (rule DA_new_wf [of "\<lambda>_. True"]) auto
  then show ?thesis by (simp add: da_ok_def da_elems_def)
qed

lemma main_basic_ok:
  assumes "da_ok da" and "da_elems da = []"
  obtains da' where "main_basic (\<lambda>_. True) x y da = Inr da'" "da_ok da'" "da_elems da' = []"
proof -
  obtain da1 where 1: "DA_push (\<lambda>_. True) da x = Inr da1" "da_ok da1" "da_elems da1 = [x]"
    using dyn.push_law [OF assms(1), of x] assms(2) by auto
  obtain da2 where 2: "DA_push (\<lambda>_. True) da1 y = Inr da2" "da_ok da2" "da_elems da2 = [x] @ [y]"
    using dyn.push_law [OF 1(2), of y] 1(3) by auto
  obtain da3 where 3: "assert_pop da2 y = Inr da3" "da_ok da3" "da_elems da3 = [] @ [x]"
    using assert_pop_ok [OF 2(2,3)] by auto
  obtain da4 where 4: "assert_pop da3 x = Inr da4" "da_ok da4" "da_elems da4 = []"
    using assert_pop_ok [OF 3(2,3)] by auto
  have 5: "assert_pop da4 NULL = Inr da4"
    using da_ok_Some [OF 4(2)] 4(3) by (auto simp: assert_pop_def DA_pop_empty)
  obtain da6 where 6: "DA_push (\<lambda>_. True) da4 x = Inr da6" "da_ok da6" "da_elems da6 = [x]"
    using dyn.push_law [OF 4(2), of x] 4(3) by auto
  obtain da7 where 7: "DA_set da6 y 0 = Inr da7" "da_ok da7" "da_elems da7 = [y]"
    using DA_set_ok [OF 6(2), of y 0] 6(3) by auto
  obtain da8 where 8: "DA_pop da7 = Inr (y, da8)" "da_ok da8" "da_elems da8 = []"
    using dyn.pop_law [OF 7(2)] 7(3) by auto
  have "main_basic (\<lambda>_. True) x y da = Inr da8"
    using 1 2 3 4 5 6 7 8 assms dyn.get_law [OF 7(2), of 0]
    by (simp add: main_basic_def assert_size_ok)
  then show ?thesis using 8(2,3) by (rule that)
qed

lemma main_expand_ok:
  assumes "da_ok da" and "da_elems da = []"
  shows "main_expand (\<lambda>_. True) x elem da = Inr [ArrBlock, StructBlock, ArrBlock, StructBlock]"
proof -
  obtain e0 where e0: "DA_new (\<lambda>_. True) = Inr e0" "da_ok (Some e0)" "da_elems (Some e0) = []"
    using DA_new_ok by blast
  obtain da2 where 2: "DA_push (\<lambda>_. True) (Some e0) x = Inr da2" "da_ok da2" "da_elems da2 = [] @ [x]"
    using dyn.push_law [OF e0(2), of x] e0(3) by auto
  obtain da4 where 4: "assert_pop da2 x = Inr da4" "da_ok da4"
    using assert_pop_ok [OF 2(2,3)] by auto
  let ?n = "100 * STARTING_CAPACITY"
  obtain da1 where 1: "push_each (DA_push (\<lambda>_. True)) da (map elem [0..<?n]) = Inr da1" "da_ok da1"
    "da_elems da1 = map elem [0..<?n]"
    using dyn.push_each_law [OF assms(1), of "map elem [0..<?n]"] assms(2) by (auto simp: STARTING_CAPACITY_def)
  obtain xs da3 where 3: "pop_each DA_pop da1 ?n = Inr (xs, da3)" "da_ok da3" "da_elems da3 = []"
    using dyn.pop_each_law [OF 1(2), of ?n] 1(3) by auto
  have "check_each DA_get da1 elem 0 ?n = Inr ()"
    using 1(3) by (intro dyn.check_each_law [OF 1(2)]) simp_all
  moreover have "DA_free da3 @ DA_free da4 = [ArrBlock, StructBlock, ArrBlock, StructBlock]"
    using da_ok_Some [OF 3(2)] da_ok_Some [OF 4(2)] by (auto simp: DA_free_def)
  moreover have "length (da_elems da1) < 2 ^ 31" "length (da_elems da3) < 2 ^ 31"
    using 1(3) 3(3) by (simp_all add: STARTING_CAPACITY_def)
  ultimately show ?thesis
    using e0 1 2 3 4 by (simp add: main_expand_def Let_def assert_size_ok)
qed

section \<open>Properties\<close>

text \<open>A full array of eight cells, for the witnesses.\<close>

definition full_da :: DA where
  "full_da = \<lparr>da_cap = 8, da_size = 8, da_arr = Some (map Some [11, 12, 13, 14, 15, 16, 17, 18])\<rparr>"

lemma full_da_wf: "da_wf full_da"
proof -
  have "i < 8 \<Longrightarrow> map Some [11, 12, 13, 14, 15, 16, 17, 18 :: ptr] ! i \<noteq> None" for i
    by (subst nth_map) auto
  then show ?thesis by (simp add: da_wf_def full_da_def STARTING_CAPACITY_def sizeof_ptr_def PTRDIFF_MAX_def)
qed

lemma full_da_list: "da_list full_da = [11, 12, 13, 14, 15, 16, 17, 18]"
  by (simp add: da_list_def full_da_def)

text \<open>
  C28: a push onto a well-formed array that has a free cell, or gets the bigger block it asks
  for, succeeds without touching memory outside the block, keeps the invariant and appends the
  value to the stored sequence, every older element in its place.
\<close>

theorem DA_push_appends:
  assumes "da_wf d" and "push_room alloc d"
  shows "\<exists>d'. DA_push alloc (Some d) x = Inr (Some d') \<and> da_wf d' \<and> da_list d' = da_list d @ [x]"
  using DA_push_wf [OF assms] by blast

theorem DA_push_appends_witness:
  "\<exists>d'. DA_push (\<lambda>n. n \<le> 96) (Some full_da) 19 = Inr (Some d') \<and> da_wf d' \<and>
     da_list d' = [11, 12, 13, 14, 15, 16, 17, 18] @ [19]"
proof -
  have "push_room (\<lambda>n. n \<le> 96) full_da"
    by (simp add: push_room_def full_da_def times_1_5_small sizeof_ptr_def malloc_ok_def PTRDIFF_MAX_def)
  from DA_push_appends [OF full_da_wf this, of 19] show ?thesis by (simp add: full_da_list)
qed

text \<open>
  When the array is full and \<open>realloc\<close> fails, the push writes through the \<open>NULL\<close> it got:
  the result of \<open>realloc\<close> is not checked.
\<close>

theorem DA_push_no_memory:
  assumes "da_wf d" and "da_size d = da_cap d" and "\<not> malloc_ok alloc (times_1_5 (da_cap d) * sizeof_ptr)"
  shows "DA_push alloc (Some d) x = Inl NullDeref"
proof -
  have "0 < times_1_5 (da_cap d)" "times_1_5 (da_cap d) < 2 ^ 61"
    using da_wf_cap [OF assms(1)] times_1_5_gt [of "da_cap d"] times_1_5_less [of "da_cap d"] by auto
  then show ?thesis using assms(2,3) by (simp add: DA_push_def grow_cap_def realloc_small)
qed

theorem DA_push_no_memory_witness: "DA_push (\<lambda>n. n \<le> 64) (Some full_da) 19 = Inl NullDeref"
  by (rule DA_push_no_memory [OF full_da_wf])
    (simp_all add: full_da_def times_1_5_small sizeof_ptr_def malloc_ok_def)

text \<open>
  C29: pop returns \<open>NULL\<close> on an empty array and otherwise the last element, which it removes;
  get and set read and write an index inside the sequence, and outside of it, negative indices
  included, get returns \<open>NULL\<close> and set does nothing.
\<close>

theorem DA_access_refines:
  assumes "da_wf d"
  shows "(\<exists>d'. DA_pop (Some d) =
        Inr (if da_list d = [] then NULL else last (da_list d), Some d') \<and>
        da_wf d' \<and> da_list d' = butlast (da_list d)) \<and>
    DA_get (Some d) i =
      Inr (if 0 \<le> i \<and> nat i < length (da_list d) then da_list d ! nat i else NULL) \<and>
    (\<exists>d'. DA_set (Some d) x i = Inr (Some d') \<and> da_wf d' \<and>
        da_list d' = (if 0 \<le> i then (da_list d)[nat i := x] else da_list d))"
proof (intro conjI)
  show "\<exists>d'. DA_pop (Some d) =
      Inr (if da_list d = [] then NULL else last (da_list d), Some d') \<and>
      da_wf d' \<and> da_list d' = butlast (da_list d)"
    using DA_pop_empty [OF assms] DA_pop_wf [OF assms] assms by (cases "da_list d = []") fastforce+
  show "\<exists>d'. DA_set (Some d) x i = Inr (Some d') \<and> da_wf d' \<and>
      da_list d' = (if 0 \<le> i then (da_list d)[nat i := x] else da_list d)"
    using DA_set_wf [OF assms] by blast
qed (simp add: DA_get_wf [OF assms])

theorem DA_access_refines_witness:
  "DA_get (Some full_da) 7 = Inr 18 \<and> DA_get (Some full_da) (-1) = Inr NULL"
  using DA_access_refines [OF full_da_wf, of 7] DA_access_refines [OF full_da_wf, of "-1"]
  by (simp add: full_da_list)

text \<open>
  While memory lasts, every assertion of the test program holds, eight hundred pushes and
  the growth they force included, and both arrays are freed.
\<close>

theorem dynarray_main_passes:
  "dynarray_main (\<lambda>_. True) x y elem = Inr [ArrBlock, StructBlock, ArrBlock, StructBlock]"
proof -
  obtain d where d: "DA_new (\<lambda>_. True) = Inr d" "da_ok (Some d)" "da_elems (Some d) = []"
    using DA_new_ok by blast
  obtain da' where "main_basic (\<lambda>_. True) x y (Some d) = Inr da'" "da_ok da'" "da_elems da' = []"
    by (rule main_basic_ok [OF d(2,3), of x y]) blast
  then show ?thesis using d(1) by (simp add: dynarray_main_def main_expand_ok)
qed

end
