(* ===== verification/HashMap.thy ===== *)
theory HashMap
  imports Prelude
begin

unbundle bit_operations_syntax

text \<open>
  The open-addressing hash map of
  \<open>02-computer-systems/02-introduction-to-c/06-basic-hashmap/hashmap.c\<close>. A key argument of the
  operations is the list of the \<open>key_len\<close> bytes at its address; the hash function (a field of
  the map) sees those bytes. A value is an address. The array is an option, \<open>None\<close> where
  \<open>calloc\<close> returned \<open>NULL\<close>, and every access to it is checked. Indices and counts are \<open>nat\<close>; the
  arithmetic of \<open>next_power_of_2\<close>, of the probe sequence and of \<open>djb2\<close> is done on 64-bit words.
\<close>

section \<open>State\<close>

definition STARTING_BUCKETS :: nat where
  "STARTING_BUCKETS = 8"

datatype node_status = NODE_EMPTY | NODE_OCCUPIED | NODE_DELETED

record map_node =
  n_key :: bytes
  n_key_len :: nat
  n_value :: ptr
  n_hash :: nat
  n_status :: node_status

record hashmap =
  hm_cap :: nat
  hm_arr :: "map_node list option"
  hm_hash :: "bytes \<Rightarrow> u64"
  hm_size :: nat

text \<open>A node as \<open>calloc\<close> leaves it, all bytes zero.\<close>

definition zero_node :: map_node where
  "zero_node = \<lparr>n_key = [], n_key_len = 0, n_value = NULL, n_hash = 0, n_status = NODE_EMPTY\<rparr>"

text \<open>
  The allocator is a parameter: \<open>alloc\<close> says of a number of bytes whether a block of that size is
  given. \<open>calloc\<close> refuses a block whose size in bytes does not fit \<open>size_t\<close>.
\<close>

definition sizeof_node :: nat where
  "sizeof_node = 40"

definition calloc_nodes :: "(nat \<Rightarrow> bool) \<Rightarrow> nat \<Rightarrow> map_node list option" where
  "calloc_nodes alloc n =
     (if n * sizeof_node < 2 ^ 64 \<and> alloc (n * sizeof_node) then Some (replicate n zero_node) else None)"

definition Hashmap_new :: "(nat \<Rightarrow> bool) \<Rightarrow> (bytes \<Rightarrow> u64) \<Rightarrow> hashmap" where
  "Hashmap_new alloc hash =
     \<lparr>hm_cap = STARTING_BUCKETS, hm_arr = calloc_nodes alloc STARTING_BUCKETS,
      hm_hash = hash, hm_size = 0\<rparr>"

definition node_at :: "hashmap \<Rightarrow> nat \<Rightarrow> map_node res" where
  "node_at m pos = (case hm_arr m of None \<Rightarrow> Inl NullDeref | Some a \<Rightarrow> rd a pos)"

text \<open>The keys that \<open>Hashmap_free\<close> releases, before the array and the map itself.\<close>

definition Hashmap_free :: "hashmap \<Rightarrow> bytes list" where
  "Hashmap_free m = (case hm_arr m of None \<Rightarrow> []
     | Some a \<Rightarrow> map n_key (filter (\<lambda>nd. n_status nd = NODE_OCCUPIED) (take (hm_cap m) a)))"

section \<open>Operations\<close>

definition next_power_of_2 :: "u64 \<Rightarrow> u64" where
  "next_power_of_2 n =
     (let n = n - 1;
          n = n OR drop_bit 1 n;
          n = n OR drop_bit 2 n;
          n = n OR drop_bit 4 n;
          n = n OR drop_bit 8 n;
          n = n OR drop_bit 16 n;
          n = n OR drop_bit 32 n
      in n + 1)"

text \<open>
  The \<open>i\<close>-th position after the home position: \<open>(hv + (i + i * i) >> 1) % n\<close>, where the shift
  binds weaker than the addition.
\<close>

definition probe_pos :: "nat \<Rightarrow> nat \<Rightarrow> nat \<Rightarrow> nat" where
  "probe_pos hv n i =
     (let h = word_of_nat hv :: u64; j = word_of_nat i :: u64
      in unat (drop_bit 1 (h + (j + j * j)) mod word_of_nat n))"

datatype probe = NEED_RESIZE | HAS_NEXT | FOUND | REPLACE

definition memcmp_eq :: "bytes \<Rightarrow> bytes \<Rightarrow> nat \<Rightarrow> bool" where
  "memcmp_eq a b n \<longleftrightarrow> take n a = take n b"

definition probe_node :: "bytes \<Rightarrow> nat \<Rightarrow> map_node \<Rightarrow> probe" where
  "probe_node key hash nd =
     (if n_status nd = NODE_EMPTY then FOUND
      else if hash = n_hash nd
      then (if n_status nd = NODE_DELETED then FOUND
            else if length key = n_key_len nd \<and> memcmp_eq key (n_key nd) (length key) then REPLACE
            else HAS_NEXT)
      else NEED_RESIZE)"

definition probing :: "hashmap \<Rightarrow> bytes \<Rightarrow> nat \<Rightarrow> nat \<Rightarrow> probe res" where
  "probing m key pos hash = andthen (node_at m pos) (\<lambda>nd. Inr (probe_node key hash nd))"

text \<open>
  The node after \<open>node_set\<close>. The copy of the key is allocated without a check: where \<open>malloc\<close>
  gives \<open>NULL\<close>, the \<open>memcpy\<close> into it is the fault.
\<close>

definition filled :: "map_node \<Rightarrow> bytes \<Rightarrow> ptr \<Rightarrow> nat \<Rightarrow> map_node" where
  "filled nd key value hash =
     nd\<lparr>n_key_len := length key, n_key := key, n_value := value, n_hash := hash,
        n_status := NODE_OCCUPIED\<rparr>"

definition node_set :: "(nat \<Rightarrow> bool) \<Rightarrow> map_node \<Rightarrow> bytes \<Rightarrow> ptr \<Rightarrow> nat \<Rightarrow> map_node res" where
  "node_set alloc nd key value hash =
     (if alloc (length key) then Inr (filled nd key value hash) else Inl NullDeref)"

text \<open>The loop of \<open>Hashmap_set\<close>: the position to store at, or \<open>None\<close> to resize.\<close>

function set_loop :: "hashmap \<Rightarrow> bytes \<Rightarrow> nat \<Rightarrow> nat \<Rightarrow> nat \<Rightarrow> (probe \<times> nat) option res" where
  "set_loop m key hv n i =
     (if i \<le> n
      then (let t = probe_pos hv n i
            in if hm_cap m \<le> t then set_loop m key hv n (Suc i)
               else andthen (probing m key t hv)
                 (\<lambda>flg. case flg of
                    HAS_NEXT \<Rightarrow> set_loop m key hv n (Suc i)
                  | NEED_RESIZE \<Rightarrow> Inr None
                  | FOUND \<Rightarrow> Inr (Some (FOUND, t))
                  | REPLACE \<Rightarrow> Inr (Some (REPLACE, t))))
      else Inr None)"
  by pat_completeness auto
termination
  by (relation "measure (\<lambda>(m, key, hv, n, i). Suc n - i)") auto

declare set_loop.simps [simp del]

definition home :: "hashmap \<Rightarrow> bytes \<Rightarrow> nat" where
  "home m key = unat (hm_hash m key) mod hm_cap m"

definition set_pos :: "hashmap \<Rightarrow> bytes \<Rightarrow> (probe \<times> nat) option res" where
  "set_pos m key =
     (let hv = home m key
      in andthen (probing m key hv hv)
        (\<lambda>flg. case flg of
           FOUND \<Rightarrow> Inr (Some (FOUND, hv))
         | REPLACE \<Rightarrow> Inr (Some (REPLACE, hv))
         | HAS_NEXT \<Rightarrow>
             set_loop m key hv (unat (next_power_of_2 (word_of_nat (hm_cap m)))) 1
         | NEED_RESIZE \<Rightarrow> Inr None))"

definition store_at :: "(nat \<Rightarrow> bool) \<Rightarrow> hashmap \<Rightarrow> probe \<Rightarrow> nat \<Rightarrow> bytes \<Rightarrow> ptr \<Rightarrow> nat \<Rightarrow> hashmap res" where
  "store_at alloc m flg t key value hv =
     andthen (node_at m t) (\<lambda>nd. andthen (node_set alloc nd key value hv) (\<lambda>nd'.
       Inr (m\<lparr>hm_arr := map_option (\<lambda>a. a[t := nd']) (hm_arr m),
              hm_size := (if flg = FOUND then Suc (hm_size m) else hm_size m)\<rparr>)))"

text \<open>
  Re-insertion of the old array into the new one, each occupied node through the map's own set
  operation. \<open>None\<close> is the recursion running out of fuel.
\<close>

fun reinsert :: "(hashmap \<Rightarrow> bytes \<Rightarrow> ptr \<Rightarrow> hashmap res option) \<Rightarrow> hashmap \<Rightarrow> map_node list \<Rightarrow>
    hashmap res option" where
  "reinsert setter m [] = Some (Inr m)"
| "reinsert setter m (nd # nds) =
     (if n_status nd = NODE_OCCUPIED
      then (case setter m (take (n_key_len nd) (n_key nd)) (n_value nd) of
              None \<Rightarrow> None
            | Some (Inl e) \<Rightarrow> Some (Inl e)
            | Some (Inr m') \<Rightarrow> reinsert setter m' nds)
      else reinsert setter m nds)"

fun Hashmap_set :: "nat \<Rightarrow> (nat \<Rightarrow> bool) \<Rightarrow> hashmap \<Rightarrow> bytes \<Rightarrow> ptr \<Rightarrow> hashmap res option" where
  "Hashmap_set 0 alloc m key value = None"
| "Hashmap_set (Suc fuel) alloc m key value =
     (case set_pos m key of
        Inl e \<Rightarrow> Some (Inl e)
      | Inr (Some (flg, t)) \<Rightarrow> Some (store_at alloc m flg t key value (home m key))
      | Inr None \<Rightarrow>
          (let cap' = 2 * hm_cap m;
               arr' = calloc_nodes alloc cap';
               m0 = m\<lparr>hm_cap := cap', hm_arr := arr', hm_size := 0\<rparr>
           in case reinsert (Hashmap_set fuel alloc) m0 (case hm_arr m of None \<Rightarrow> [] | Some a \<Rightarrow> a) of
                None \<Rightarrow> None
              | Some (Inl e) \<Rightarrow> Some (Inl e)
              | Some (Inr m') \<Rightarrow> Hashmap_set fuel alloc m' key value))"

datatype probe2 = STOP | CONTINUE | FOUND_KEY

definition probe2_node :: "bytes \<Rightarrow> nat \<Rightarrow> map_node \<Rightarrow> probe2" where
  "probe2_node key hash nd =
     (if n_status nd = NODE_EMPTY then STOP
      else if hash \<noteq> n_hash nd then STOP
      else if n_status nd = NODE_DELETED \<or> length key \<noteq> n_key_len nd
              \<or> \<not> memcmp_eq key (n_key nd) (length key) then CONTINUE
      else FOUND_KEY)"

definition probing2 :: "hashmap \<Rightarrow> bytes \<Rightarrow> nat \<Rightarrow> nat \<Rightarrow> probe2 res" where
  "probing2 m key pos hash = andthen (node_at m pos) (\<lambda>nd. Inr (probe2_node key hash nd))"

text \<open>The loop that \<open>Hashmap_get\<close> and \<open>Hashmap_delete\<close> share: the key's position, if any.\<close>

function get_loop :: "hashmap \<Rightarrow> bytes \<Rightarrow> nat \<Rightarrow> nat \<Rightarrow> nat \<Rightarrow> nat option res" where
  "get_loop m key hv n i =
     (if i \<le> n
      then (let t = probe_pos hv n i
            in if hm_cap m \<le> t then get_loop m key hv n (Suc i)
               else andthen (probing2 m key t hv)
                 (\<lambda>ret. case ret of
                    FOUND_KEY \<Rightarrow> Inr (Some t)
                  | CONTINUE \<Rightarrow> get_loop m key hv n (Suc i)
                  | STOP \<Rightarrow> Inr None))
      else Inr None)"
  by pat_completeness auto
termination
  by (relation "measure (\<lambda>(m, key, hv, n, i). Suc n - i)") auto

declare get_loop.simps [simp del]

definition get_pos :: "hashmap \<Rightarrow> bytes \<Rightarrow> nat option res" where
  "get_pos m key =
     (let hv = home m key
      in andthen (probing2 m key hv hv)
        (\<lambda>ret. case ret of
           FOUND_KEY \<Rightarrow> Inr (Some hv)
         | CONTINUE \<Rightarrow>
             get_loop m key hv (unat (next_power_of_2 (word_of_nat (hm_cap m)))) 1
         | STOP \<Rightarrow> Inr None))"

definition Hashmap_get :: "hashmap \<Rightarrow> bytes \<Rightarrow> ptr res" where
  "Hashmap_get m key =
     andthen (get_pos m key)
       (\<lambda>r. case r of None \<Rightarrow> Inr NULL | Some t \<Rightarrow> andthen (node_at m t) (\<lambda>nd. Inr (n_value nd)))"

text \<open>The freed key stays in the model's field; a deleted node's key is never read.\<close>

definition node_delete :: "map_node \<Rightarrow> map_node" where
  "node_delete nd = nd\<lparr>n_status := NODE_DELETED, n_key_len := 0\<rparr>"

definition Hashmap_delete :: "hashmap \<Rightarrow> bytes \<Rightarrow> (ptr \<times> hashmap) res" where
  "Hashmap_delete m key =
     andthen (get_pos m key)
       (\<lambda>r. case r of
          None \<Rightarrow> Inr (NULL, m)
        | Some t \<Rightarrow> andthen (node_at m t) (\<lambda>nd.
            Inr (n_value nd,
              m\<lparr>hm_size := hm_size m - 1,
                hm_arr := map_option (\<lambda>a. a[t := node_delete nd]) (hm_arr m)\<rparr>)))"

text \<open>\<open>djb2\<close>: bytes are signed \<open>char\<close>s, extended to 64 bits when they are added.\<close>

fun djb2_from :: "u64 \<Rightarrow> bytes \<Rightarrow> u64" where
  "djb2_from hash [] = hash"
| "djb2_from hash (c # cs) =
     (if c = 0 then hash else djb2_from ((push_bit 5 hash + hash) + scast c) cs)"

definition djb2 :: "bytes \<Rightarrow> u64" where
  "djb2 key = djb2_from 5381 key"

end
