(* ===== verification/HashMapProbe.thy ===== *)
theory HashMapProbe
  imports HashMap
begin

unbundle bit_operations_syntax

text \<open>
  The arithmetic of the hash map: what \<open>next_power_of_2\<close> computes, that the 64-bit probe position
  is the one of the natural numbers even where the word arithmetic wraps, and which slots the
  probe sequence visits.
\<close>

section \<open>The smallest power of two\<close>

text \<open>One smearing step doubles the number of higher bits that are visible at each bit.\<close>

lemma smear_step:
  fixes x y :: u64
  assumes "\<And>i. bit y i \<longleftrightarrow> (\<exists>j<k. bit x (i + j))"
  shows "bit (y OR drop_bit k y) i \<longleftrightarrow> (\<exists>j<2 * k. bit x (i + j))"
proof -
  have split: "(\<exists>j<2 * k. bit x (i + j)) \<longleftrightarrow>
      (\<exists>j<k. bit x (i + j)) \<or> (\<exists>j<k. bit x (i + (k + j)))" (is "?l \<longleftrightarrow> ?a \<or> ?b")
  proof
    assume ?l
    then obtain j where j: "j < 2 * k" "bit x (i + j)" by blast
    show "?a \<or> ?b"
    proof (cases "j < k")
      case False
      then have "j - k < k \<and> bit x (i + (k + (j - k)))" using j by simp
      then show ?thesis by blast
    qed (use j in blast)
  next
    assume "?a \<or> ?b"
    then show ?l
    proof
      assume ?b
      then obtain j where "j < k" "bit x (i + (k + j))" by blast
      then show ?l by (intro exI [of _ "k + j"]) simp
    next
      assume ?a
      then show ?l by (metis add_lessD1 mult_2 trans_less_add1)
    qed
  qed
  have "bit (y OR drop_bit k y) i \<longleftrightarrow> bit y i \<or> bit y (k + i)"
    by (auto simp: bit_or_iff bit_drop_bit_eq)
  then show ?thesis
    unfolding assms split by (simp add: ac_simps)
qed

text \<open>All smearing steps: every bit below the highest one is set.\<close>

definition smear :: "u64 \<Rightarrow> u64" where
  "smear n =
     (let n = n OR drop_bit 1 n;
          n = n OR drop_bit 2 n;
          n = n OR drop_bit 4 n;
          n = n OR drop_bit 8 n;
          n = n OR drop_bit 16 n
      in n OR drop_bit 32 n)"

lemma next_power_of_2_smear: "next_power_of_2 n = smear (n - 1) + 1"
  by (simp only: next_power_of_2_def smear_def Let_def)

lemma bit_smear: "bit (smear x) i \<longleftrightarrow> (\<exists>j<64. bit x (i + j))"
proof -
  have "bit x i \<longleftrightarrow> (\<exists>j<1. bit x (i + j))" for i by simp
  note s = smear_step [OF this] 
  note s = smear_step [OF s]
  note s = smear_step [OF s]
  note s = smear_step [OF s]
  note s = smear_step [OF s]
  note s = smear_step [OF s]
  show ?thesis using s by (simp add: smear_def)
qed

lemma smear_mask:
  assumes lo: "bit x k" and hi: "\<And>i. k < i \<Longrightarrow> \<not> bit x i"
  shows "smear x = mask (Suc k)"
proof (rule bit_eqI)
  fix i assume "possible_bit TYPE(u64) i"
  have k: "k < 64" using bit_imp_le_length [OF lo] by simp
  have "(\<exists>j<64. bit x (i + j)) \<longleftrightarrow> i \<le> k"
  proof
    assume "i \<le> k"
    then show "\<exists>j<64. bit x (i + j)" using lo k by (intro exI [of _ "k - i"]) simp
  next
    assume "\<exists>j<64. bit x (i + j)"
    then show "i \<le> k" using hi by (metis le_add1 le_trans not_less)
  qed
  then show "bit (smear x) i \<longleftrightarrow> bit (mask (Suc k) :: u64) i"
    using k by (auto simp: bit_smear bit_mask_iff less_Suc_eq_le)
qed

text \<open>The highest bit of a word.\<close>

lemma bit_unat64: "bit (x :: u64) k \<longleftrightarrow> odd (unat x div 2 ^ k)"
  by (metis bit_iff_odd bit_unsigned_iff possible_bit_nat)

lemma unat_top_bit:
  fixes x :: u64
  assumes "2 ^ k \<le> unat x" and "unat x < 2 ^ Suc k"
  shows "bit x k" and "k < i \<Longrightarrow> \<not> bit x i"
proof -
  have "unat x div 2 ^ k = 1"
    using assms by (simp add: div_nat_eqI)
  then show "bit x k" by (simp add: bit_unat64)
  assume "k < i"
  then have "unat x < 2 ^ i"
    using assms(2) by (meson Suc_leI less_le_trans one_le_numeral power_increasing)
  then show "\<not> bit x i"
    by (simp add: bit_unat64)
qed

lemma unat_pow2:
  assumes "j \<le> 63"
  shows "unat (word_of_nat (2 ^ j) :: u64) = 2 ^ j"
proof -
  have "(2::nat) ^ j \<le> 2 ^ 63" using assms by (intro power_increasing) auto
  then show ?thesis by (subst unat_of_nat) simp
qed

lemma next_power_of_2_between:
  assumes "2 ^ k < unat n" and "unat n \<le> 2 ^ Suc k" and "k < 63"
  shows "unat (next_power_of_2 n) = 2 ^ Suc k"
proof -
  have "n \<noteq> 0" using assms(1) by (metis not_less_zero unat_0)
  then have "unat (n - 1) = unat n - 1" by (simp add: unat_minus_one)
  then have b: "2 ^ k \<le> unat (n - 1)" "unat (n - 1) < 2 ^ Suc k"
    using assms(1,2) by linarith+
  have "smear (n - 1) = mask (Suc k)"
    by (rule smear_mask) (use unat_top_bit [OF b] in auto)
  then have "next_power_of_2 n = 2 ^ Suc k"
    by (simp add: next_power_of_2_smear mask_eq_exp_minus_1)
  then show ?thesis using unat_pow2 [of "Suc k"] assms(3) by simp
qed

lemma next_power_of_2_power:
  assumes "j \<le> 63"
  shows "unat (next_power_of_2 (word_of_nat (2 ^ j))) = 2 ^ j"
proof (cases j)
  case 0
  then show ?thesis by (simp add: next_power_of_2_def)
next
  case (Suc k)
  have "unat (word_of_nat (2 ^ j) :: u64) = 2 ^ j"
    using assms by (rule unat_pow2)
  then show ?thesis using Suc assms next_power_of_2_between [of k "word_of_nat (2 ^ j)"] by simp
qed

section \<open>The probe sequence\<close>

text \<open>The position without word arithmetic, and the list of all positions a search visits.\<close>

definition ppos :: "nat \<Rightarrow> nat \<Rightarrow> nat \<Rightarrow> nat" where
  "ppos hv n i = (hv + (i + i * i)) div 2 mod n"

definition chain :: "nat \<Rightarrow> nat \<Rightarrow> nat list" where
  "chain n hv = hv # map (ppos hv n) [1..<Suc n]"

lemma probe_pos_eq:
  assumes "n = 2 ^ j" and "j \<le> 63"
  shows "probe_pos hv n i = ppos hv n i"
proof -
  define s where "s = hv + (i + i * i)"
  have "word_of_nat hv + (word_of_nat i + word_of_nat i * word_of_nat i) = (word_of_nat s :: u64)"
    by (simp add: s_def)
  then have "probe_pos hv n i = unat (drop_bit 1 (word_of_nat s :: u64)) mod unat (word_of_nat n :: u64)"
    by (simp add: probe_pos_def Let_def unat_mod_distrib)
  also have "unat (drop_bit 1 (word_of_nat s :: u64)) = s mod 2 ^ 64 div 2"
    by (subst unat_drop_bit_eq) (simp add: unat_of_nat drop_bit_Suc)
  also have "unat (word_of_nat n :: u64) = n"
    using assms unat_pow2 by simp
  also have "s mod 2 ^ 64 div 2 = s div 2 mod 2 ^ 63"
    using mod_mult2_eq [of s 2 "2 ^ 63"] by (simp add: mod_mult2_eq)
  also have "s div 2 mod 2 ^ 63 mod n = s div 2 mod n"
  proof (rule mod_mod_cancel)
    show "n dvd 2 ^ 63" unfolding assms(1) using assms(2) by (rule le_imp_power_dvd)
  qed
  finally show ?thesis by (simp add: ppos_def s_def)
qed

lemma ppos_less: "0 < n \<Longrightarrow> ppos hv n i < n"
  by (simp add: ppos_def)

lemma chain_less: "0 < n \<Longrightarrow> hv < n \<Longrightarrow> p \<in> set (chain n hv) \<Longrightarrow> p < n"
  by (auto simp: chain_def ppos_def)

definition tri :: "nat \<Rightarrow> nat" where
  "tri i = (i + i * i) div 2"

lemma tri_twice: "2 * tri i = i + i * i"
  by (simp add: tri_def)

lemma ppos_tri: "ppos hv n i = (hv div 2 + tri i) mod n"
proof -
  have "hv + (i + i * i) = hv + 2 * tri i" by (simp add: tri_twice)
  then have "(hv + (i + i * i)) div 2 = hv div 2 + tri i" by simp
  then show ?thesis by (simp add: ppos_def)
qed

lemma tri_mono: "i \<le> k \<Longrightarrow> tri i \<le> tri k"
  unfolding tri_def by (intro div_le_mono add_mono mult_mono) auto

text \<open>Triangular numbers are pairwise different modulo a power of two, up to that power.\<close>

lemma tri_inj:
  assumes "i < 2 ^ j" and "k < 2 ^ j" and "tri i mod 2 ^ j = tri k mod 2 ^ j"
  shows "i = k"
  using assms
proof (induction i k rule: linorder_wlog)
  case (le i k)
  then have "(2::nat) ^ j dvd tri k - tri i"
    by (metis mod_eq_dvd_iff_nat mono_iff_le_Suc tri_mono)
  then have "2 * 2 ^ j dvd 2 * (tri k - tri i)" by simp
  also have "2 * (tri k - tri i) = (k - i) * (k + i + 1)"
  proof -
    obtain d where "k = i + d" using le(1) by (metis le_iff_add)
    then show ?thesis using tri_twice [of i] tri_twice [of "i + d"]
      by (simp add: diff_mult_distrib2 algebra_simps)
  qed
  finally have d: "2 ^ Suc j dvd (k - i) * (k + i + 1)" by simp
  show ?case
  proof (cases "even (k - i)")
    case True
    then have "coprime (2 ^ Suc j) (k + i + 1)"
      using le(1) by (simp add: coprime_power_left_iff)
    then have "2 ^ Suc j dvd k - i"
      using d by (metis coprime_dvd_mult_left_iff)
    moreover have "k - i < 2 ^ Suc j" using le(3) by simp
    ultimately have "k - i = 0" by (meson gr0I nat_dvd_not_less)
    then show ?thesis using le(1) by simp
  next
    case False
    then have "2 ^ Suc j dvd k + i + 1"
      using d by (metis coprime_dvd_mult_right_iff coprime_left_2_iff_odd coprime_power_left_iff)
    then have "2 ^ Suc j \<le> k + i + 1" by (rule dvd_imp_le) simp
    then show ?thesis using le(2,3) by simp
  qed
qed auto

text \<open>
  The loop of \<open>Hashmap_set\<close> and of the two searches visits every slot but the one at half the
  home position (where the sequence would be at \<open>i = 0\<close>, which is the home position instead).
\<close>

lemma tri_residues:
  assumes "n = 2 ^ j"
  shows "(\<lambda>i. tri i mod n) ` {0..<n} = {0..<n}"
proof (rule endo_inj_surj)
  show "inj_on (\<lambda>i. tri i mod n) {0..<n}"
    using assms by (auto intro!: inj_onI dest: tri_inj)
  show "(\<lambda>i. tri i mod n) ` {0..<n} \<subseteq> {0..<n}" using assms by auto
qed simp

lemma tri_last: "2 \<le> n \<Longrightarrow> tri n mod n = tri (n - 1) mod n"
proof -
  assume "2 \<le> n"
  then obtain k where k: "n = Suc k" by (cases n) auto
  have "tri n = tri k + n"
    using tri_twice [of n] tri_twice [of k] k by simp
  then have "tri n mod n = (tri k + n) mod n" by (simp only:)
  then show ?thesis using k by (simp only: mod_add_self2 diff_Suc_1)
qed

lemma mod_add_inj:
  fixes c :: nat
  assumes "(c + x) mod n = (c + y) mod n" and "x < n" and "y \<le> x"
  shows "x = y"
proof -
  have "n dvd (c + x) - (c + y)"
    using assms(1,3) by (metis add_left_mono mod_eq_dvd_iff_nat)
  then have "n dvd x - y" by simp
  then have "x - y = 0" using assms(2) by (meson gr0I le_less_trans diff_le_self nat_dvd_not_less)
  then show ?thesis using assms(3) by simp
qed

lemma mod_add_image:
  assumes "0 < n"
  shows "(\<lambda>x. (c + x) mod n) ` {0..<n} = {0..<(n::nat)}"
proof (rule endo_inj_surj)
  show "inj_on (\<lambda>x. (c + x) mod n) {0..<n}"
  proof (rule inj_onI)
    fix x y assume "x \<in> {0..<n}" "y \<in> {0..<n}" "(c + x) mod n = (c + y) mod n"
    then show "x = y"
      using mod_add_inj [of c x n y] mod_add_inj [of c y n x] by (cases "y \<le> x") auto
  qed
  show "(\<lambda>x. (c + x) mod n) ` {0..<n} \<subseteq> {0..<n}" using assms by auto
qed simp

lemma ppos_image:
  assumes n: "n = 2 ^ j" and j: "1 \<le> j" and hv: "hv < n"
  shows "ppos hv n ` {1..n} = {0..<n} - {hv div 2}"
proof -
  have n2: "2 \<le> n" using n j by (metis one_le_numeral power_increasing power_one_right)
  let ?g = "\<lambda>x. (hv div 2 + x) mod n"
  have "ppos hv n i = ?g (tri i mod n)" for i
    by (simp add: ppos_tri mod_add_right_eq)
  then have img: "ppos hv n ` S = ?g ` ((\<lambda>i. tri i mod n) ` S)" for S
    by (auto simp: image_image)
  have "{1..n} = insert n {1..<n}" and "{0..<n} = insert 0 {1..<n}" and "n - 1 \<in> {1..<n}"
    using n2 by auto
  then have last: "(\<lambda>i. tri i mod n) ` {1..n} = (\<lambda>i. tri i mod n) ` {1..<n}"
    using tri_last [OF n2] by auto
  have inj: "inj_on (\<lambda>i. tri i mod n) {0..<n}"
    using n by (auto intro!: inj_onI dest: tri_inj)
  have "(\<lambda>i. tri i mod n) ` {1..<n} = {0..<n} - {0}"
  proof -
    have "{1..<n} = {0..<n} - {0}" by auto
    then show ?thesis
      using inj_on_image_set_diff [OF inj, of "{0..<n}" "{0}"] tri_residues [OF n] n2
      by (simp add: tri_def)
  qed
  moreover have "?g ` ({0..<n} - {0}) = {0..<n} - {hv div 2}"
  proof -
    have "inj_on ?g {0..<n}"
      using mod_add_image [of n "hv div 2"] n2 by (intro eq_card_imp_inj_on) auto
    then show ?thesis
      using inj_on_image_set_diff [of ?g "{0..<n}" "{0..<n}" "{0}"] mod_add_image [of n "hv div 2"]
        n2 hv by simp
  qed
  ultimately show ?thesis unfolding img last by simp
qed

end
