(* ===== verification/HashMapInv.thy ===== *)
theory HashMapInv
  imports HashMapProbe
begin

text \<open>
  The invariant of the hash map, the dictionary it stands for, and the effect of one operation
  that does not resize: a slot that was ever used with a home position keeps it, and every slot
  before an occupied one on its probe sequence was used with the same home position.
\<close>

section \<open>Invariant and abstraction\<close>

definition occupied :: "map_node \<Rightarrow> bool" where
  "occupied nd \<longleftrightarrow> n_status nd = NODE_OCCUPIED"

definition used_for :: "map_node list \<Rightarrow> nat \<Rightarrow> nat \<Rightarrow> bool" where
  "used_for a h p \<longleftrightarrow> n_status (a ! p) \<noteq> NODE_EMPTY \<and> n_hash (a ! p) = h"

definition chain_ok :: "map_node list \<Rightarrow> nat \<Rightarrow> bool" where
  "chain_ok a p \<longleftrightarrow>
     (let h = n_hash (a ! p)
      in h < length a \<and>
         (\<exists>pre post. chain (length a) h = pre @ p # post \<and> (\<forall>q\<in>set pre. used_for a h q)))"

definition chains_ok :: "map_node list \<Rightarrow> bool" where
  "chains_ok a \<longleftrightarrow> (\<forall>p<length a. n_status (a ! p) \<noteq> NODE_EMPTY \<longrightarrow> chain_ok a p)"

definition keys_ok :: "(bytes \<Rightarrow> nat) \<Rightarrow> map_node list \<Rightarrow> bool" where
  "keys_ok hm a \<longleftrightarrow> (\<forall>p<length a. occupied (a ! p) \<longrightarrow>
     n_hash (a ! p) = hm (n_key (a ! p)) \<and> n_key_len (a ! p) = length (n_key (a ! p)))"

definition occ_set :: "map_node list \<Rightarrow> nat set" where
  "occ_set a = {p. p < length a \<and> occupied (a ! p)}"

definition holds_key :: "map_node list \<Rightarrow> bytes \<Rightarrow> nat \<Rightarrow> bool" where
  "holds_key a k p \<longleftrightarrow> p < length a \<and> occupied (a ! p) \<and> n_key (a ! p) = k"

text \<open>No key is stored twice; no slot is a tombstone.\<close>

definition keys_unique :: "map_node list \<Rightarrow> bool" where
  "keys_unique a \<longleftrightarrow> (\<forall>k p q. holds_key a k p \<longrightarrow> holds_key a k q \<longrightarrow> p = q)"

definition no_tombs :: "map_node list \<Rightarrow> bool" where
  "no_tombs a \<longleftrightarrow> (\<forall>nd\<in>set a. n_status nd \<noteq> NODE_DELETED)"

definition hm_cells :: "hashmap \<Rightarrow> map_node list" where
  "hm_cells m = (case hm_arr m of None \<Rightarrow> [] | Some a \<Rightarrow> a)"

definition hm_inv :: "hashmap \<Rightarrow> bool" where
  "hm_inv m \<longleftrightarrow>
     (\<exists>j\<ge>3. hm_cap m = 2 ^ j) \<and> hm_cap m * sizeof_node < 2 ^ 64 \<and>
     hm_arr m = Some (hm_cells m) \<and> length (hm_cells m) = hm_cap m \<and>
     chains_ok (hm_cells m) \<and> keys_ok (home m) (hm_cells m) \<and>
     hm_size m = card (occ_set (hm_cells m))"

text \<open>The dictionary: the first node of the array that holds the key.\<close>

definition cells_dict :: "map_node list \<Rightarrow> bytes \<rightharpoonup> ptr" where
  "cells_dict a k = map_option n_value (find (\<lambda>nd. occupied nd \<and> n_key nd = k) a)"

definition hm_dict :: "hashmap \<Rightarrow> bytes \<rightharpoonup> ptr" where
  "hm_dict m = cells_dict (hm_cells m)"

text \<open>The invariant with no key stored twice.\<close>

definition hm_good :: "hashmap \<Rightarrow> bool" where
  "hm_good m \<longleftrightarrow> hm_inv m \<and> keys_unique (hm_cells m)"

lemma cells_dict_None: "cells_dict a k = None \<longleftrightarrow> (\<forall>p. \<not> holds_key a k p)"
  by (auto simp: cells_dict_def holds_key_def find_None_iff in_set_conv_nth)

lemma cells_dict_Some:
  assumes "keys_unique a"
  shows "cells_dict a k = Some v \<longleftrightarrow> (\<exists>p. holds_key a k p \<and> n_value (a ! p) = v)"
proof
  assume "cells_dict a k = Some v"
  then show "\<exists>p. holds_key a k p \<and> n_value (a ! p) = v"
    by (auto simp: cells_dict_def find_Some_iff holds_key_def)
next
  assume "\<exists>p. holds_key a k p \<and> n_value (a ! p) = v"
  then obtain p where p: "holds_key a k p" "n_value (a ! p) = v" by blast
  then obtain w where w: "cells_dict a k = Some w"
    using cells_dict_None [of a k] by (cases "cells_dict a k") auto
  then obtain q where "holds_key a k q" "n_value (a ! q) = w"
    by (auto simp: cells_dict_def find_Some_iff holds_key_def)
  with p w assms show "cells_dict a k = Some v" by (auto simp: keys_unique_def)
qed

lemma hm_invE:
  assumes "hm_inv m"
  obtains j a where "3 \<le> j" "j \<le> 63" "hm_cap m = 2 ^ j" "hm_arr m = Some a" "hm_cells m = a"
    "length a = 2 ^ j" "chains_ok a" "keys_ok (home m) a" "hm_size m = card (occ_set a)"
proof -
  obtain j where j: "3 \<le> j" "hm_cap m = 2 ^ j" using assms by (auto simp: hm_inv_def)
  have "j < 64"
  proof (rule ccontr)
    assume "\<not> j < 64"
    then have "(2::nat) ^ 64 \<le> 2 ^ j" by (intro power_increasing) auto
    moreover have "2 ^ j * sizeof_node < 2 ^ 64" using assms j by (simp add: hm_inv_def)
    ultimately show False by (simp add: sizeof_node_def)
  qed
  then show ?thesis using that [of j "hm_cells m"] j assms by (simp add: hm_inv_def)
qed

section \<open>The searches as scans of the probe sequence\<close>

fun scan :: "map_node list \<Rightarrow> bytes \<Rightarrow> nat \<Rightarrow> nat list \<Rightarrow> (probe \<times> nat) option" where
  "scan a k hv [] = None"
| "scan a k hv (p # ps) =
     (case probe_node k hv (a ! p) of
        HAS_NEXT \<Rightarrow> scan a k hv ps
      | NEED_RESIZE \<Rightarrow> None
      | FOUND \<Rightarrow> Some (FOUND, p)
      | REPLACE \<Rightarrow> Some (REPLACE, p))"

fun scan2 :: "map_node list \<Rightarrow> bytes \<Rightarrow> nat \<Rightarrow> nat list \<Rightarrow> nat option" where
  "scan2 a k hv [] = None"
| "scan2 a k hv (p # ps) =
     (case probe2_node k hv (a ! p) of
        CONTINUE \<Rightarrow> scan2 a k hv ps | STOP \<Rightarrow> None | FOUND_KEY \<Rightarrow> Some p)"

lemma node_at_inv: "hm_inv m \<Longrightarrow> p < hm_cap m \<Longrightarrow> node_at m p = Inr (hm_cells m ! p)"
  by (simp add: hm_inv_def node_at_def)

lemma set_loop_scan:
  assumes inv: "hm_inv m"
  shows "set_loop m k hv (hm_cap m) i =
    Inr (scan (hm_cells m) k hv (map (ppos hv (hm_cap m)) [i..<Suc (hm_cap m)]))"
proof -
  obtain j where j: "j \<le> 63" "hm_cap m = 2 ^ j" using inv by (rule hm_invE) blast
  have pos: "probe_pos hv (hm_cap m) i = ppos hv (hm_cap m) i" for i
    using probe_pos_eq [OF j(2,1)] .
  have lt: "ppos hv (hm_cap m) i < hm_cap m" for i using j(2) ppos_less by simp
  show ?thesis
  proof (induction "Suc (hm_cap m) - i" arbitrary: i)
    case 0
    then show ?case by (subst set_loop.simps) simp
  next
    case (Suc x)
    then have IH: "set_loop m k hv (hm_cap m) (Suc i) =
        Inr (scan (hm_cells m) k hv (map (ppos hv (hm_cap m)) [Suc i..<Suc (hm_cap m)]))"
      by simp
    have i: "i \<le> hm_cap m" using Suc.hyps(2) by simp
    then have "[i..<Suc (hm_cap m)] = i # [Suc i..<Suc (hm_cap m)]"
      by (simp add: upt_conv_Cons)
    then show ?case
      using i lt [of i] node_at_inv [OF inv lt [of i]]
      by (subst set_loop.simps)
        (simp add: pos probing_def IH Let_def split: probe.split del: upt_Suc)
  qed
qed

lemma get_loop_scan:
  assumes inv: "hm_inv m"
  shows "get_loop m k hv (hm_cap m) i =
    Inr (scan2 (hm_cells m) k hv (map (ppos hv (hm_cap m)) [i..<Suc (hm_cap m)]))"
proof -
  obtain j where j: "j \<le> 63" "hm_cap m = 2 ^ j" using inv by (rule hm_invE) blast
  have pos: "probe_pos hv (hm_cap m) i = ppos hv (hm_cap m) i" for i
    using probe_pos_eq [OF j(2,1)] .
  have lt: "ppos hv (hm_cap m) i < hm_cap m" for i using j(2) ppos_less by simp
  show ?thesis
  proof (induction "Suc (hm_cap m) - i" arbitrary: i)
    case 0
    then show ?case by (subst get_loop.simps) simp
  next
    case (Suc x)
    then have IH: "get_loop m k hv (hm_cap m) (Suc i) =
        Inr (scan2 (hm_cells m) k hv (map (ppos hv (hm_cap m)) [Suc i..<Suc (hm_cap m)]))"
      by simp
    have i: "i \<le> hm_cap m" using Suc.hyps(2) by simp
    then have "[i..<Suc (hm_cap m)] = i # [Suc i..<Suc (hm_cap m)]"
      by (simp add: upt_conv_Cons)
    then show ?case
      using i lt [of i] node_at_inv [OF inv lt [of i]]
      by (subst get_loop.simps)
        (simp add: pos probing2_def IH Let_def split: probe2.split del: upt_Suc)
  qed
qed

lemma home_less: "hm_inv m \<Longrightarrow> home m k < hm_cap m"
  by (auto simp: hm_inv_def home_def)

lemma rounds_inv:
  assumes "hm_inv m"
  shows "unat (next_power_of_2 (word_of_nat (hm_cap m))) = hm_cap m"
  using assms by (rule hm_invE) (metis next_power_of_2_power)

lemma set_pos_scan:
  assumes "hm_inv m"
  shows "set_pos m k = Inr (scan (hm_cells m) k (home m k) (chain (hm_cap m) (home m k)))"
  using node_at_inv [OF assms home_less [OF assms]] set_loop_scan [OF assms, of k "home m k" 1]
  by (simp add: set_pos_def probing_def rounds_inv [OF assms] chain_def Let_def split: probe.split
      del: upt_Suc)

lemma get_pos_scan:
  assumes "hm_inv m"
  shows "get_pos m k = Inr (scan2 (hm_cells m) k (home m k) (chain (hm_cap m) (home m k)))"
  using node_at_inv [OF assms home_less [OF assms]] get_loop_scan [OF assms, of k "home m k" 1]
  by (simp add: get_pos_def probing2_def rounds_inv [OF assms] chain_def Let_def split: probe2.split
      del: upt_Suc)

section \<open>What a scan finds\<close>

lemma scan_Some:
  "scan a k hv ps = Some (flg, p) \<Longrightarrow>
   \<exists>pre post. ps = pre @ p # post \<and> (\<forall>q\<in>set pre. probe_node k hv (a ! q) = HAS_NEXT) \<and>
     probe_node k hv (a ! p) = flg \<and> (flg = FOUND \<or> flg = REPLACE)"
proof (induction ps)
  case (Cons x ps)
  show ?case
  proof (cases "probe_node k hv (a ! x) = HAS_NEXT")
    case True
    with Cons obtain pre post where "ps = pre @ p # post"
      "\<forall>q\<in>set pre. probe_node k hv (a ! q) = HAS_NEXT" "probe_node k hv (a ! p) = flg"
      "flg = FOUND \<or> flg = REPLACE" by auto
    then show ?thesis using True by (intro exI [of _ "x # pre"] exI [of _ post]) auto
  next
    case False
    then show ?thesis using Cons.prems
      by (intro exI [of _ "[]"] exI [of _ ps]) (auto split: probe.splits)
  qed
qed simp

lemma scan_None:
  "scan a k hv ps = None \<Longrightarrow> x \<in> set ps \<Longrightarrow> probe_node k hv (a ! x) \<noteq> HAS_NEXT \<Longrightarrow>
   \<exists>pre p post. ps = pre @ p # post \<and> (\<forall>q\<in>set pre. probe_node k hv (a ! q) = HAS_NEXT) \<and>
     probe_node k hv (a ! p) = NEED_RESIZE"
proof (induction ps)
  case (Cons y ps)
  show ?case
  proof (cases "probe_node k hv (a ! y) = HAS_NEXT")
    case True
    with Cons obtain pre p post where "ps = pre @ p # post"
      "\<forall>q\<in>set pre. probe_node k hv (a ! q) = HAS_NEXT" "probe_node k hv (a ! p) = NEED_RESIZE"
      by auto
    then show ?thesis using True
      by (intro exI [of _ "y # pre"] exI [of _ p] exI [of _ post]) auto
  next
    case False
    then show ?thesis using Cons.prems
      by (intro exI [of _ "[]"] exI [of _ y] exI [of _ ps]) (auto split: probe.splits)
  qed
qed simp

lemma scan2_append:
  "\<forall>q\<in>set pre. probe2_node k hv (a ! q) = CONTINUE \<Longrightarrow> scan2 a k hv (pre @ ps) = scan2 a k hv ps"
  by (induction pre) auto

lemma scan2_reaches:
  "\<forall>q\<in>set pre. probe2_node k hv (a ! q) \<noteq> STOP \<Longrightarrow> probe2_node k hv (a ! p) = FOUND_KEY \<Longrightarrow>
   scan2 a k hv (pre @ p # post) \<noteq> None"
  by (induction pre) (auto split: probe2.splits)

lemma scan2_Some: "scan2 a k hv ps = Some p \<Longrightarrow> p \<in> set ps \<and> probe2_node k hv (a ! p) = FOUND_KEY"
  by (induction ps) (auto split: probe2.splits)

text \<open>How the two node tests read under the invariant.\<close>

lemma probe2_STOP: "probe2_node k hv (a ! p) = STOP \<longleftrightarrow> \<not> used_for a hv p"
  by (auto simp: probe2_node_def used_for_def)

lemma probe_RESIZE:
  "probe_node k hv (a ! p) = NEED_RESIZE \<longleftrightarrow> n_status (a ! p) \<noteq> NODE_EMPTY \<and> n_hash (a ! p) \<noteq> hv"
  by (auto simp: probe_node_def)

lemma probe_FOUND:
  "probe_node k hv (a ! p) = FOUND \<longleftrightarrow>
     n_status (a ! p) = NODE_EMPTY \<or> n_status (a ! p) = NODE_DELETED \<and> n_hash (a ! p) = hv"
  by (auto simp: probe_node_def)

lemma probe_HAS_NEXT_used: "probe_node k hv (a ! p) = HAS_NEXT \<Longrightarrow> used_for a hv p"
  by (auto simp: probe_node_def used_for_def split: if_splits)

lemma same_key:
  "n_key_len nd = length (n_key nd) \<Longrightarrow>
   (length k = n_key_len nd \<and> memcmp_eq k (n_key nd) (length k)) \<longleftrightarrow> n_key nd = k"
  by (auto simp: memcmp_eq_def)

lemma probe_REPLACE:
  assumes "keys_ok hm a" and "p < length a"
  shows "probe_node k (hm k) (a ! p) = REPLACE \<longleftrightarrow> holds_key a k p"
proof (cases "occupied (a ! p)")
  case True
  then have "n_key_len (a ! p) = length (n_key (a ! p))" "n_hash (a ! p) = hm (n_key (a ! p))"
    using assms by (auto simp: keys_ok_def)
  then show ?thesis using True assms(2) same_key [of "a ! p" k]
    by (auto simp: probe_node_def holds_key_def occupied_def)
next
  case False
  then show ?thesis
    by (cases "n_status (a ! p)") (auto simp: probe_node_def holds_key_def occupied_def)
qed

lemma probe2_FOUND:
  assumes "keys_ok hm a" and "p < length a"
  shows "probe2_node k (hm k) (a ! p) = FOUND_KEY \<longleftrightarrow> holds_key a k p"
proof (cases "occupied (a ! p)")
  case True
  then have "n_key_len (a ! p) = length (n_key (a ! p))" "n_hash (a ! p) = hm (n_key (a ! p))"
    using assms by (auto simp: keys_ok_def)
  then show ?thesis using True assms(2) same_key [of "a ! p" k]
    by (auto simp: probe2_node_def holds_key_def occupied_def)
next
  case False
  then show ?thesis
    by (cases "n_status (a ! p)") (auto simp: probe2_node_def holds_key_def occupied_def)
qed

lemma probe_HAS_NEXT_CONTINUE:
  "probe_node k hv (a ! p) = HAS_NEXT \<Longrightarrow> probe2_node k hv (a ! p) = CONTINUE"
  by (auto simp: probe_node_def probe2_node_def split: if_splits)

text \<open>A stored key is on the probe sequence of its home position, after used slots only.\<close>

lemma holds_key_chain:
  assumes "chains_ok a" and "keys_ok hm a" and "holds_key a k q"
  obtains pre post where "chain (length a) (hm k) = pre @ q # post"
    "\<forall>r\<in>set pre. used_for a (hm k) r"
proof -
  have "q < length a" "n_status (a ! q) \<noteq> NODE_EMPTY" "n_hash (a ! q) = hm k"
    using assms(2,3) by (auto simp: holds_key_def keys_ok_def occupied_def)
  then show ?thesis using assms(1) that by (auto simp: chains_ok_def chain_ok_def Let_def)
qed

lemma get_scan:
  assumes "chains_ok a" and "keys_ok hm a" and "0 < length a" and "hm k < length a"
  shows "case scan2 a k (hm k) (chain (length a) (hm k)) of
      None \<Rightarrow> \<forall>p. \<not> holds_key a k p | Some p \<Rightarrow> holds_key a k p"
proof (cases "scan2 a k (hm k) (chain (length a) (hm k))")
  case None
  have "\<not> holds_key a k q" for q
  proof
    assume q: "holds_key a k q"
    obtain pre post where c: "chain (length a) (hm k) = pre @ q # post"
      "\<forall>r\<in>set pre. used_for a (hm k) r"
      using holds_key_chain [OF assms(1,2) q] by blast
    have "probe2_node k (hm k) (a ! q) = FOUND_KEY"
      using probe2_FOUND [OF assms(2)] q by (simp add: holds_key_def)
    then show False
      using scan2_reaches [of pre k "hm k" a q post] c None by (simp add: probe2_STOP)
  qed
  then show ?thesis using None by simp
next
  case (Some p)
  then have "p \<in> set (chain (length a) (hm k))" "probe2_node k (hm k) (a ! p) = FOUND_KEY"
    using scan2_Some by blast+
  moreover from this have "p < length a" using chain_less assms(3,4) by blast
  ultimately show ?thesis using Some probe2_FOUND [OF assms(2)] by simp
qed

section \<open>Writing one node\<close>

lemma used_for_update:
  assumes "used_for a h q" and "p < length a" and "n_status nd \<noteq> NODE_EMPTY"
    and "n_status (a ! p) = NODE_EMPTY \<or> n_hash nd = n_hash (a ! p)"
  shows "used_for (a[p := nd]) h q"
  using assms by (cases "q = p") (auto simp: used_for_def)

lemma chains_ok_update:
  assumes ok: "chains_ok a" and p: "p < length a" and st: "n_status nd \<noteq> NODE_EMPTY"
    and keep: "n_status (a ! p) = NODE_EMPTY \<or> n_hash nd = n_hash (a ! p)"
    and lt: "n_hash nd < length a"
    and own: "chain (length a) (n_hash nd) = pre @ p # post" "\<forall>q\<in>set pre. used_for a (n_hash nd) q"
  shows "chains_ok (a[p := nd])"
  unfolding chains_ok_def
proof (intro allI impI)
  fix r assume r: "r < length (a[p := nd])" "n_status (a[p := nd] ! r) \<noteq> NODE_EMPTY"
  note upd = used_for_update [OF _ p st keep]
  show "chain_ok (a[p := nd]) r"
  proof (cases "r = p")
    case True
    then show ?thesis using p lt own upd by (auto simp: chain_ok_def)
  next
    case False
    then have "chain_ok a r" using ok r by (simp add: chains_ok_def)
    then obtain pre' post' where "n_hash (a ! r) < length a"
      "chain (length a) (n_hash (a ! r)) = pre' @ r # post'"
      "\<forall>q\<in>set pre'. used_for a (n_hash (a ! r)) q"
      by (auto simp: chain_ok_def Let_def)
    then show ?thesis using False upd by (auto simp: chain_ok_def)
  qed
qed

lemma holds_key_update:
  "p < length a \<Longrightarrow> holds_key (a[p := nd]) k q \<longleftrightarrow>
     (if q = p then occupied nd \<and> n_key nd = k else holds_key a k q)"
  by (auto simp: holds_key_def)

lemma occ_set_update:
  "p < length a \<Longrightarrow> occ_set (a[p := nd]) =
     (if occupied nd then insert p (occ_set a) else occ_set a - {p})"
  by (auto simp: occ_set_def nth_list_update)

lemma finite_occ_set: "finite (occ_set a)"
  by (simp add: occ_set_def)

lemma filled_simps [simp]:
  "n_key (filled nd k v h) = k" "n_value (filled nd k v h) = v" "n_hash (filled nd k v h) = h"
  "n_status (filled nd k v h) = NODE_OCCUPIED" "n_key_len (filled nd k v h) = length k"
  "occupied (filled nd k v h)"
  by (simp_all add: filled_def occupied_def)

lemma node_delete_simps [simp]:
  "n_status (node_delete nd) = NODE_DELETED" "n_hash (node_delete nd) = n_hash nd"
  "\<not> occupied (node_delete nd)"
  by (simp_all add: node_delete_def occupied_def)

text \<open>A scan that ends at an empty slot, at a foreign one or at the end has missed no key.\<close>

lemma scan_absent:
  assumes "chains_ok a" and "keys_ok hm a"
    and c: "chain (length a) (hm k) = pre @ p # post"
      "\<forall>q\<in>set pre. probe_node k (hm k) (a ! q) = HAS_NEXT"
    and p: "\<not> used_for a (hm k) p"
  shows "\<not> holds_key a k q"
proof
  assume q: "holds_key a k q"
  then have rep: "probe_node k (hm k) (a ! q) = REPLACE"
    using probe_REPLACE [OF assms(2)] by (simp add: holds_key_def)
  obtain pre' post' where c': "chain (length a) (hm k) = pre' @ q # post'"
    "\<forall>r\<in>set pre'. used_for a (hm k) r"
    using holds_key_chain [OF assms(1,2) q] by blast
  have "used_for a (hm k) q"
    using q assms(2) by (auto simp: used_for_def holds_key_def occupied_def keys_ok_def)
  then have "q \<noteq> p" using p by blast
  moreover have "q \<notin> set pre" using c(2) rep by auto
  ultimately have "p \<in> set pre'"
    using split_before [of pre p post pre' q post'] c(1) c'(1) by simp
  then show False using c'(2) p by blast
qed

lemma scan_None_absent:
  assumes "chains_ok a" and "keys_ok hm a" and none: "scan a k (hm k) (chain (length a) (hm k)) = None"
  shows "\<not> holds_key a k q"
proof
  assume q: "holds_key a k q"
  then have "probe_node k (hm k) (a ! q) = REPLACE"
    using probe_REPLACE [OF assms(2)] by (simp add: holds_key_def)
  moreover have "q \<in> set (chain (length a) (hm k))"
    using holds_key_chain [OF assms(1,2) q] by (metis in_set_conv_decomp)
  ultimately obtain pre p post where "chain (length a) (hm k) = pre @ p # post"
    "\<forall>q\<in>set pre. probe_node k (hm k) (a ! q) = HAS_NEXT" "probe_node k (hm k) (a ! p) = NEED_RESIZE"
    using scan_None [OF none, of q] by auto
  then show False
    using scan_absent [OF assms(1,2), of k pre p post q] q by (auto simp: probe_RESIZE used_for_def)
qed

text \<open>The write of \<open>Hashmap_set\<close> at the slot its scan found.\<close>

lemma scan_hit:
  assumes ok: "chains_ok a" "keys_ok hm a" and lt: "hm k < length a"
    and hit: "scan a k (hm k) (chain (length a) (hm k)) = Some (flg, p)"
  obtains pre post where "p < length a" "chain (length a) (hm k) = pre @ p # post"
    "\<forall>q\<in>set pre. probe_node k (hm k) (a ! q) = HAS_NEXT" "p \<notin> set pre"
    "flg = REPLACE \<longleftrightarrow> holds_key a k p" "flg = FOUND \<longleftrightarrow> \<not> occupied (a ! p)"
    "n_status (a ! p) = NODE_EMPTY \<or> n_hash (a ! p) = hm k"
proof -
  obtain pre post where c: "chain (length a) (hm k) = pre @ p # post"
    "\<forall>q\<in>set pre. probe_node k (hm k) (a ! q) = HAS_NEXT"
    "probe_node k (hm k) (a ! p) = flg" "flg = FOUND \<or> flg = REPLACE"
    using scan_Some [OF hit] by blast
  have p: "p < length a"
    using chain_less [OF _ lt, of p] c(1) lt by force
  have "p \<notin> set pre" using c(2,3,4) by auto
  moreover have rep: "flg = REPLACE \<longleftrightarrow> holds_key a k p"
    unfolding c(3) [symmetric] by (rule probe_REPLACE [OF ok(2) p])
  moreover have "flg = FOUND \<longleftrightarrow> \<not> occupied (a ! p)"
    using rep c(3,4) probe_FOUND [of k "hm k" a p] by (auto simp: holds_key_def occupied_def)
  moreover have "n_status (a ! p) = NODE_EMPTY \<or> n_hash (a ! p) = hm k"
    using c(3,4) probe_FOUND [of k "hm k" a p] rep ok(2)
    by (auto simp: holds_key_def occupied_def keys_ok_def)
  ultimately show ?thesis using that p c(1,2) by blast
qed

lemma set_hit_inv:
  fixes v :: ptr
  assumes ok: "chains_ok a" "keys_ok hm a" and lt: "hm k < length a"
    and hit: "scan a k (hm k) (chain (length a) (hm k)) = Some (flg, p)"
  defines "b \<equiv> a[p := filled (a ! p) k v (hm k)]"
  shows "chains_ok b" "keys_ok hm b" "p < length a"
    "card (occ_set b) = (if flg = FOUND then Suc (card (occ_set a)) else card (occ_set a))"
    "scan2 b k (hm k) (chain (length a) (hm k)) = Some p" "n_value (b ! p) = v"
proof -
  obtain pre post where c: "p < length a" "chain (length a) (hm k) = pre @ p # post"
    "\<forall>q\<in>set pre. probe_node k (hm k) (a ! q) = HAS_NEXT" "p \<notin> set pre"
    "flg = FOUND \<longleftrightarrow> \<not> occupied (a ! p)" "n_status (a ! p) = NODE_EMPTY \<or> n_hash (a ! p) = hm k"
    by (rule scan_hit [OF ok lt hit]) blast
  show "p < length a" by (fact c(1))
  show "chains_ok b"
    unfolding b_def using c lt ok(1)
    by (intro chains_ok_update [where pre = pre and post = post])
      (auto dest: probe_HAS_NEXT_used)
  show "keys_ok hm b"
    using ok(2) c(1) by (auto simp: keys_ok_def b_def nth_list_update)
  show "card (occ_set b) = (if flg = FOUND then Suc (card (occ_set a)) else card (occ_set a))"
    using c(1,5) finite_occ_set [of a]
    by (auto simp: b_def occ_set_update insert_absorb) (auto simp: occ_set_def insert_absorb)
  have "b ! q = a ! q" if "q \<in> set pre" for q
    using that c(4) by (cases "q = p") (auto simp: b_def)
  then have "\<forall>q\<in>set pre. probe2_node k (hm k) (b ! q) = CONTINUE"
    using c(3) by (metis probe_HAS_NEXT_CONTINUE)
  moreover have "probe2_node k (hm k) (b ! p) = FOUND_KEY"
    using c(1) by (simp add: b_def probe2_node_def memcmp_eq_def)
  ultimately show "scan2 b k (hm k) (chain (length a) (hm k)) = Some p"
    by (simp add: c(2) scan2_append)
  show "n_value (b ! p) = v" using c(1) by (simp add: b_def)
qed

text \<open>When the key is new, or no slot is a tombstone, the write updates the dictionary.\<close>

lemma set_hit_dict:
  fixes v :: ptr
  assumes ok: "chains_ok a" "keys_ok hm a" and lt: "hm k < length a"
    and hit: "scan a k (hm k) (chain (length a) (hm k)) = Some (flg, p)"
    and uniq: "keys_unique a" and clean: "cells_dict a k = None \<or> no_tombs a"
  defines "b \<equiv> a[p := filled (a ! p) k v (hm k)]"
  shows "keys_unique b" "cells_dict b = (cells_dict a)(k \<mapsto> v)" "no_tombs a \<Longrightarrow> no_tombs b"
proof -
  obtain pre post where c: "p < length a" "chain (length a) (hm k) = pre @ p # post"
    "\<forall>q\<in>set pre. probe_node k (hm k) (a ! q) = HAS_NEXT"
    "flg = REPLACE \<longleftrightarrow> holds_key a k p" "flg = FOUND \<longleftrightarrow> \<not> occupied (a ! p)"
    by (rule scan_hit [OF ok lt hit]) blast
  have only: "q = p" if q: "holds_key a k q" for q
  proof (cases "occupied (a ! p)")
    case True
    then have "holds_key a k p" using c(4,5) scan_Some [OF hit] by auto
    then show ?thesis using q uniq by (auto simp: keys_unique_def)
  next
    case False
    have "no_tombs a" using clean q cells_dict_None [of a k] by auto
    then have "n_status (a ! p) = NODE_EMPTY"
      using False c(1) by (cases "n_status (a ! p)") (auto simp: no_tombs_def occupied_def)
    then have "\<not> holds_key a k q"
      using scan_absent [OF ok c(2,3)] by (simp add: used_for_def)
    then show ?thesis using q by blast
  qed
  have hb: "holds_key b k' q \<longleftrightarrow> (if k' = k then q = p else holds_key a k' q \<and> q \<noteq> p)" for k' q
    using c(1) only [of q] by (auto simp: b_def holds_key_update)
  show ub: "keys_unique b"
    using uniq by (auto simp: keys_unique_def hb split: if_splits)
  have bv: "n_value (b ! q) = (if q = p then v else n_value (a ! q))" for q
    using c(1) by (simp add: b_def nth_list_update)
  have stay: "q \<noteq> p" if "holds_key a k' q" "k' \<noteq> k" for k' q
    using that c(4,5) scan_Some [OF hit] by (auto simp: holds_key_def)
  show "cells_dict b = (cells_dict a)(k \<mapsto> v)"
  proof (rule map_eqI)
    fix k' w
    show "cells_dict b k' = Some w \<longleftrightarrow> ((cells_dict a)(k \<mapsto> v)) k' = Some w"
      using stay by (auto simp: cells_dict_Some [OF ub] cells_dict_Some [OF uniq] hb bv)
  qed
  show "no_tombs b" if "no_tombs a"
    using that by (auto simp: no_tombs_def b_def dest!: set_update_subset_insert [THEN subsetD])
qed

text \<open>The write of \<open>Hashmap_delete\<close>.\<close>

lemma delete_hit:
  assumes ok: "chains_ok a" "keys_ok hm a" and p: "holds_key a k p"
  defines "b \<equiv> a[p := node_delete (a ! p)]"
  shows "chains_ok b" "keys_ok hm b" "card (occ_set b) = card (occ_set a) - 1"
    "keys_unique a \<Longrightarrow> keys_unique b \<and> cells_dict b = (cells_dict a)(k := None)"
proof -
  have lt: "p < length a" "occupied (a ! p)" using p by (auto simp: holds_key_def)
  then have "chain_ok a p" using ok(1) by (auto simp: chains_ok_def occupied_def)
  then obtain pre post where "n_hash (a ! p) < length a"
    "chain (length a) (n_hash (a ! p)) = pre @ p # post"
    "\<forall>q\<in>set pre. used_for a (n_hash (a ! p)) q"
    by (auto simp: chain_ok_def Let_def)
  then show "chains_ok b"
    unfolding b_def using lt ok(1)
    by (intro chains_ok_update [where pre = pre and post = post]) auto
  show "keys_ok hm b"
    using ok(2) lt by (auto simp: keys_ok_def b_def nth_list_update split: if_splits)
  show "card (occ_set b) = card (occ_set a) - 1"
    using lt finite_occ_set [of a] by (simp add: b_def occ_set_update) (simp add: occ_set_def)
  have hb: "holds_key b k' q \<longleftrightarrow> holds_key a k' q \<and> q \<noteq> p" for k' q
    using lt by (auto simp: b_def holds_key_update)
  have bv: "q \<noteq> p \<Longrightarrow> n_value (b ! q) = n_value (a ! q)" for q
    by (simp add: b_def)
  assume uniq: "keys_unique a"
  then have ub: "keys_unique b" unfolding keys_unique_def hb by blast
  have "cells_dict b = (cells_dict a)(k := None)"
  proof (rule map_eqI)
    fix k' w
    have "holds_key a k' q \<Longrightarrow> q = p \<longleftrightarrow> k' = k" for q
      using p uniq by (auto simp: keys_unique_def holds_key_def)
    then show "cells_dict b k' = Some w \<longleftrightarrow> ((cells_dict a)(k := None)) k' = Some w"
      using bv by (auto simp: cells_dict_Some [OF ub] cells_dict_Some [OF uniq] hb)
  qed
  with ub show "keys_unique b \<and> cells_dict b = (cells_dict a)(k := None)" by blast
qed

end
