(* ===== verification/HashMapSpec.thy ===== *)
theory HashMapSpec
  imports HashMapInv
begin

text \<open>
  The operations of the hash map against the dictionary it stands for: lookup, deletion,
  insertion with the resizes it causes, when insertion returns, and when it cannot.
\<close>

section \<open>Lookup and deletion\<close>

lemma hm_inv_cells:
  assumes "hm_inv m"
  shows "chains_ok (hm_cells m)" "keys_ok (home m) (hm_cells m)" "length (hm_cells m) = hm_cap m"
    "home m k < length (hm_cells m)" "0 < length (hm_cells m)" "hm_arr m = Some (hm_cells m)"
    "hm_size m = card (occ_set (hm_cells m))"
  using assms home_less [OF assms, of k] by (auto simp: hm_inv_def)

lemma hm_get_scan:
  assumes "hm_inv m"
  shows "Hashmap_get m k = Inr (case scan2 (hm_cells m) k (home m k) (chain (hm_cap m) (home m k)) of
     None \<Rightarrow> NULL | Some p \<Rightarrow> n_value (hm_cells m ! p))"
proof -
  note c = hm_inv_cells [OF assms]
  show ?thesis
    using get_scan [OF c(1,2,5,4), of k] c(3) node_at_inv [OF assms]
    by (auto simp: Hashmap_get_def get_pos_scan [OF assms] holds_key_def split: option.split)
qed

lemma hm_get_dict:
  assumes "hm_good m"
  shows "Hashmap_get m k = Inr (case hm_dict m k of None \<Rightarrow> NULL | Some v \<Rightarrow> v)"
proof -
  have inv: "hm_inv m" and uniq: "keys_unique (hm_cells m)" using assms by (auto simp: hm_good_def)
  note c = hm_inv_cells [OF inv]
  show ?thesis
  proof (cases "scan2 (hm_cells m) k (home m k) (chain (hm_cap m) (home m k))")
    case None
    then have "hm_dict m k = None"
      using get_scan [OF c(1,2,5,4), of k] by (simp add: c(3) hm_dict_def cells_dict_None)
    then show ?thesis by (simp add: hm_get_scan [OF inv] None)
  next
    case (Some p)
    then have "hm_dict m k = Some (n_value (hm_cells m ! p))"
      using get_scan [OF c(1,2,5,4), of k] by (auto simp: c(3) hm_dict_def cells_dict_Some [OF uniq])
    then show ?thesis by (simp add: hm_get_scan [OF inv] Some)
  qed
qed

lemma home_update [simp]:
  "home (m\<lparr>hm_arr := x\<rparr>) = home m" "home (m\<lparr>hm_size := n\<rparr>) = home m"
  by (simp_all add: home_def fun_eq_iff)

lemma hm_cells_update [simp]: "hm_cells (m\<lparr>hm_arr := Some a, hm_size := n\<rparr>) = a"
  "hm_cells (m\<lparr>hm_size := n, hm_arr := Some a\<rparr>) = a"
  by (simp_all add: hm_cells_def)

lemma hm_delete_hit:
  assumes inv: "hm_inv m" and p: "holds_key (hm_cells m) k p"
    and m': "m' = m\<lparr>hm_size := hm_size m - 1,
      hm_arr := Some ((hm_cells m)[p := node_delete (hm_cells m ! p)])\<rparr>"
  shows "hm_inv m'" "keys_unique (hm_cells m) \<Longrightarrow> hm_good m' \<and> hm_dict m' = (hm_dict m)(k := None)"
proof -
  note c = hm_inv_cells [OF inv]
  note d = delete_hit [OF c(1,2) p]
  show i: "hm_inv m'"
    using inv d(1-3) unfolding m' hm_inv_def by (simp add: c)
  show "keys_unique (hm_cells m) \<Longrightarrow> hm_good m' \<and> hm_dict m' = (hm_dict m)(k := None)"
    using i d(4) unfolding m' hm_good_def hm_dict_def by simp
qed

lemma hm_delete_spec:
  assumes good: "hm_good m"
  shows "\<exists>m'. Hashmap_delete m k = Inr (case hm_dict m k of None \<Rightarrow> NULL | Some v \<Rightarrow> v, m') \<and>
    hm_good m' \<and> hm_dict m' = (hm_dict m)(k := None)"
proof -
  have inv: "hm_inv m" and uniq: "keys_unique (hm_cells m)" using good by (auto simp: hm_good_def)
  note c = hm_inv_cells [OF inv]
  note s = get_scan [OF c(1,2,5,4), of k, unfolded c(3)]
  show ?thesis
  proof (cases "scan2 (hm_cells m) k (home m k) (chain (hm_cap m) (home m k))")
    case None
    then have "hm_dict m k = None" using s by (simp add: hm_dict_def cells_dict_None)
    then show ?thesis
      using good None by (simp add: Hashmap_delete_def get_pos_scan [OF inv])
        (metis fun_upd_idem)
  next
    case (Some p)
    then have p: "holds_key (hm_cells m) k p" using s by simp
    have "hm_dict m k = Some (n_value (hm_cells m ! p))"
      using p by (auto simp: hm_dict_def cells_dict_Some [OF uniq])
    moreover have "p < hm_cap m" using p c(3) by (simp add: holds_key_def)
    ultimately show ?thesis
      using Some hm_delete_hit [OF inv p refl] uniq
      by (simp add: Hashmap_delete_def get_pos_scan [OF inv] node_at_inv [OF inv] c(6))
  qed
qed

section \<open>Insertion without a resize\<close>

lemma hm_store:
  assumes inv: "hm_inv m"
    and hit: "scan (hm_cells m) k (home m k) (chain (hm_cap m) (home m k)) = Some (flg, p)"
    and mem: "alloc (length k)"
  shows "\<exists>m'. store_at alloc m flg p k v (home m k) = Inr m' \<and> hm_inv m' \<and> Hashmap_get m' k = Inr v \<and>
    hm_cap m' = hm_cap m \<and> hm_hash m' = hm_hash m \<and>
    (keys_unique (hm_cells m) \<longrightarrow> hm_dict m k = None \<or> no_tombs (hm_cells m) \<longrightarrow>
       hm_good m' \<and> hm_dict m' = (hm_dict m)(k \<mapsto> v)) \<and>
    (keys_unique (hm_cells m) \<longrightarrow> no_tombs (hm_cells m) \<longrightarrow> no_tombs (hm_cells m'))"
proof -
  note c = hm_inv_cells [OF inv]
  let ?b = "(hm_cells m)[p := filled (hm_cells m ! p) k v (home m k)]"
  let ?m = "m\<lparr>hm_arr := Some ?b, hm_size := (if flg = FOUND then Suc (hm_size m) else hm_size m)\<rparr>"
  have hit': "scan (hm_cells m) k (home m k) (chain (length (hm_cells m)) (home m k)) = Some (flg, p)"
    using hit c(3) by simp
  note h = set_hit_inv [OF c(1,2,4) hit', unfolded c(3)]
  note d = set_hit_dict [OF c(1,2,4) hit', unfolded c(3)]
  have st: "store_at alloc m flg p k v (home m k) = Inr ?m"
    using node_at_inv [OF inv] h(3) mem by (simp add: store_at_def node_set_def c(6))
  have i: "hm_inv ?m"
    using inv h(1,2,4) c(7) by (simp add: hm_inv_def)
  have "Hashmap_get ?m k = Inr v"
    using hm_get_scan [OF i, of k] h(5,6) by simp
  then show ?thesis
    using st i d by (intro exI [of _ ?m]) (simp add: hm_good_def hm_dict_def)
qed

lemma store_at_mem: "store_at alloc m flg p k v h = Inr m' \<Longrightarrow> alloc (length k)"
  by (auto simp: store_at_def node_set_def andthen_eq_Inr_iff split: if_splits)

lemma hm_store_null:
  assumes inv: "hm_inv m"
    and hit: "scan (hm_cells m) k (home m k) (chain (hm_cap m) (home m k)) = Some (flg, p)"
    and "\<not> alloc (length k)"
  shows "store_at alloc m flg p k v (home m k) = Inl NullDeref"
proof -
  note c = hm_inv_cells [OF inv]
  have hit': "scan (hm_cells m) k (home m k) (chain (length (hm_cells m)) (home m k)) = Some (flg, p)"
    using hit c(3) by simp
  show ?thesis
    using node_at_inv [OF inv] set_hit_inv(3) [OF c(1,2,4) hit', unfolded c(3)] assms(3)
    by (simp add: store_at_def node_set_def)
qed

section \<open>Insertion with resizes\<close>

lemma hm_empty_good:
  assumes "\<exists>j\<ge>3. cap = 2 ^ j" and "cap * sizeof_node < 2 ^ 64"
    and "hm_arr m = Some (replicate cap zero_node)" and "hm_cap m = cap" and "hm_size m = 0"
  shows "hm_good m" "no_tombs (hm_cells m)" "hm_dict m = Map.empty"
proof -
  have cells: "hm_cells m = replicate cap zero_node" using assms(3) by (simp add: hm_cells_def)
  have nd: "p < cap \<Longrightarrow> hm_cells m ! p = zero_node" for p by (simp add: cells)
  have z: "n_status zero_node = NODE_EMPTY" "\<not> occupied zero_node"
    by (simp_all add: zero_node_def occupied_def)
  have "occ_set (hm_cells m) = {}" using nd z by (auto simp: occ_set_def cells)
  moreover have "\<not> holds_key (hm_cells m) k p" for k p using nd z by (auto simp: holds_key_def cells)
  ultimately show "hm_good m" "no_tombs (hm_cells m)" "hm_dict m = Map.empty"
    using assms nd z
    by (auto simp: hm_good_def hm_inv_def chains_ok_def keys_ok_def keys_unique_def no_tombs_def
        hm_dict_def cells_dict_None fun_eq_iff cells)
qed

definition pairs :: "map_node list \<Rightarrow> (bytes \<times> ptr) list" where
  "pairs a = map (\<lambda>nd. (n_key nd, n_value nd)) (filter occupied a)"

lemma in_pairs: "(k, v) \<in> set (pairs a) \<longleftrightarrow> (\<exists>p. holds_key a k p \<and> n_value (a ! p) = v)"
  by (fastforce simp: pairs_def holds_key_def in_set_conv_nth)

lemma map_of_pairs:
  assumes "keys_unique a"
  shows "map_of (rev (pairs a)) = cells_dict a"
proof (rule map_eqI)
  fix k v
  show "map_of (rev (pairs a)) k = Some v \<longleftrightarrow> cells_dict a k = Some v"
  proof
    assume "map_of (rev (pairs a)) k = Some v"
    then have "(k, v) \<in> set (pairs a)" by (metis map_of_SomeD set_rev)
    then show "cells_dict a k = Some v" by (simp add: cells_dict_Some [OF assms] in_pairs)
  next
    assume "cells_dict a k = Some v"
    then have kv: "(k, v) \<in> set (pairs a)" by (simp add: cells_dict_Some [OF assms] in_pairs)
    then obtain w where w: "map_of (rev (pairs a)) k = Some w"
      by (metis map_of_eq_None_iff not_None_eq image_eqI fst_conv set_rev set_map)
    then have "(k, w) \<in> set (pairs a)" by (metis map_of_SomeD set_rev)
    then show "map_of (rev (pairs a)) k = Some v"
      using w kv assms by (auto simp: in_pairs keys_unique_def)
  qed
qed

text \<open>What an insertion promises, and re-insertion by an operation that keeps this promise.\<close>

definition set_post :: "hashmap \<Rightarrow> bytes \<Rightarrow> ptr \<Rightarrow> hashmap \<Rightarrow> bool" where
  "set_post m k v m' \<longleftrightarrow> hm_good m' \<and> hm_dict m' = (hm_dict m)(k \<mapsto> v) \<and>
     (no_tombs (hm_cells m) \<longrightarrow> no_tombs (hm_cells m')) \<and> hm_hash m' = hm_hash m \<and>
     hm_cap m \<le> hm_cap m'"

definition clean_for :: "hashmap \<Rightarrow> bytes \<Rightarrow> bool" where
  "clean_for m k \<longleftrightarrow> hm_dict m k = None \<or> no_tombs (hm_cells m)"

lemma reinsert_dict:
  assumes setter: "\<And>m k v m'. hm_good m \<Longrightarrow> clean_for m k \<Longrightarrow> setter m k v = Some (Inr m') \<Longrightarrow>
      set_post m k v m'"
    and "hm_good m" "no_tombs (hm_cells m)"
    and "\<And>nd. nd \<in> set nds \<Longrightarrow> occupied nd \<Longrightarrow> n_key_len nd = length (n_key nd)"
    and "reinsert setter m nds = Some (Inr m')"
  shows "hm_good m' \<and> no_tombs (hm_cells m') \<and> hm_dict m' = hm_dict m ++ map_of (rev (pairs nds)) \<and>
    hm_hash m' = hm_hash m \<and> hm_cap m \<le> hm_cap m'"
  using assms(2-5)
proof (induction nds arbitrary: m)
  case Nil
  then show ?case by (simp add: pairs_def)
next
  case (Cons nd nds)
  show ?case
  proof (cases "occupied nd")
    case False
    then show ?thesis using Cons by (auto simp: pairs_def occupied_def)
  next
    case True
    then obtain m1 where m1: "setter m (n_key nd) (n_value nd) = Some (Inr m1)"
      "reinsert setter m1 nds = Some (Inr m')"
      using Cons.prems(3,4) by (auto simp: occupied_def split: option.splits sum.splits)
    have post: "set_post m (n_key nd) (n_value nd) m1"
      using Cons.prems(1,2) m1(1) by (intro setter) (simp_all add: clean_for_def)
    have "hm_good m' \<and> no_tombs (hm_cells m') \<and> hm_dict m' = hm_dict m1 ++ map_of (rev (pairs nds)) \<and>
        hm_hash m' = hm_hash m1 \<and> hm_cap m1 \<le> hm_cap m'"
      using post Cons.prems(2,3) m1(2) by (intro Cons.IH) (auto simp: set_post_def)
    then show ?thesis
      using post True by (auto simp: set_post_def pairs_def)
  qed
qed

text \<open>On a map whose array is \<open>NULL\<close> every operation stops at the first access.\<close>

lemma hm_set_null:
  "hm_arr m = None \<Longrightarrow> Hashmap_set (Suc f) alloc m k v = Some (Inl NullDeref)"
  by (simp add: set_pos_def probing_def node_at_def Let_def)

lemma reinsert_null:
  "hm_arr m = None \<Longrightarrow>
   reinsert (Hashmap_set (Suc f) alloc) m nds \<in> {Some (Inl NullDeref), Some (Inr m)}"
  by (induction nds) (auto simp: hm_set_null simp del: Hashmap_set.simps)

lemma hm_set_resize_null:
  assumes "hm_inv m" and "scan (hm_cells m) k (home m k) (chain (hm_cap m) (home m k)) = None"
    and "calloc_nodes alloc (2 * hm_cap m) = None"
  shows "Hashmap_set (Suc f) alloc m k v \<in> {None, Some (Inl NullDeref)}"
    "Hashmap_set (Suc (Suc f)) alloc m k v = Some (Inl NullDeref)"
proof -
  let ?m = "m\<lparr>hm_cap := 2 * hm_cap m, hm_arr := None, hm_size := 0\<rparr>"
  have eq: "Hashmap_set (Suc g) alloc m k v =
      (case reinsert (Hashmap_set g alloc) ?m (hm_cells m) of None \<Rightarrow> None
        | Some (Inl e) \<Rightarrow> Some (Inl e) | Some (Inr m') \<Rightarrow> Hashmap_set g alloc m' k v)" for g
    using assms by (simp add: set_pos_scan Let_def hm_cells_def)
  show two: "Hashmap_set (Suc (Suc f)) alloc m k v = Some (Inl NullDeref)" for f
    unfolding eq [of "Suc f"] using reinsert_null [of ?m f alloc "hm_cells m"] hm_set_null [of ?m]
    by (auto simp del: Hashmap_set.simps)
  show "Hashmap_set (Suc f) alloc m k v \<in> {None, Some (Inl NullDeref)}"
  proof (cases f)
    case 0
    have "reinsert (Hashmap_set 0 alloc) ?m nds \<in> {None, Some (Inr ?m)}" for nds
      by (induction nds) auto
    from this [of "hm_cells m"] show ?thesis unfolding 0 eq [of 0] by auto
  qed (use two in simp)
qed

text \<open>The new array of a resize.\<close>

definition resized :: "hashmap \<Rightarrow> hashmap" where
  "resized m = m\<lparr>hm_cap := 2 * hm_cap m, hm_arr := Some (replicate (2 * hm_cap m) zero_node),
     hm_size := 0\<rparr>"

lemma resized_good:
  assumes "hm_inv m" and "calloc_nodes alloc (2 * hm_cap m) \<noteq> None"
  shows "hm_good (resized m)" "no_tombs (hm_cells (resized m))" "hm_dict (resized m) = Map.empty"
    "hm_cap (resized m) = 2 * hm_cap m" "hm_hash (resized m) = hm_hash m"
proof -
  have "\<exists>j\<ge>3. 2 * hm_cap m = 2 ^ j"
    using assms(1) unfolding hm_inv_def by (metis le_SucI power_Suc)
  moreover have "2 * hm_cap m * sizeof_node < 2 ^ 64"
    using assms(2) by (simp add: calloc_nodes_def split: if_splits)
  ultimately have e: "hm_good (resized m) \<and> no_tombs (hm_cells (resized m)) \<and>
      hm_dict (resized m) = Map.empty"
    using hm_empty_good [of "2 * hm_cap m" "resized m"] by (simp add: resized_def)
  then show "hm_good (resized m)" "no_tombs (hm_cells (resized m))"
    "hm_dict (resized m) = Map.empty" by blast+
qed (simp_all add: resized_def)

lemma hm_set_resize:
  assumes "hm_inv m" and "scan (hm_cells m) k (home m k) (chain (hm_cap m) (home m k)) = None"
    and "calloc_nodes alloc (2 * hm_cap m) \<noteq> None"
  shows "Hashmap_set (Suc f) alloc m k v =
    (case reinsert (Hashmap_set f alloc) (resized m) (hm_cells m) of None \<Rightarrow> None
      | Some (Inl e) \<Rightarrow> Some (Inl e) | Some (Inr m') \<Rightarrow> Hashmap_set f alloc m' k v)"
proof -
  have "calloc_nodes alloc (2 * hm_cap m) = Some (replicate (2 * hm_cap m) zero_node)"
    using assms(3) by (simp add: calloc_nodes_def split: if_splits)
  then show ?thesis
    using assms(1,2) hm_inv_cells(6) [OF assms(1)] by (simp add: set_pos_scan resized_def Let_def)
qed

lemma cells_key_len:
  "hm_inv m \<Longrightarrow> nd \<in> set (hm_cells m) \<Longrightarrow> occupied nd \<Longrightarrow> n_key_len nd = length (n_key nd)"
  using hm_inv_cells(2) [of m] by (auto simp: keys_ok_def in_set_conv_nth)

text \<open>Insertion into a map without duplicates and without a tombstone in the key's way.\<close>

lemma hm_set_post:
  "hm_good m \<Longrightarrow> clean_for m k \<Longrightarrow> Hashmap_set f alloc m k v = Some (Inr m') \<Longrightarrow> set_post m k v m'"
proof (induction f arbitrary: m k v m')
  case (Suc f)
  have inv: "hm_inv m" and uniq: "keys_unique (hm_cells m)"
    using Suc.prems(1) by (auto simp: hm_good_def)
  note c = hm_inv_cells [OF inv]
  show ?case
  proof (cases "scan (hm_cells m) k (home m k) (chain (hm_cap m) (home m k))")
    case (Some hit)
    obtain flg p where hp: "hit = (flg, p)" by (cases hit)
    have "store_at alloc m flg p k v (home m k) = Inr m'"
      using Suc.prems(3) Some hp by (simp add: set_pos_scan [OF inv])
    then show ?thesis
      using hm_store [OF inv, of k flg p alloc v] store_at_mem [of alloc m flg p k v] Some hp uniq Suc.prems(2)
      by (auto simp: set_post_def clean_for_def)
  next
    case None
    have absent: "hm_dict m k = None"
      using scan_None_absent [OF c(1,2), of k] None c(3) by (simp add: hm_dict_def cells_dict_None)
    have mem: "calloc_nodes alloc (2 * hm_cap m) \<noteq> None"
      using hm_set_resize_null(1) [OF inv None, of alloc f v] Suc.prems(3) by auto
    note r = resized_good [OF inv mem]
    obtain m1 where m1: "reinsert (Hashmap_set f alloc) (resized m) (hm_cells m) = Some (Inr m1)"
      "Hashmap_set f alloc m1 k v = Some (Inr m')"
      using Suc.prems(3) unfolding hm_set_resize [OF inv None mem]
      by (auto split: option.splits sum.splits)
    have d1: "hm_good m1 \<and> no_tombs (hm_cells m1) \<and>
        hm_dict m1 = hm_dict (resized m) ++ map_of (rev (pairs (hm_cells m))) \<and>
        hm_hash m1 = hm_hash (resized m) \<and> hm_cap (resized m) \<le> hm_cap m1"
      by (rule reinsert_dict [OF Suc.IH r(1,2) cells_key_len [OF inv] m1(1)])
    then have "hm_dict m1 = hm_dict m"
      using r(3) by (simp add: map_of_pairs [OF uniq] hm_dict_def [of m])
    moreover have "set_post m1 k v m'"
      using d1 m1(2) by (intro Suc.IH) (simp_all add: clean_for_def)
    ultimately show ?thesis using d1 r(4,5) by (simp add: set_post_def)
  qed
qed simp

lemma hm_reinsert_good:
  assumes "hm_inv m" and "calloc_nodes alloc (2 * hm_cap m) \<noteq> None"
    and "reinsert (Hashmap_set f alloc) (resized m) (hm_cells m) = Some (Inr m1)"
  shows "hm_good m1" "no_tombs (hm_cells m1)" "hm_hash m1 = hm_hash m" "2 * hm_cap m \<le> hm_cap m1"
  using reinsert_dict [OF hm_set_post resized_good(1,2) [OF assms(1,2)] cells_key_len [OF assms(1)]
      assms(3)] resized_good(4,5) [OF assms(1,2)] by auto

text \<open>On any map of the invariant: it is kept, and the value just stored is the one found.\<close>

lemma hm_set_inv:
  assumes inv: "hm_inv m" and set: "Hashmap_set f alloc m k v = Some (Inr m')"
  shows "hm_inv m' \<and> Hashmap_get m' k = Inr v \<and> hm_hash m' = hm_hash m \<and> hm_cap m \<le> hm_cap m'"
proof (cases f)
  case 0
  then show ?thesis using set by simp
next
  case (Suc g)
  show ?thesis
  proof (cases "scan (hm_cells m) k (home m k) (chain (hm_cap m) (home m k))")
    case (Some hit)
    obtain flg p where hp: "hit = (flg, p)" by (cases hit)
    have "store_at alloc m flg p k v (home m k) = Inr m'"
      using set Suc Some hp by (simp add: set_pos_scan [OF inv])
    then show ?thesis
      using hm_store [OF inv, of k flg p alloc v] store_at_mem [of alloc m flg p k v] Some hp by auto
  next
    case None
    have mem: "calloc_nodes alloc (2 * hm_cap m) \<noteq> None"
      using hm_set_resize_null(1) [OF inv None, of alloc g v] set Suc by auto
    obtain m1 where m1: "reinsert (Hashmap_set g alloc) (resized m) (hm_cells m) = Some (Inr m1)"
      "Hashmap_set g alloc m1 k v = Some (Inr m')"
      using set unfolding Suc hm_set_resize [OF inv None mem]
      by (auto split: option.splits sum.splits)
    note g = hm_reinsert_good [OF inv mem m1(1)]
    have "set_post m1 k v m'"
      using hm_set_post [OF g(1) _ m1(2)] g(2) by (simp add: clean_for_def)
    then show ?thesis
      using g(3,4) hm_get_dict [of m' k] by (auto simp: set_post_def hm_good_def)
  qed
qed

section \<open>Insertion returns\<close>

text \<open>
  A resize doubles the capacity and \<open>calloc\<close> refuses an array of \<open>2 ^ 64\<close> bytes, so the depth of
  the recursion is bounded: from a capacity of at least eight, 57 levels are enough.
\<close>

lemma reinsert_total:
  assumes step: "\<And>m k v. hm_good m \<Longrightarrow> no_tombs (hm_cells m) \<Longrightarrow> c \<le> hm_cap m \<Longrightarrow>
      Hashmap_set f alloc m k v = Some (Inl NullDeref) \<or>
      (\<exists>m'. Hashmap_set f alloc m k v = Some (Inr m'))"
    and "hm_good m" "no_tombs (hm_cells m)" "c \<le> hm_cap m"
  shows "reinsert (Hashmap_set f alloc) m nds = Some (Inl NullDeref) \<or>
    (\<exists>m'. reinsert (Hashmap_set f alloc) m nds = Some (Inr m'))"
  using assms(2-4)
proof (induction nds arbitrary: m)
  case (Cons nd nds)
  let ?k = "take (n_key_len nd) (n_key nd)"
  consider "Hashmap_set f alloc m ?k (n_value nd) = Some (Inl NullDeref)"
    | m' where "Hashmap_set f alloc m ?k (n_value nd) = Some (Inr m')"
    using step Cons.prems by blast
  then show ?case
  proof cases
    case 2
    then have "set_post m ?k (n_value nd) m'"
      using hm_set_post Cons.prems by (auto simp: clean_for_def)
    then show ?thesis using Cons 2 by (auto simp: set_post_def)
  qed (use Cons in auto)
qed simp

lemma hm_set_total:
  "hm_inv m \<Longrightarrow> 2 ^ 60 \<le> hm_cap m * 2 ^ f \<Longrightarrow>
   Hashmap_set f alloc m k v = Some (Inl NullDeref) \<or> (\<exists>m'. Hashmap_set f alloc m k v = Some (Inr m'))"
proof (induction f arbitrary: m k v)
  case 0
  then show ?case by (simp add: hm_inv_def sizeof_node_def)
next
  case (Suc f)
  note inv = Suc.prems(1)
  show ?case
  proof (cases "scan (hm_cells m) k (home m k) (chain (hm_cap m) (home m k))")
    case (Some hit)
    obtain flg p where "hit = (flg, p)" by (cases hit)
    then show ?thesis
      using Some hm_store [OF inv, of k flg p alloc v] hm_store_null [OF inv, of k flg p alloc v]
      by (cases "alloc (length k)") (auto simp: set_pos_scan [OF inv])
  next
    case None
    show ?thesis
    proof (cases "calloc_nodes alloc (2 * hm_cap m) = None")
      case True
      have "hm_cap m * 40 < 2 ^ 64" using inv by (simp add: hm_inv_def sizeof_node_def)
      then have "f \<noteq> 0" using Suc.prems(2) by (cases f) auto
      then show ?thesis using hm_set_resize_null(2) [OF inv None True] by (cases f) auto
    next
      case False
      have step: "Hashmap_set f alloc m' k' v' = Some (Inl NullDeref) \<or>
          (\<exists>m''. Hashmap_set f alloc m' k' v' = Some (Inr m''))"
        if "hm_good m'" "2 * hm_cap m \<le> hm_cap m'" for m' k' v'
      proof (rule Suc.IH)
        have "2 ^ 60 \<le> 2 * hm_cap m * 2 ^ f" using Suc.prems(2) by simp
        also have "\<dots> \<le> hm_cap m' * 2 ^ f" using that(2) by (rule mult_le_mono1)
        finally show "2 ^ 60 \<le> hm_cap m' * 2 ^ f" .
      qed (use that in \<open>simp add: hm_good_def\<close>)
      note r = resized_good [OF inv False]
      consider "reinsert (Hashmap_set f alloc) (resized m) (hm_cells m) = Some (Inl NullDeref)"
        | m1 where "reinsert (Hashmap_set f alloc) (resized m) (hm_cells m) = Some (Inr m1)"
        using reinsert_total [of "2 * hm_cap m", OF step r(1,2)] r(4) by auto
      then show ?thesis
      proof cases
        case 2
        then show ?thesis
          unfolding hm_set_resize [OF inv None False]
          using step hm_reinsert_good [OF inv False 2] by simp
      qed (simp only: hm_set_resize [OF inv None False] option.simps sum.simps simp_thms)
    qed
  qed
qed

text \<open>More fuel does not change a result.\<close>

lemma reinsert_mono:
  assumes "\<And>m k v r. s m k v = Some r \<Longrightarrow> t m k v = Some r"
  shows "reinsert s m nds = Some r \<Longrightarrow> reinsert t m nds = Some r"
proof (induction nds arbitrary: m)
  case (Cons nd nds)
  show ?case
  proof (cases "n_status nd = NODE_OCCUPIED")
    case True
    then obtain r1 where r1: "s m (take (n_key_len nd) (n_key nd)) (n_value nd) = Some r1"
      using Cons.prems by (auto split: option.splits)
    then show ?thesis using Cons True assms [OF r1] by (cases r1) auto
  qed (use Cons in auto)
qed simp

lemma hm_set_Suc: "Hashmap_set f alloc m k v = Some r \<Longrightarrow> Hashmap_set (Suc f) alloc m k v = Some r"
proof (induction f arbitrary: m k v r)
  case (Suc f)
  let ?m = "m\<lparr>hm_cap := 2 * hm_cap m, hm_arr := calloc_nodes alloc (2 * hm_cap m), hm_size := 0\<rparr>"
  let ?old = "case hm_arr m of None \<Rightarrow> [] | Some a \<Rightarrow> a"
  have eq: "Hashmap_set (Suc g) alloc m k v =
     (case set_pos m k of Inl e \<Rightarrow> Some (Inl e)
      | Inr (Some (flg, t)) \<Rightarrow> Some (store_at alloc m flg t k v (home m k))
      | Inr None \<Rightarrow> (case reinsert (Hashmap_set g alloc) ?m ?old of None \<Rightarrow> None
          | Some (Inl e) \<Rightarrow> Some (Inl e) | Some (Inr m') \<Rightarrow> Hashmap_set g alloc m' k v))" for g
    by (simp only: Hashmap_set.simps Let_def)
  show ?case
  proof (cases "set_pos m k = Inr None")
    case True
    obtain r1 where r1: "reinsert (Hashmap_set f alloc) ?m ?old = Some r1"
      using Suc.prems True unfolding eq [of f] by (auto split: option.splits)
    then have "reinsert (Hashmap_set (Suc f) alloc) ?m ?old = Some r1"
      by (rule reinsert_mono [rotated]) (rule Suc.IH)
    then show ?thesis
      using Suc.prems Suc.IH True r1 unfolding eq [of f] eq [of "Suc f"] by (cases r1) auto
  next
    case False
    then show ?thesis using Suc.prems unfolding eq [of f] eq [of "Suc f"]
      by (auto split: sum.splits option.splits)
  qed
qed simp

lemma hm_set_fuel:
  assumes "Hashmap_set f alloc m k v = Some r" and "f \<le> g"
  shows "Hashmap_set g alloc m k v = Some r"
  using assms(2,1) by (induction rule: dec_induct) (auto intro: hm_set_Suc simp del: Hashmap_set.simps)

end
