(* ===== verification/HashMapProps.thy ===== *)
theory HashMapProps
  imports HashMapSpec
begin

unbundle bit_operations_syntax

text \<open>
  The hash map as a client sees it: the interface of a finite map and its interpretation, when
  an insertion succeeds, the three keys no map can hold, the value that comes back after a
  deletion, and the properties of the development about this component.
\<close>

section \<open>When every key has its own home\<close>

text \<open>
  Keys whose hashes differ modulo \<open>2 ^ K\<close>: an array of that size holds them all at their home
  positions, so resizing stops there at the latest.
\<close>

lemma own_home_hit:
  assumes good: "hm_good m" and clean: "no_tombs (hm_cells m)"
    and inj: "inj_on (home m) D" and dom: "dom (hm_dict m) \<subseteq> D" "k \<in> D"
  shows "scan (hm_cells m) k (home m k) (chain (hm_cap m) (home m k)) \<noteq> None"
proof -
  have inv: "hm_inv m" and uniq: "keys_unique (hm_cells m)" using good by (auto simp: hm_good_def)
  note c = hm_inv_cells [OF inv]
  let ?a = "hm_cells m"
  have stored: "q < hm_cap m \<Longrightarrow> n_status (?a ! q) \<noteq> NODE_EMPTY \<Longrightarrow>
      holds_key ?a (n_key (?a ! q)) q \<and> n_key (?a ! q) \<in> D \<and> n_hash (?a ! q) = home m (n_key (?a ! q))"
    for q
  proof -
    assume q: "q < hm_cap m" "n_status (?a ! q) \<noteq> NODE_EMPTY"
    then have o: "occupied (?a ! q)"
      using clean c(3) by (cases "n_status (?a ! q)") (auto simp: no_tombs_def occupied_def)
    then have h: "holds_key ?a (n_key (?a ! q)) q" using q c(3) by (simp add: holds_key_def)
    then have "hm_dict m (n_key (?a ! q)) \<noteq> None"
      using cells_dict_None [of ?a "n_key (?a ! q)"] by (auto simp: hm_dict_def)
    then show ?thesis using h o q c(2,3) dom(1) by (auto simp: keys_ok_def)
  qed
  have "probe_node k (home m k) (?a ! home m k) \<in> {FOUND, REPLACE}"
  proof (cases "n_status (?a ! home m k) = NODE_EMPTY")
    case True
    then show ?thesis by (simp add: probe_node_def)
  next
    case False
    let ?p = "home m k" let ?h = "n_hash (?a ! ?p)"
    note p = stored [OF home_less [OF inv] False]
    have "chain_ok ?a ?p" using False c by (simp add: chains_ok_def)
    then obtain pre post where ch: "?h < length ?a" "chain (hm_cap m) ?h = pre @ ?p # post"
      "\<forall>q\<in>set pre. used_for ?a ?h q"
      by (auto simp: chain_ok_def Let_def c(3))
    have "?h = ?p"
    proof (rule ccontr)
      assume ne: "?h \<noteq> ?p"
      then obtain pre' where "pre = ?h # pre'" using ch(2) by (cases pre) (auto simp: chain_def)
      then have u: "used_for ?a ?h ?h" using ch(3) by simp
      then have "home m (n_key (?a ! ?h)) = home m (n_key (?a ! ?p))"
        using stored [of ?h] ch(1) c(3) p by (simp add: used_for_def)
      then have "n_key (?a ! ?h) = n_key (?a ! ?p)"
        using inj stored [of ?h] u ch(1) c(3) p by (auto simp: used_for_def inj_on_def)
      then show False
        using uniq stored [of ?h] u ch(1) c(3) p ne by (auto simp: used_for_def keys_unique_def)
    qed
    then have "n_key (?a ! ?p) = k" using inj p dom(2) by (auto simp: inj_on_def)
    then show ?thesis
      using p probe_REPLACE [OF c(2), of ?p k] home_less [OF inv] c(3) by auto
  qed
  then show ?thesis by (auto simp: chain_def)
qed

lemma home_resize: "hm_hash m' = hm_hash m \<Longrightarrow> hm_cap m' = 2 ^ K \<Longrightarrow>
  home m' = (\<lambda>k. unat (hm_hash m k) mod 2 ^ K)"
  by (simp add: home_def fun_eq_iff)

lemma pow_le_imp: "(2::nat) ^ j \<le> 2 ^ K \<Longrightarrow> j \<le> K"
  by simp

lemma reinsert_spread:
  assumes step: "\<And>m k v. hm_good m \<Longrightarrow> no_tombs (hm_cells m) \<Longrightarrow> c \<le> hm_cap m \<Longrightarrow>
      hm_cap m \<le> 2 ^ K \<Longrightarrow> dom (hm_dict m) \<subseteq> D \<Longrightarrow> k \<in> D \<Longrightarrow> hm_hash m = h \<Longrightarrow>
      \<exists>m'. Hashmap_set f alloc m k v = Some (Inr m') \<and> hm_cap m' \<le> 2 ^ K"
    and "hm_good m" "no_tombs (hm_cells m)" "c \<le> hm_cap m" "hm_cap m \<le> 2 ^ K"
    and "dom (hm_dict m) \<subseteq> D" "hm_hash m = h"
    and "\<And>nd. nd \<in> set nds \<Longrightarrow> occupied nd \<Longrightarrow> n_key_len nd = length (n_key nd) \<and> n_key nd \<in> D"
  shows "\<exists>m'. reinsert (Hashmap_set f alloc) m nds = Some (Inr m') \<and> hm_cap m' \<le> 2 ^ K"
  using assms(2-8)
proof (induction nds arbitrary: m)
  case (Cons nd nds)
  show ?case
  proof (cases "occupied nd")
    case False
    then show ?thesis using Cons by (simp add: occupied_def)
  next
    case True
    obtain m1 where m1: "Hashmap_set f alloc m (n_key nd) (n_value nd) = Some (Inr m1)"
      "hm_cap m1 \<le> 2 ^ K"
      using step [of m "n_key nd" "n_value nd"] Cons.prems True by auto
    then have post: "set_post m (n_key nd) (n_value nd) m1"
      using Cons.prems(1,2) hm_set_post by (simp add: clean_for_def)
    then have p: "hm_good m1" "no_tombs (hm_cells m1)" "c \<le> hm_cap m1" "hm_hash m1 = h"
      using Cons.prems(2,3,6) by (simp_all add: set_post_def)
    have "dom (hm_dict m1) = insert (n_key nd) (dom (hm_dict m))"
      using post by (metis set_post_def dom_fun_upd option.distinct(1))
    then have dom: "dom (hm_dict m1) \<subseteq> D" using Cons.prems(5,7) True by simp
    have "\<exists>m'. reinsert (Hashmap_set f alloc) m1 nds = Some (Inr m') \<and> hm_cap m' \<le> 2 ^ K"
      using Cons.prems(7) by (intro Cons.IH [OF p(1-3) m1(2) dom p(4)]) simp
    then show ?thesis using True m1(1) Cons.prems(7) by (simp add: occupied_def)
  qed
qed simp

lemma hm_set_spread:
  assumes K: "3 \<le> K" "K \<le> 58" and mem: "\<And>n. n \<le> 2 ^ K * sizeof_node \<Longrightarrow> alloc n"
    and keys: "\<And>k. k \<in> D \<Longrightarrow> alloc (length k)"
    and inj: "inj_on (\<lambda>k. unat (h k) mod 2 ^ K) D"
  shows "hm_good m \<Longrightarrow> no_tombs (hm_cells m) \<or> j < K \<Longrightarrow> hm_cap m = 2 ^ j \<Longrightarrow> j \<le> K \<Longrightarrow> K < j + f \<Longrightarrow>
    dom (hm_dict m) \<subseteq> D \<Longrightarrow> k \<in> D \<Longrightarrow> hm_hash m = h \<Longrightarrow>
    \<exists>m'. Hashmap_set f alloc m k v = Some (Inr m') \<and> hm_cap m' \<le> 2 ^ K \<and>
      (no_tombs (hm_cells m') \<or> hm_cap m' < 2 ^ K)"
proof (induction f arbitrary: m k v j)
  case (Suc f)
  have inv: "hm_inv m" using Suc.prems(1) by (simp add: hm_good_def)
  note c = hm_inv_cells [OF inv]
  show ?case
  proof (cases "scan (hm_cells m) k (home m k) (chain (hm_cap m) (home m k))")
    case (Some hit)
    obtain flg p where "hit = (flg, p)" by (cases hit)
    then show ?thesis
      using Some hm_store [OF inv, of k flg p alloc v] keys [OF Suc.prems(7)] Suc.prems(1-4)
      by (auto simp: set_pos_scan [OF inv] hm_good_def)
  next
    case None
    have "j \<noteq> K"
      using own_home_hit [OF Suc.prems(1) _ _ Suc.prems(6,7)] None inj Suc.prems(2,3,8)
        home_resize [OF refl, of m K] by auto
    then have j: "Suc j \<le> K" using Suc.prems(4) by simp
    then have le: "2 * hm_cap m \<le> 2 ^ K"
      using Suc.prems(3) by (metis power_Suc power_increasing one_le_numeral)
    have "(2::nat) ^ K \<le> 2 ^ 58" using K(2) by (intro power_increasing) auto
    then have mem': "calloc_nodes alloc (2 * hm_cap m) \<noteq> None"
      using le mem by (simp add: calloc_nodes_def sizeof_node_def)
    note r = resized_good [OF inv mem']
    have step: "\<exists>m''. Hashmap_set f alloc m' k' v' = Some (Inr m'') \<and> hm_cap m'' \<le> 2 ^ K \<and>
        (no_tombs (hm_cells m'') \<or> hm_cap m'' < 2 ^ K)"
      if hyp: "hm_good m'" "no_tombs (hm_cells m')" "2 * hm_cap m \<le> hm_cap m'" "hm_cap m' \<le> 2 ^ K"
        "dom (hm_dict m') \<subseteq> D" "k' \<in> D" "hm_hash m' = h" for m' k' v'
    proof -
      obtain j' where j': "hm_cap m' = 2 ^ j'" using hyp(1) unfolding hm_good_def hm_inv_def by blast
      have "j' \<le> K" using hyp(4) j' by simp
      moreover have "(2::nat) ^ Suc j \<le> 2 ^ j'" using hyp(3) j' Suc.prems(3) by simp
      then have "Suc j \<le> j'" by (rule pow_le_imp)
      ultimately show ?thesis using hyp j' Suc.prems(5) by (intro Suc.IH [of m' j']) auto
    qed
    have step': "\<exists>m''. Hashmap_set f alloc m' k' v' = Some (Inr m'') \<and> hm_cap m'' \<le> 2 ^ K"
      if "hm_good m'" "no_tombs (hm_cells m')" "2 * hm_cap m \<le> hm_cap m'" "hm_cap m' \<le> 2 ^ K"
        "dom (hm_dict m') \<subseteq> D" "k' \<in> D" "hm_hash m' = h" for m' k' v'
      using step [OF that] by blast
    have stored: "n_key_len nd = length (n_key nd) \<and> n_key nd \<in> D"
      if nd: "nd \<in> set (hm_cells m)" "occupied nd" for nd
    proof -
      have "hm_dict m (n_key nd) \<noteq> None"
        using nd by (auto simp: hm_dict_def cells_dict_def find_None_iff)
      then show ?thesis using nd cells_key_len [OF inv] Suc.prems(6) by auto
    qed
    obtain m1 where m1: "reinsert (Hashmap_set f alloc) (resized m) (hm_cells m) = Some (Inr m1)"
      "hm_cap m1 \<le> 2 ^ K"
      using reinsert_spread [OF step' r(1,2) _ _ _ _ stored, where nds = "hm_cells m"] r(3-5) le Suc.prems(8) by auto
    note d = reinsert_dict [OF hm_set_post r(1,2) cells_key_len [OF inv] m1(1)]
    have "dom (hm_dict m1) \<subseteq> D"
      using d r(3) stored by (auto simp: pairs_def dest!: map_of_SomeD)
    then have "\<exists>m'. Hashmap_set f alloc m1 k v = Some (Inr m') \<and> hm_cap m' \<le> 2 ^ K \<and>
        (no_tombs (hm_cells m') \<or> hm_cap m' < 2 ^ K)"
      using d r(4,5) m1(2) Suc.prems(7,8) by (intro step) auto
    then show ?thesis unfolding hm_set_resize [OF inv None mem'] using m1(1) by simp
  qed
qed simp

section \<open>Three keys no map can hold\<close>

text \<open>
  Two keys with hash 0 and one with hash 1: the second slot of the first two is the first slot
  of the third, at every capacity.
\<close>

lemma chain_heads:
  assumes "8 \<le> n"
  shows "\<exists>cs. chain n 0 = 0 # 1 # cs" "\<exists>cs. chain n 1 = 1 # cs"
proof -
  have "[1..<Suc n] = 1 # [2..<Suc n]" using assms by (simp add: upt_conv_Cons numeral_2_eq_2)
  moreover have "ppos 0 n 1 = 1" using assms by (simp add: ppos_def)
  ultimately show "\<exists>cs. chain n 0 = 0 # 1 # cs" "\<exists>cs. chain n 1 = 1 # cs"
    by (simp_all add: chain_def)
qed

lemma no_room_for_three:
  assumes inv: "hm_inv m"
    and k12: "holds_key (hm_cells m) k1 p1" "holds_key (hm_cells m) k2 p2" "k1 \<noteq> k2"
      "hm_hash m k1 = 0" "hm_hash m k2 = 0"
    and k3: "holds_key (hm_cells m) k3 p3" "hm_hash m k3 = 1"
  shows False
proof -
  note c = hm_inv_cells [OF inv]
  obtain j where "3 \<le> j" "hm_cap m = 2 ^ j" using inv by (rule hm_invE) blast
  then have cap: "8 \<le> hm_cap m" using power_increasing [of 3 j "2::nat"] by simp
  have h: "home m k1 = 0" "home m k2 = 0" "home m k3 = 1"
    using k12 k3 cap by (simp_all add: home_def)
  let ?a = "hm_cells m"
  have one: "used_for ?a 0 1" if p: "holds_key ?a k p" "home m k = 0" "p \<noteq> 0" for k p
  proof -
    obtain pre post where ch: "chain (length ?a) 0 = pre @ p # post" "\<forall>r\<in>set pre. used_for ?a 0 r"
      using holds_key_chain [OF c(1,2) p(1)] p(2) by metis
    obtain cs where "chain (length ?a) 0 = 0 # 1 # cs" using chain_heads(1) cap c(3) by auto
    then have "pre @ p # post = 0 # 1 # cs" using ch(1) by simp
    then have "p = 1 \<or> 1 \<in> set pre" using p(3)
      by (cases pre; cases "tl pre") auto
    moreover have "used_for ?a 0 p"
      using p c(2) by (auto simp: holds_key_def keys_ok_def used_for_def occupied_def)
    ultimately show ?thesis using ch(2) by auto
  qed
  have "p1 \<noteq> p2" using k12(1-3) by (auto simp: holds_key_def)
  then have z: "used_for ?a 0 1"
    using one [OF k12(1) h(1)] one [OF k12(2) h(2)] by (cases "p1 = 0") auto
  obtain pre post where ch: "chain (length ?a) 1 = pre @ p3 # post" "\<forall>r\<in>set pre. used_for ?a 1 r"
    using holds_key_chain [OF c(1,2) k3(1)] h(3) by metis
  obtain cs where "chain (length ?a) 1 = 1 # cs" using chain_heads(2) cap c(3) by auto
  then have "p3 = 1 \<or> 1 \<in> set pre" using ch(1) by (cases pre) auto
  moreover have "used_for ?a 1 p3"
    using k3(1) h(3) c(2) by (auto simp: holds_key_def keys_ok_def used_for_def occupied_def)
  ultimately have "used_for ?a 1 1" using ch(2) by auto
  then show False using z by (simp add: used_for_def)
qed

section \<open>The interface of a dictionary\<close>

datatype ('k, 'v) dict_op = Put 'k 'v | Del 'k

fun apply_op :: "('k \<rightharpoonup> 'v) \<Rightarrow> ('k, 'v) dict_op \<Rightarrow> ('k \<rightharpoonup> 'v)" where
  "apply_op d (Put k v) = d(k \<mapsto> v)"
| "apply_op d (Del k) = d(k := None)"

text \<open>A history of operations that returned, each insertion where \<open>clean\<close> allows it.\<close>

inductive history :: "('s \<Rightarrow> 'k \<Rightarrow> bool) \<Rightarrow> ('s \<Rightarrow> 'k \<Rightarrow> 'v \<Rightarrow> 's \<Rightarrow> bool) \<Rightarrow> ('s \<Rightarrow> 'k \<Rightarrow> 's \<Rightarrow> bool) \<Rightarrow>
    's \<Rightarrow> ('k, 'v) dict_op list \<Rightarrow> 's \<Rightarrow> bool"
  for clean :: "'s \<Rightarrow> 'k \<Rightarrow> bool" and put :: "'s \<Rightarrow> 'k \<Rightarrow> 'v \<Rightarrow> 's \<Rightarrow> bool"
    and del :: "'s \<Rightarrow> 'k \<Rightarrow> 's \<Rightarrow> bool" where
  history_nil: "history clean put del s [] s"
| history_put: "clean s k \<Longrightarrow> put s k v s1 \<Longrightarrow> history clean put del s1 ops s2 \<Longrightarrow>
    history clean put del s (Put k v # ops) s2"
| history_del: "del s k s1 \<Longrightarrow> history clean put del s1 ops s2 \<Longrightarrow>
    history clean put del s (Del k # ops) s2"

locale dictionary =
  fixes ok :: "'s \<Rightarrow> bool" and dict :: "'s \<Rightarrow> 'k \<rightharpoonup> 'v" and clean :: "'s \<Rightarrow> 'k \<Rightarrow> bool"
    and put :: "'s \<Rightarrow> 'k \<Rightarrow> 'v \<Rightarrow> 's \<Rightarrow> bool" and del :: "'s \<Rightarrow> 'k \<Rightarrow> 's \<Rightarrow> bool"
  assumes put_law: "ok s \<Longrightarrow> clean s k \<Longrightarrow> put s k v s' \<Longrightarrow> ok s' \<and> dict s' = (dict s)(k \<mapsto> v)"
    and del_law: "ok s \<Longrightarrow> del s k s' \<Longrightarrow> ok s' \<and> dict s' = (dict s)(k := None)"
    and new_clean: "dict s k = None \<Longrightarrow> clean s k"
begin

lemma history_law:
  "history clean put del s ops s' \<Longrightarrow> ok s \<Longrightarrow> ok s' \<and> dict s' = foldl apply_op (dict s) ops"
proof (induction rule: history.induct)
  case (history_put s k v s1 ops s2)
  then have "ok s1" "dict s1 = (dict s)(k \<mapsto> v)" using put_law [of s k v s1] by blast+
  then show ?case using history_put.IH by (simp del: fun_upd_apply)
next
  case (history_del s k s1 ops s2)
  then have "ok s1" "dict s1 = (dict s)(k := None)" using del_law [of s k s1] by blast+
  then show ?case using history_del.IH by (simp del: fun_upd_apply)
qed simp

lemma put_then_del:
  assumes "ok s" and "dict s k = None" and "put s k v s1" and "del s1 k s2"
  shows "ok s2 \<and> dict s2 = dict s"
  using put_law [OF assms(1) new_clean [OF assms(2)] assms(3)] del_law [of s1 k s2] assms(2,4)
  by (auto simp: fun_upd_idem)

end

definition hm_put :: "(nat \<Rightarrow> bool) \<Rightarrow> hashmap \<Rightarrow> bytes \<Rightarrow> ptr \<Rightarrow> hashmap \<Rightarrow> bool" where
  "hm_put alloc m k v m' \<longleftrightarrow> Hashmap_set 57 alloc m k v = Some (Inr m')"

definition hm_del :: "hashmap \<Rightarrow> bytes \<Rightarrow> hashmap \<Rightarrow> bool" where
  "hm_del m k m' \<longleftrightarrow> (\<exists>v. Hashmap_delete m k = Inr (v, m'))"

interpretation hmd: dictionary hm_good hm_dict clean_for "hm_put alloc" hm_del for alloc
proof (unfold_locales, goal_cases)
  case (1 m k v m')
  then show ?case using hm_set_post by (simp add: hm_put_def set_post_def del: Hashmap_set.simps)
next
  case (2 m k m')
  then show ?case using hm_delete_spec [of m k] by (auto simp: hm_del_def)
qed (simp add: clean_for_def)

lemma dom_cells_dict: "dom (cells_dict a) = (\<lambda>p. n_key (a ! p)) ` occ_set a"
proof (rule set_eqI)
  fix k
  show "k \<in> dom (cells_dict a) \<longleftrightarrow> k \<in> (\<lambda>p. n_key (a ! p)) ` occ_set a"
    using cells_dict_None [of a k] by (auto simp: holds_key_def occ_set_def dom_def image_iff)
qed

lemma hm_size_dom:
  assumes "hm_good m"
  shows "hm_size m = card (dom (hm_dict m))"
proof -
  have "inj_on (\<lambda>p. n_key (hm_cells m ! p)) (occ_set (hm_cells m))"
    using assms by (auto simp: hm_good_def keys_unique_def holds_key_def occ_set_def intro!: inj_onI)
  then have "card (dom (hm_dict m)) = card (occ_set (hm_cells m))"
    by (simp add: hm_dict_def dom_cells_dict card_image)
  then show ?thesis using assms by (simp add: hm_good_def hm_inv_def)
qed

lemma Hashmap_new_good:
  assumes "alloc (8 * sizeof_node)"
  shows "hm_good (Hashmap_new alloc h)" "no_tombs (hm_cells (Hashmap_new alloc h))"
    "hm_dict (Hashmap_new alloc h) = Map.empty" "hm_cap (Hashmap_new alloc h) = 2 ^ 3"
    "hm_hash (Hashmap_new alloc h) = h"
proof -
  have "\<exists>j\<ge>3. (8::nat) = 2 ^ j" by (intro exI [of _ 3]) simp
  then have "hm_good (Hashmap_new alloc h) \<and> no_tombs (hm_cells (Hashmap_new alloc h)) \<and>
      hm_dict (Hashmap_new alloc h) = Map.empty"
    using hm_empty_good [of 8 "Hashmap_new alloc h"] assms
    by (simp add: Hashmap_new_def STARTING_BUCKETS_def calloc_nodes_def sizeof_node_def)
  then show "hm_good (Hashmap_new alloc h)" "no_tombs (hm_cells (Hashmap_new alloc h))"
    "hm_dict (Hashmap_new alloc h) = Map.empty" by blast+
qed (simp_all add: Hashmap_new_def STARTING_BUCKETS_def)

text \<open>A key's second copy: the insertion took a tombstone in front of the first one.\<close>

lemma stale_copy:
  assumes good: "hm_good m" and old: "hm_dict m k = Some old"
    and tomb: "set_pos m k = Inr (Some (FOUND, p))"
    and set: "Hashmap_set (Suc f) alloc m k new = Some (Inr m1)"
  shows "\<exists>m2. Hashmap_delete m1 k = Inr (new, m2) \<and> Hashmap_get m2 k = Inr old"
proof -
  have inv: "hm_inv m" and uniq: "keys_unique (hm_cells m)" using good by (auto simp: hm_good_def)
  note c = hm_inv_cells [OF inv]
  obtain q where q: "holds_key (hm_cells m) k q" "n_value (hm_cells m ! q) = old"
    using old by (auto simp: hm_dict_def cells_dict_Some [OF uniq])
  have hit: "scan (hm_cells m) k (home m k) (chain (length (hm_cells m)) (home m k)) = Some (FOUND, p)"
    using tomb c(3) by (simp add: set_pos_scan [OF inv])
  have np: "\<not> occupied (hm_cells m ! p)" using scan_hit [OF c(1,2,4) hit] by blast
  let ?b = "(hm_cells m)[p := filled (hm_cells m ! p) k new (home m k)]"
  have p: "p < hm_cap m" using set_hit_inv(3) [OF c(1,2,4) hit] c(3) by simp
  have m1: "m1 = m\<lparr>hm_arr := Some ?b, hm_size := Suc (hm_size m)\<rparr>"
    using set tomb p node_at_inv [OF inv p] by (auto simp: store_at_def node_set_def c(6) split: if_splits)
  have inv1: "hm_inv m1" using hm_set_inv [OF inv set] by blast
  have home1: "home m1 = home m" and cells1: "hm_cells m1 = ?b" and cap1: "hm_cap m1 = hm_cap m"
    by (simp_all add: m1)
  have s1: "scan2 (hm_cells m1) k (home m1 k) (chain (hm_cap m1) (home m1 k)) = Some p"
    using set_hit_inv(5) [OF c(1,2,4) hit] by (simp add: home1 cells1 cap1 c(3))
  have hp: "holds_key (hm_cells m1) k p" using p c(3) by (simp add: cells1 holds_key_update)
  let ?m2 = "m1\<lparr>hm_size := hm_size m1 - 1,
      hm_arr := Some ((hm_cells m1)[p := node_delete (hm_cells m1 ! p)])\<rparr>"
  have inv2: "hm_inv ?m2" by (rule hm_delete_hit(1) [OF inv1 hp refl])
  have del: "Hashmap_delete m1 k = Inr (new, ?m2)"
    using s1 node_at_inv [OF inv1] p c(3)
    by (simp add: Hashmap_delete_def get_pos_scan [OF inv1] cap1 cells1 hm_inv_cells(6) [OF inv1])
  define nd where "nd = node_delete (?b ! p)"
  have nd: "\<not> occupied nd" by (simp add: nd_def occupied_def node_delete_def)
  have cells2: "hm_cells ?m2 = (hm_cells m)[p := nd]"
    by (simp add: cells1 nd_def)
  have qp: "q \<noteq> p" using q(1) np by (auto simp: holds_key_def)
  have holds2: "holds_key (hm_cells ?m2) k r \<longleftrightarrow> r = q" for r
  proof -
    have "holds_key (hm_cells ?m2) k r \<longleftrightarrow> r \<noteq> p \<and> holds_key (hm_cells m) k r"
      using p c(3) nd unfolding cells2 by (cases "r = p") (auto simp: holds_key_def)
    then show ?thesis using q(1) qp uniq by (auto simp: keys_unique_def)
  qed
  have val2: "n_value (hm_cells ?m2 ! q) = old"
    using q qp unfolding cells2 by simp
  note c2 = hm_inv_cells [OF inv2]
  have "case scan2 (hm_cells ?m2) k (home ?m2 k) (chain (hm_cap ?m2) (home ?m2 k)) of
      None \<Rightarrow> False | Some r \<Rightarrow> r = q"
    using get_scan [OF c2(1,2,5,4), of k] holds2 c2(3) by (simp only:) (auto split: option.splits)
  then have "Hashmap_get ?m2 k = Inr old"
    using hm_get_scan [OF inv2, of k] val2 by (auto split: option.splits)
  with del show ?thesis by blast
qed

end
