(* ===== verification/HashMapMain.thy ===== *)
theory HashMapMain
  imports HashMapProps
begin

unbundle bit_operations_syntax

text \<open>
  The hash function \<open>djb2\<close> in closed form, and the test program \<open>main\<close> of \<open>hashmap.c\<close>: which
  hashes its 8002 keys have, that no two of them agree modulo \<open>2 ^ 26\<close>, and that all its
  assertions pass.
\<close>

section \<open>The hash function\<close>

text \<open>A byte as the \<open>char\<close> it is read as, and the hash over unbounded integers.\<close>

definition djb2_int :: "int \<Rightarrow> bytes \<Rightarrow> int" where
  "djb2_int h cs = foldl (\<lambda>h c. 33 * h + sint c) h cs"

lemma hash_step: "push_bit 5 (w :: u64) + w = 33 * w"
  by (simp add: push_bit_eq_mult)

lemma djb2_from_int:
  "djb2_from (word_of_int h) cs = word_of_int (djb2_int h (takeWhile (\<lambda>c. c \<noteq> 0) cs))"
proof (induction cs arbitrary: h)
  case (Cons c cs)
  have "33 * word_of_int h + (scast c :: u64) = word_of_int (33 * h + sint c)"
    by (simp only: scast_eq wi_hom_mult wi_hom_add word_of_int_numeral [symmetric])
  then show ?case using Cons.IH [of "33 * h + sint c"] by (simp add: djb2_int_def hash_step)
qed (simp add: djb2_int_def)

section \<open>The test program\<close>

definition cstr :: "string \<Rightarrow> bytes" where
  "cstr s = map (\<lambda>c. word_of_nat (of_char c)) s @ [0]"

fun decimal :: "nat \<Rightarrow> string" where
  "decimal n = (if n < 10 then [char_of (48 + n)] else decimal (n div 10) @ [char_of (48 + n mod 10)])"

declare decimal.simps [simp del]

definition MAX_KEY_SIZE :: nat where
  "MAX_KEY_SIZE = 10"

definition item_key :: "nat \<Rightarrow> bytes" where
  "item_key i = cstr (''item '' @ decimal i)"

text \<open>\<open>sprintf(key, "item %d", i)\<close> into the array \<open>key\<close> of \<open>MAX_KEY_SIZE\<close> characters.\<close>

definition sprintf_key :: "nat \<Rightarrow> bytes res" where
  "sprintf_key i = (if length (item_key i) \<le> MAX_KEY_SIZE then Inr (item_key i) else Inl OutOfBounds)"

definition obind :: "'a res option \<Rightarrow> ('a \<Rightarrow> 'b res option) \<Rightarrow> 'b res option" where
  "obind r f = (case r of None \<Rightarrow> None | Some (Inl e) \<Rightarrow> Some (Inl e) | Some (Inr x) \<Rightarrow> f x)"

lemma obind_simps [simp]:
  "obind None f = None" "obind (Some (Inl e)) f = Some (Inl e)" "obind (Some (Inr x)) f = f x"
  by (simp_all add: obind_def)

fun set_items :: "nat \<Rightarrow> (nat \<Rightarrow> bool) \<Rightarrow> (nat \<Rightarrow> ptr) \<Rightarrow> hashmap \<Rightarrow> nat list \<Rightarrow> hashmap res option" where
  "set_items fuel alloc ns m [] = Some (Inr m)"
| "set_items fuel alloc ns m (i # is) =
     obind (Some (sprintf_key i)) (\<lambda>key.
     obind (Hashmap_set fuel alloc m key (ns i)) (\<lambda>m'. set_items fuel alloc ns m' is))"

fun check_items :: "(nat \<Rightarrow> ptr) \<Rightarrow> hashmap \<Rightarrow> nat list \<Rightarrow> unit res" where
  "check_items ns m [] = Inr ()"
| "check_items ns m (i # is) =
     andthen (sprintf_key i) (\<lambda>key.
     andthen (Hashmap_get m key) (\<lambda>v.
     andthen (check (v = ns i)) (\<lambda>_. check_items ns m is)))"

definition assert_get :: "hashmap \<Rightarrow> bytes \<Rightarrow> ptr \<Rightarrow> unit res" where
  "assert_get m key v = andthen (Hashmap_get m key) (\<lambda>w. check (w = v))"

text \<open>
  \<open>main\<close>, from the addresses of its variables \<open>a\<close>, \<open>b\<close>, \<open>c\<close> and \<open>ns[i]\<close>; the result is what
  \<open>Hashmap_free\<close> releases.
\<close>

definition hashmap_main :: "nat \<Rightarrow> (nat \<Rightarrow> bool) \<Rightarrow> ptr \<Rightarrow> ptr \<Rightarrow> ptr \<Rightarrow> (nat \<Rightarrow> ptr) \<Rightarrow>
    bytes list res option" where
  "hashmap_main fuel alloc a b c ns =
     (let h0 = Hashmap_new alloc djb2; n = STARTING_BUCKETS * 1000 in
      obind (Hashmap_set fuel alloc h0 (cstr ''item a'') a) (\<lambda>h1.
      obind (Hashmap_set fuel alloc h1 (cstr ''item b'') b) (\<lambda>h2.
      obind (Some (assert_get h2 (cstr ''item a'') a)) (\<lambda>_.
      obind (Some (assert_get h2 (cstr ''item b'') b)) (\<lambda>_.
      obind (Hashmap_set fuel alloc h2 (cstr ''item a'') c) (\<lambda>h3.
      obind (Some (assert_get h3 (cstr ''item a'') c)) (\<lambda>_.
      obind (Some (Hashmap_delete h3 (cstr ''item a''))) (\<lambda>(_, h4).
      obind (Some (assert_get h4 (cstr ''item a'') NULL)) (\<lambda>_.
      obind (set_items fuel alloc ns h4 [0..<n]) (\<lambda>h5.
      obind (Some (check_items ns h5 [0..<n])) (\<lambda>_.
      Some (Inr (Hashmap_free h5)))))))))))))"

section \<open>The hashes of its keys\<close>

definition text_hash :: "nat \<Rightarrow> string \<Rightarrow> nat" where
  "text_hash h s = foldl (\<lambda>h c. 33 * h + of_char c) h s"

lemma text_hash_simps [simp]:
  "text_hash h [] = h" "text_hash h (c # s) = text_hash (33 * h + of_char c) s"
  "text_hash h (s @ t) = text_hash (text_hash h s) t"
  by (simp_all add: text_hash_def)

lemma scast_small: "n < 128 \<Longrightarrow> (scast (word_of_nat n :: u8) :: u64) = word_of_nat n"
  by (simp add: scast_eq sint_uint unsigned_of_nat signed_take_bit_int_eq_self take_bit_nat_eq_self
      flip: of_nat_take_bit)

lemma word8_zero: "n < 128 \<Longrightarrow> (word_of_nat n :: u8) = 0 \<longleftrightarrow> n = 0"
  using nat_dvd_not_less [of n 256] by (auto simp: word_of_nat_eq_0_iff)

lemma djb2_text:
  "(\<forall>c\<in>set s. 0 < (of_char c :: nat) \<and> (of_char c :: nat) < 128) \<Longrightarrow>
   djb2_from (word_of_nat h) (cstr s) = word_of_nat (text_hash h s)"
proof (induction s arbitrary: h)
  case (Cons c s)
  show ?case
    using Cons.IH [of "33 * h + of_char c"] Cons.prems
    by (simp add: cstr_def word8_zero hash_step scast_small)
qed (simp add: cstr_def)

lemma decimal_digits: "c \<in> set (decimal n) \<Longrightarrow> 48 \<le> (of_char c :: nat) \<and> (of_char c :: nat) < 58"
proof (induction n rule: decimal.induct)
  case (1 n)
  then show ?case
    by (subst (asm) decimal.simps) (auto split: if_splits)
qed

lemma text_hash_decimal:
  "text_hash h (decimal n) =
     (if n < 10 then 33 * h + 48 + n else 33 * text_hash h (decimal (n div 10)) + 48 + n mod 10)"
  by (subst decimal.simps) simp

lemma decimal_length: "length (decimal n) = (if n < 10 then 1 else Suc (length (decimal (n div 10))))"
  by (subst decimal.simps) simp

lemma decimal_pos: "0 < length (decimal n)"
  by (subst decimal_length) simp

lemma decimal_small: "d < 10 \<Longrightarrow> text_hash h (decimal d) = 33 * h + 48 + d" "d < 10 \<Longrightarrow> length (decimal d) = 1"
  by (simp_all add: text_hash_decimal decimal_length)

lemma decimal_step:
  "0 < x \<Longrightarrow> d < 10 \<Longrightarrow> text_hash h (decimal (10 * x + d)) = 33 * text_hash h (decimal x) + 48 + d"
  "0 < x \<Longrightarrow> d < 10 \<Longrightarrow> length (decimal (10 * x + d)) = Suc (length (decimal x))"
  by (simp_all add: text_hash_decimal [of h "10 * x + d"] decimal_length [of "10 * x + d"])

lemma base33: "33 * x + a = 33 * y + b \<Longrightarrow> a < 33 \<Longrightarrow> b < 33 \<Longrightarrow> x = y \<and> a = (b :: nat)"
  by (metis div_mult_self4 mod_mult_self4 div_less mod_less add_0_right zero_neq_numeral)

lemma text_hash_decimal_inj:
  "length (decimal i) = length (decimal j) \<Longrightarrow>
   text_hash h (decimal i) = text_hash h (decimal j) \<Longrightarrow> i = j"
proof (induction i arbitrary: j rule: decimal.induct)
  case (1 i)
  have "i < 10 \<longleftrightarrow> length (decimal i) = 1" "j < 10 \<longleftrightarrow> length (decimal j) = 1"
    using decimal_pos [of "i div 10"] decimal_pos [of "j div 10"]
    by (simp_all add: decimal_length [of i] decimal_length [of j])
  then have same: "i < 10 \<longleftrightarrow> j < 10" using 1(2) by simp
  show ?case
  proof (cases "i < 10")
    case True
    then show ?thesis
      using 1(3) same text_hash_decimal [of h i] text_hash_decimal [of h j] by simp
  next
    case False
    let ?x = "text_hash h (decimal (i div 10))" and ?y = "text_hash h (decimal (j div 10))"
    have "33 * ?x + i mod 10 = 33 * ?y + j mod 10"
      using 1(3) False same text_hash_decimal [of h i] text_hash_decimal [of h j] by simp
    moreover have "i mod 10 < 33" "j mod 10 < 33" by simp_all
    ultimately have eq: "?x = ?y" "i mod 10 = j mod 10" using base33 by blast+
    have "length (decimal (i div 10)) = length (decimal (j div 10))"
      using 1(2) False same decimal_length [of i] decimal_length [of j] by simp
    then have "i div 10 = j div 10" using 1(1) False eq(1) by blast
    then show ?thesis using eq(2) div_mult_mod_eq [of i 10] div_mult_mod_eq [of j 10] by linarith
  qed
qed


text \<open>The lengths of the numbers below 8000 and, for each, the range of their hashes.\<close>

lemma number_window:
  assumes "i < 8000"
  defines "x \<equiv> text_hash 210716353748 (decimal i)" and "l \<equiv> length (decimal i)"
  shows "l = 1 \<and> x div 2 ^ 26 = 103617 \<and> 20512644 \<le> x mod 2 ^ 26 \<and> x mod 2 ^ 26 \<le> 20512653 \<or>
    l = 2 \<and> x div 2 ^ 26 = 3419371 \<and> 5828693 \<le> x mod 2 ^ 26 \<and> x mod 2 ^ 26 \<le> 5828966 \<or>
    l = 3 \<and> x div 2 ^ 26 = 112839245 \<and> 58129189 \<le> x mod 2 ^ 26 \<and> x mod 2 ^ 26 \<le> 58138207 \<or>
    l = 4 \<and> x div 2 ^ 26 = 3723695113 \<and> 39215093 \<le> x mod 2 ^ 26 \<and> x mod 2 ^ 26 \<le> 39512696"
proof -
  have win: "y div 2 ^ 26 = q \<and> lo \<le> y mod 2 ^ 26 \<and> y mod 2 ^ 26 \<le> hi"
    if "q * 2 ^ 26 + lo \<le> y" "y \<le> q * 2 ^ 26 + hi" "hi < 2 ^ 26" for y q lo hi :: nat
  proof -
    define r where "r = y - q * 2 ^ 26"
    have r: "y = r + q * 2 ^ 26" "lo \<le> r" "r \<le> hi" using that(1,2) by (simp_all add: r_def)
    then have "y div 2 ^ 26 = q" "y mod 2 ^ 26 = r" using that(3) by simp_all
    then show ?thesis using r by simp
  qed
  define a b c d where "a = i div 10 div 10 div 10" and "b = i div 10 div 10 mod 10"
    and "c = i div 10 mod 10" and "d = i mod 10"
  have "a < 8" using assms(1) by (simp add: a_def)
  moreover have "b < 10" "c < 10" "d < 10" by (simp_all add: b_def c_def d_def)
  moreover have "i = 10 * (10 * (10 * a + b) + c) + d"
    unfolding a_def b_def c_def d_def by (simp only: mult_div_mod_eq)
  ultimately have dig: "a < 8" "b < 10" "c < 10" "d < 10" "i = 10 * (10 * (10 * a + b) + c) + d"
    by blast+
  note dec = decimal_small decimal_step
  consider "a = 0" "b = 0" "c = 0" | "a = 0" "b = 0" "0 < c" | "a = 0" "0 < b" | "0 < a" by blast
  then show ?thesis
  proof cases
    case 1
    then have "x = 33 * 210716353748 + 48 + d" "l = 1"
      using dig(4) unfolding x_def l_def dig(5) by (simp_all add: dec)
    then show ?thesis using win [of 103617 20512644 x 20512653] dig(4) by simp
  next
    case 2
    then have "x = 33 * (33 * 210716353748 + 48 + c) + 48 + d" "l = 2"
      using dig(3,4) unfolding x_def l_def dig(5) by (simp_all add: dec)
    then show ?thesis using win [of 3419371 5828693 x 5828966] dig(3,4) 2 by simp
  next
    case 3
    then have "x = 33 * (33 * (33 * 210716353748 + 48 + b) + 48 + c) + 48 + d" "l = 3"
      using dig(2-4) unfolding x_def l_def dig(5) by (simp_all add: dec del: distrib_left_numeral)
    then show ?thesis using win [of 112839245 58129189 x 58138207] dig(2-4) 3 by simp
  next
    case 4
    then have "x = 33 * (33 * (33 * (33 * 210716353748 + 48 + a) + 48 + b) + 48 + c) + 48 + d" "l = 4"
      using dig(1-4) unfolding x_def l_def dig(5) by (simp_all add: dec del: distrib_left_numeral)
    then show ?thesis using win [of 3723695113 39215093 x 39512696] dig(1-4) 4 by simp
  qed
qed

text \<open>The keys of the program and, for the first \<open>n\<close> numbers, their hashes.\<close>

definition main_keys :: "bytes set" where
  "main_keys = insert (cstr ''item a'') (insert (cstr ''item b'') (item_key ` {..<8000}))"

lemma djb2_item: "djb2 (item_key i) = word_of_nat (text_hash 210716353748 (decimal i))"
proof -
  have "\<forall>c\<in>set (''item '' @ decimal i). 0 < (of_char c :: nat) \<and> (of_char c :: nat) < 128"
    using decimal_digits [of _ i] by fastforce
  then show ?thesis
    using djb2_text [of "''item '' @ decimal i" 5381] by (simp add: djb2_def item_key_def)
qed

lemma djb2_item_ab:
  "djb2 (cstr ''item a'') = 6953639673781" "djb2 (cstr ''item b'') = 6953639673782"
  using djb2_text [of "''item a''" 5381] djb2_text [of "''item b''" 5381] by (simp_all add: djb2_def)

lemma unat_item_mod:
  assumes "i < 8000"
  shows "unat (djb2 (item_key i)) mod 2 ^ 26 = text_hash 210716353748 (decimal i) mod 2 ^ 26"
proof -
  let ?x = "text_hash 210716353748 (decimal i)"
  have "?x div 2 ^ 26 < 2 ^ 38" using number_window [OF assms] by auto
  then have "?x < 2 ^ 38 * 2 ^ 26" by (simp add: less_mult_imp_div_less div_less_iff_less_mult del: One_nat_def)
  then have "?x < 2 ^ 64" by simp
  then show ?thesis by (simp add: djb2_item unsigned_of_nat take_bit_nat_eq_self)
qed


lemma item_hash_inj:
  assumes "i < 8000" "j < 8000"
    and "unat (djb2 (item_key i)) mod 2 ^ 26 = unat (djb2 (item_key j)) mod 2 ^ 26"
  shows "i = j"
proof -
  let ?x = "text_hash 210716353748 (decimal i)" and ?y = "text_hash 210716353748 (decimal j)"
  have m: "?x mod 2 ^ 26 = ?y mod 2 ^ 26"
    using assms unat_item_mod by simp
  then have d: "length (decimal i) = length (decimal j) \<and> ?x div 2 ^ 26 = ?y div 2 ^ 26"
    using number_window [OF assms(1)] number_window [OF assms(2)] by (elim disjE) simp_all
  then have "?x = ?y" using m by (metis div_mult_mod_eq)
  then show ?thesis using d text_hash_decimal_inj by blast
qed

lemma item_hash_ab:
  assumes "i < 8000"
  shows "unat (djb2 (item_key i)) mod 2 ^ 26 \<noteq> 20512693"
    "unat (djb2 (item_key i)) mod 2 ^ 26 \<noteq> 20512694"
  using number_window [OF assms] unat_item_mod [OF assms] by auto

lemma main_keys_spread: "inj_on (\<lambda>k. unat (djb2 k) mod 2 ^ 26) main_keys"
proof -
  let ?h = "\<lambda>k. unat (djb2 k) mod 2 ^ 26"
  have ab: "?h (cstr ''item a'') = 20512693" "?h (cstr ''item b'') = 20512694"
    by (simp_all add: djb2_item_ab)
  have "inj_on ?h (item_key ` {..<8000})"
    by (rule inj_onI) (use item_hash_inj in blast)
  moreover have "?h k \<noteq> 20512693 \<and> ?h k \<noteq> 20512694" if "k \<in> item_key ` {..<8000}" for k
    using that item_hash_ab by auto
  ultimately show ?thesis using ab unfolding main_keys_def inj_on_insert by fastforce
qed

lemma item_keys:
  "i < 8000 \<Longrightarrow> j < 8000 \<Longrightarrow> item_key i = item_key j \<longleftrightarrow> i = j"
  "i < 8000 \<Longrightarrow> item_key i \<noteq> cstr ''item a''" "i < 8000 \<Longrightarrow> item_key i \<noteq> cstr ''item b''"
  using item_hash_inj [of i j] item_hash_ab [of i] by (auto simp: djb2_item_ab)

lemma ab_keys: "cstr ''item a'' \<noteq> cstr ''item b''"
  by (simp add: cstr_def)

lemma sprintf_key_fits:
  assumes "i < 8000"
  shows "sprintf_key i = Inr (item_key i)"
proof -
  have "length (decimal i) \<le> 4" using number_window [OF assms] by auto
  then show ?thesis by (simp add: sprintf_key_def item_key_def cstr_def MAX_KEY_SIZE_def)
qed

section \<open>The run of the program\<close>

lemma hm_free_keys:
  assumes good: "hm_good m"
  shows "set (Hashmap_free m) = dom (hm_dict m)" "distinct (Hashmap_free m)"
proof -
  have inv: "hm_inv m" and uniq: "keys_unique (hm_cells m)" using good by (auto simp: hm_good_def)
  note c = hm_inv_cells [OF inv]
  have free: "Hashmap_free m = map n_key (filter occupied (hm_cells m))"
    by (simp add: Hashmap_free_def c(3,6) occupied_def [abs_def])
  show "set (Hashmap_free m) = dom (hm_dict m)"
    unfolding free hm_dict_def dom_cells_dict by (auto simp: occ_set_def in_set_conv_nth image_iff)
  have "distinct (map n_key (filter occupied a))" if "keys_unique a" for a
    using that
  proof (induction a)
    case (Cons x a)
    have shift: "holds_key (x # a) k (Suc p) \<longleftrightarrow> holds_key a k p" for k p
      by (simp add: holds_key_def)
    have "keys_unique a"
      using Cons.prems unfolding keys_unique_def by (metis shift nat.inject)
    moreover have "n_key x \<notin> n_key ` {y \<in> set a. occupied y}" if "occupied x"
    proof
      assume "n_key x \<in> n_key ` {y \<in> set a. occupied y}"
      then obtain p where "holds_key a (n_key x) p" by (auto simp: holds_key_def in_set_conv_nth)
      then have "holds_key (x # a) (n_key x) (Suc p)" by (simp add: shift)
      moreover have "holds_key (x # a) (n_key x) 0" using that by (simp add: holds_key_def)
      ultimately show False using Cons.prems unfolding keys_unique_def by blast
    qed
    ultimately show ?case using Cons.IH by simp
  qed simp
  then show "distinct (Hashmap_free m)" using uniq free by simp
qed

definition main_map :: "nat \<Rightarrow> bytes set \<Rightarrow> hashmap \<Rightarrow> bool" where
  "main_map K D m \<longleftrightarrow> hm_good m \<and> (no_tombs (hm_cells m) \<or> hm_cap m < 2 ^ K) \<and> hm_cap m \<le> 2 ^ K \<and>
     dom (hm_dict m) \<subseteq> D \<and> hm_hash m = djb2"

lemma main_set:
  assumes map: "main_map K D m" and k: "k \<in> D" "clean_for m k"
    and K: "3 \<le> K" "K \<le> 26" and mem: "\<And>n. n \<le> 2 ^ K * sizeof_node \<Longrightarrow> alloc n"
    and short: "\<And>k. k \<in> D \<Longrightarrow> length k \<le> MAX_KEY_SIZE"
    and inj: "inj_on (\<lambda>k. unat (djb2 k) mod 2 ^ K) D" and fuel: "26 \<le> f"
  shows "\<exists>m'. Hashmap_set f alloc m k v = Some (Inr m') \<and> main_map K D m' \<and> hm_good m' \<and>
    hm_dict m' = (hm_dict m)(k \<mapsto> v) \<and> (no_tombs (hm_cells m) \<longrightarrow> no_tombs (hm_cells m'))"
proof -
  have good: "hm_good m" using map by (simp add: main_map_def)
  then have "hm_inv m" by (simp add: hm_good_def)
  then obtain j where j: "3 \<le> j" "hm_cap m = 2 ^ j" by (rule hm_invE) blast
  have key: "alloc (length k')" if "k' \<in> D" for k'
  proof -
    have "(1 :: nat) * 40 \<le> 2 ^ K * 40" by (intro mult_le_mono1) simp
    then have "length k' \<le> 2 ^ K * sizeof_node"
      using short [OF that] unfolding MAX_KEY_SIZE_def sizeof_node_def by linarith
    then show ?thesis by (rule mem)
  qed
  have "j \<le> K" using map j by (simp add: main_map_def)
  moreover have "no_tombs (hm_cells m) \<or> j < K" using map j by (auto simp: main_map_def)
  ultimately obtain m' where m': "Hashmap_set f alloc m k v = Some (Inr m')" "hm_cap m' \<le> 2 ^ K"
      "no_tombs (hm_cells m') \<or> hm_cap m' < 2 ^ K"
    using hm_set_spread [where f = f and v = v and alloc = alloc, OF K(1) _ mem key inj good _ j(2) _ _ _ k(1)] map K fuel j
    by (auto simp: main_map_def)
  have post: "set_post m k v m'" using hm_set_post [OF good k(2) m'(1)] .
  then have "main_map K D m'"
    using map k(1) m'(2,3) by (auto simp: main_map_def set_post_def)
  then show ?thesis using m'(1) post by (auto simp: set_post_def)
qed


lemma main_keys_short: "k \<in> main_keys \<Longrightarrow> length k \<le> MAX_KEY_SIZE"
proof -
  have "length (item_key i) \<le> MAX_KEY_SIZE" if "i < 8000" for i
    using sprintf_key_fits [OF that] by (simp add: sprintf_key_def split: if_splits)
  then show "k \<in> main_keys \<Longrightarrow> length k \<le> MAX_KEY_SIZE"
    by (auto simp: main_keys_def cstr_def MAX_KEY_SIZE_def)
qed

lemma set_items_spread:
  assumes mem: "\<And>n. n \<le> 2 ^ 26 * sizeof_node \<Longrightarrow> alloc n" and fuel: "26 \<le> f"
  shows "main_map 26 main_keys m \<Longrightarrow> distinct is \<Longrightarrow> set is \<subseteq> {..<8000} \<Longrightarrow>
    \<forall>i\<in>set is. hm_dict m (item_key i) = None \<Longrightarrow>
    \<exists>m'. set_items f alloc ns m is = Some (Inr m') \<and> hm_good m' \<and>
      (\<forall>i\<in>set is. hm_dict m' (item_key i) = Some (ns i)) \<and>
      (\<forall>k. k \<notin> item_key ` set is \<longrightarrow> hm_dict m' k = hm_dict m k)"
proof (induction "is" arbitrary: m)
  case Nil
  then show ?case by (simp add: main_map_def)
next
  case (Cons i "is")
  have i: "i < 8000" "item_key i \<in> main_keys" using Cons.prems(3) by (auto simp: main_keys_def)
  have clean: "clean_for m (item_key i)" using Cons.prems(4) by (simp add: clean_for_def)
  obtain m1 where m1: "Hashmap_set f alloc m (item_key i) (ns i) = Some (Inr m1)"
    "main_map 26 main_keys m1" "hm_dict m1 = (hm_dict m)(item_key i \<mapsto> ns i)"
    using main_set [where alloc = alloc and v = "ns i", OF Cons.prems(1) i(2) clean _ _ mem main_keys_short main_keys_spread fuel] by auto
  have other: "j \<in> set is \<Longrightarrow> item_key j \<noteq> item_key i" for j
    using Cons.prems(2,3) item_keys(1) [of j i] by auto
  have "\<forall>j\<in>set is. hm_dict m1 (item_key j) = None" using other Cons.prems(4) m1(3) by auto
  then obtain m' where m': "set_items f alloc ns m1 is = Some (Inr m')" "hm_good m'"
    "\<forall>j\<in>set is. hm_dict m' (item_key j) = Some (ns j)"
    "\<forall>k. k \<notin> item_key ` set is \<longrightarrow> hm_dict m' k = hm_dict m1 k"
    using Cons.IH [OF m1(2)] Cons.prems(2,3) by auto
  have "hm_dict m' (item_key i) = Some (ns i)"
    using m'(4) other m1(3) by (metis fun_upd_same image_iff)
  then show ?case using m1 m' by (simp add: sprintf_key_fits i(1))
qed

lemma check_items_pass:
  "hm_good m \<Longrightarrow> \<forall>i\<in>set is. i < 8000 \<and> hm_dict m (item_key i) = Some (ns i) \<Longrightarrow>
   check_items ns m is = Inr ()"
  by (induction "is") (simp_all add: sprintf_key_fits hm_get_dict)

lemma assert_get_pass:
  "hm_good m \<Longrightarrow> (case hm_dict m k of None \<Rightarrow> NULL | Some v \<Rightarrow> v) = v \<Longrightarrow> assert_get m k v = Inr ()"
  by (simp add: assert_get_def hm_get_dict)

text \<open>The first half, on the keys \<open>item a\<close> and \<open>item b\<close>, whose hashes differ modulo 8.\<close>

lemma main_first_half:
  assumes mem: "\<And>n. n \<le> 2 ^ 26 * sizeof_node \<Longrightarrow> alloc n" and fuel: "26 \<le> f"
  shows "\<exists>h1 h2 h3 v h4. Hashmap_set f alloc (Hashmap_new alloc djb2) (cstr ''item a'') a = Some (Inr h1) \<and>
    Hashmap_set f alloc h1 (cstr ''item b'') b = Some (Inr h2) \<and>
    Hashmap_set f alloc h2 (cstr ''item a'') c = Some (Inr h3) \<and>
    Hashmap_delete h3 (cstr ''item a'') = Inr (v, h4) \<and>
    hm_good h2 \<and> hm_dict h2 = [cstr ''item a'' \<mapsto> a, cstr ''item b'' \<mapsto> b] \<and>
    hm_good h3 \<and> hm_dict h3 = [cstr ''item a'' \<mapsto> c, cstr ''item b'' \<mapsto> b] \<and>
    main_map 26 main_keys h4 \<and> hm_dict h4 = [cstr ''item b'' \<mapsto> b]"
proof -
  let ?ka = "cstr ''item a''" and ?kb = "cstr ''item b''"
  let ?D = "{?ka, ?kb}" and ?h0 = "Hashmap_new alloc djb2"
  have inj: "inj_on (\<lambda>k. unat (djb2 k) mod 2 ^ 3) ?D"
    by (intro inj_onI) (auto simp: djb2_item_ab)
  have mem3: "n \<le> 2 ^ 3 * sizeof_node \<Longrightarrow> alloc n" for n using mem by simp
  have short: "k \<in> ?D \<Longrightarrow> length k \<le> MAX_KEY_SIZE" for k by (auto simp: cstr_def MAX_KEY_SIZE_def)
  note set = main_set [where K = 3 and D = ?D and f = f and alloc = alloc, OF _ _ _ _ _ mem3 short inj fuel]
  note new = Hashmap_new_good [of alloc djb2, OF mem3, simplified]
  have "main_map 3 ?D ?h0" using new by (simp add: main_map_def)
  then obtain h1 where h1: "Hashmap_set f alloc ?h0 ?ka a = Some (Inr h1)" "main_map 3 ?D h1"
      "hm_dict h1 = [?ka \<mapsto> a]" "no_tombs (hm_cells h1)"
    using set [of ?h0 ?ka a] new by (auto simp: clean_for_def)
  obtain h2 where h2: "Hashmap_set f alloc h1 ?kb b = Some (Inr h2)" "main_map 3 ?D h2"
      "hm_dict h2 = [?ka \<mapsto> a, ?kb \<mapsto> b]" "no_tombs (hm_cells h2)"
    using set [OF h1(2), of ?kb b] h1(3,4) by (auto simp: clean_for_def)
  obtain h3 where h3: "Hashmap_set f alloc h2 ?ka c = Some (Inr h3)" "main_map 3 ?D h3"
      "hm_dict h3 = [?ka \<mapsto> c, ?kb \<mapsto> b]"
    using set [OF h2(2), of ?ka c] h2(3,4) ab_keys by (auto simp: clean_for_def fun_upd_twist)
  have good: "hm_good h2" "hm_good h3" using h2 h3 by (simp_all add: main_map_def)
  obtain h4 where h4: "Hashmap_delete h3 ?ka = Inr (c, h4)" "hm_good h4"
      "hm_dict h4 = (hm_dict h3)(?ka := None)"
    using hm_delete_spec [OF good(2), of ?ka] h3(3) ab_keys by auto
  have keep: "hm_cap h4 = hm_cap h3 \<and> hm_hash h4 = hm_hash h3"
    using h4(1) by (auto simp: Hashmap_delete_def andthen_eq_Inr_iff split: option.splits)
  have d4: "hm_dict h4 = [?kb \<mapsto> b]" using h4(3) h3(3) ab_keys by auto
  have "?kb \<in> main_keys" by (simp add: main_keys_def)
  then have "main_map 26 main_keys h4"
    using h3(2) h4(2) keep d4 by (auto simp: main_map_def)
  then show ?thesis using h1(1) h2(1,3) h3(1,3) h4(1) good d4 by blast
qed

text \<open>C2: The test program of the hash map passes. Where the allocator gives every block of up to
  \<open>2 ^ 26\<close> nodes' size, every call of \<open>main\<close> returns, all its assertions hold (no two of its 8002
  keys have \<open>djb2\<close> values that agree modulo \<open>2 ^ 26\<close>, so resizing stops), each key fits the
  array \<open>key\<close>, and \<open>Hashmap_free\<close> releases exactly the 8001 keys then in the map, each once.\<close>

theorem hashmap_main_passes:
  assumes "\<And>n. n \<le> 2 ^ 26 * sizeof_node \<Longrightarrow> alloc n" and "26 \<le> fuel"
  shows "\<exists>freed. hashmap_main fuel alloc a b c ns = Some (Inr freed) \<and> distinct freed \<and>
    set freed = insert (cstr ''item b'') (item_key ` {..<8000})"
proof -
  obtain h1 h2 h3 v h4 where run: "Hashmap_set fuel alloc (Hashmap_new alloc djb2) (cstr ''item a'') a = Some (Inr h1)"
      "Hashmap_set fuel alloc h1 (cstr ''item b'') b = Some (Inr h2)"
      "Hashmap_set fuel alloc h2 (cstr ''item a'') c = Some (Inr h3)"
      "Hashmap_delete h3 (cstr ''item a'') = Inr (v, h4)"
    and h2: "hm_good h2" "hm_dict h2 = [cstr ''item a'' \<mapsto> a, cstr ''item b'' \<mapsto> b]"
    and h3: "hm_good h3" "hm_dict h3 = [cstr ''item a'' \<mapsto> c, cstr ''item b'' \<mapsto> b]"
    and h4: "main_map 26 main_keys h4" "hm_dict h4 = [cstr ''item b'' \<mapsto> b]"
    using main_first_half [of alloc fuel a b c] assms by blast
  have good4: "hm_good h4" using h4 by (simp add: main_map_def)
  have fresh: "\<forall>i\<in>set [0..<8000]. hm_dict h4 (item_key i) = None"
    using item_keys(3) by (auto simp: h4(2))
  obtain h5 where h5: "set_items fuel alloc ns h4 [0..<8000] = Some (Inr h5)" "hm_good h5"
      "\<forall>i\<in>set [0..<8000]. hm_dict h5 (item_key i) = Some (ns i)"
      "\<forall>k. k \<notin> item_key ` set [0..<8000] \<longrightarrow> hm_dict h5 k = hm_dict h4 k"
    using set_items_spread [where alloc = alloc and ns = ns, OF assms h4(1) _ _ fresh] by (auto simp: atLeast0LessThan)
  have "check_items ns h5 [0..<8000] = Inr ()" using h5 by (intro check_items_pass) auto
  moreover have "dom (hm_dict h5) = insert (cstr ''item b'') (item_key ` {..<8000})"
  proof (rule set_eqI)
    fix k
    show "k \<in> dom (hm_dict h5) \<longleftrightarrow> k \<in> insert (cstr ''item b'') (item_key ` {..<8000})"
      using h5(3,4) h4(2) item_keys(3) by (cases "k \<in> item_key ` {..<8000}") (auto simp: atLeast0LessThan split: if_splits)
  qed
  moreover have "hashmap_main fuel alloc a b c ns = obind (Some (check_items ns h5 [0..<8000]))
      (\<lambda>_. Some (Inr (Hashmap_free h5)))"
    using run h5(1) h2 h3 good4 h4(2) ab_keys
    by (simp add: hashmap_main_def assert_get_pass STARTING_BUCKETS_def)
  ultimately show ?thesis using hm_free_keys [OF h5(2)] by simp
qed

theorem hashmap_main_passes_witness:
  "\<exists>freed. hashmap_main 26 (\<lambda>n. n \<le> 2 ^ 26 * sizeof_node) 1000 1004 1008 (\<lambda>i. 2000 + 4 * word_of_nat i) =
    Some (Inr freed) \<and> distinct freed \<and> set freed = insert (cstr ''item b'') (item_key ` {..<8000})"
  by (rule hashmap_main_passes) simp_all

end
