(* ===== verification/HashMapClaims.thy ===== *)
theory HashMapClaims
  imports HashMapProps HashMapMain
begin

text \<open>
  What holds of the operations of the hash map, and where they fall short: each theorem with a
  run of the operations on small maps at which its hypotheses hold.
\<close>

section \<open>Small maps\<close>

text \<open>Three keys, the first two with hash 0 and the third with hash 1.\<close>

lemma hm_set_at:
  "set_pos m k = Inr (Some (flg, t)) \<Longrightarrow> 0 < f \<Longrightarrow>
   Hashmap_set f alloc m k v = Some (store_at alloc m flg t k v (home m k))"
  by (cases f) simp_all

definition crowd_hash :: "bytes \<Rightarrow> u64" where
  "crowd_hash k = (if k = [3] then 1 else 0)"

definition crowd_node :: "u8 \<Rightarrow> ptr \<Rightarrow> map_node" where
  "crowd_node c v = \<lparr>n_key = [c], n_key_len = 1, n_value = v, n_hash = 0, n_status = NODE_OCCUPIED\<rparr>"

definition crowd0 :: "hashmap" where
  "crowd0 = Hashmap_new (\<lambda>_. True) crowd_hash"

definition crowd1 :: "hashmap" where
  "crowd1 = \<lparr>hm_cap = 8, hm_arr = Some (crowd_node 1 100 # replicate 7 zero_node),
     hm_hash = crowd_hash, hm_size = 1\<rparr>"

definition crowd2 :: "hashmap" where
  "crowd2 = \<lparr>hm_cap = 8,
     hm_arr = Some (crowd_node 1 100 # crowd_node 2 104 # replicate 6 zero_node),
     hm_hash = crowd_hash, hm_size = 2\<rparr>"

lemma zeros: "replicate 8 z = z # replicate 7 z" "replicate 7 z = z # replicate 6 z"
  by (simp_all add: numeral_eq_Suc)

lemma crowd0: "crowd0 = \<lparr>hm_cap = 8, hm_arr = Some (replicate 8 zero_node), hm_hash = crowd_hash, hm_size = 0\<rparr>"
  by (simp add: crowd0_def Hashmap_new_def STARTING_BUCKETS_def calloc_nodes_def sizeof_node_def)

lemmas run_defs = set_pos_def home_def crowd_hash_def probing_def node_at_def probe_node_def store_at_def
  memcmp_eq_def crowd_node_def filled_def node_set_def zero_node_def

lemma crowd_first: "Hashmap_set 57 (\<lambda>_. True) crowd0 [1] 100 = Some (Inr crowd1)"
proof -
  have "set_pos crowd0 [1] = Inr (Some (FOUND, 0))"
    by (simp add: run_defs crowd0)
  from hm_set_at [OF this, of 57] show ?thesis by (simp add: run_defs crowd1_def crowd0 zeros)
qed
lemma next_power_8: "next_power_of_2 8 = 8" by (simp add: next_power_of_2_def)
lemma probe_pos_8: "probe_pos 0 8 (Suc 0) = 1" by (simp add: probe_pos_def)

lemma crowd_second: "Hashmap_set 57 (\<lambda>_. True) crowd1 [2] 104 = Some (Inr crowd2)"
proof -
  have "set_pos crowd1 [2] = Inr (Some (FOUND, 1))"
    by (simp add: run_defs crowd1_def next_power_8 set_loop.simps [of _ _ _ _ "Suc 0"] probe_pos_8)
  from hm_set_at [OF this, of 57] show ?thesis by (simp add: run_defs crowd1_def crowd2_def zeros)
qed

lemma crowd2_post:
  "hm_good crowd2" "hm_hash crowd2 = crowd_hash"
  "hm_dict crowd2 = [[1] \<mapsto> 100, [2] \<mapsto> 104]" "no_tombs (hm_cells crowd2)"
proof -
  note new = Hashmap_new_good [of "\<lambda>_. True" crowd_hash, folded crowd0_def, OF TrueI]
  have p1: "set_post crowd0 [1] 100 crowd1"
    using new crowd_first by (intro hm_set_post) (auto simp: clean_for_def)
  then have p2: "set_post crowd1 [2] 104 crowd2"
    using new crowd_second by (intro hm_set_post) (auto simp: clean_for_def set_post_def)
  show "hm_good crowd2" "hm_hash crowd2 = crowd_hash" "hm_dict crowd2 = [[1] \<mapsto> 100, [2] \<mapsto> 104]"
    "no_tombs (hm_cells crowd2)"
    using p1 p2 new by (simp_all add: set_post_def)
qed

text \<open>The map after the first key is deleted: its slot is a tombstone in front of the second.\<close>

definition crowd3 :: "hashmap" where
  "crowd3 = crowd2\<lparr>hm_size := 1,
     hm_arr := Some (node_delete (crowd_node 1 100) # crowd_node 2 104 # replicate 6 zero_node)\<rparr>"

lemma crowd_delete: "Hashmap_delete crowd2 [1] = Inr (100, crowd3)"
  by (simp add: Hashmap_delete_def get_pos_def home_def crowd_hash_def probing2_def node_at_def
      probe2_node_def memcmp_eq_def crowd_node_def crowd2_def crowd3_def zeros)

lemma crowd3_good: "hm_good crowd3" "hm_dict crowd3 [2] = Some 104"
  using hm_delete_spec [OF crowd2_post(1), of "[1]"] by (simp_all add: crowd_delete crowd2_post(3))

lemma crowd3_set: "set_pos crowd3 [2] = Inr (Some (FOUND, 0))"
  by (simp add: run_defs crowd3_def crowd2_def node_delete_def)

section \<open>The operations\<close>

text \<open>C1: The hash map refines a finite map. After any history of insertions and deletions from
  \<open>Hashmap_new\<close> that returned, with each insertion of a key either new to the map or made while
  no slot is a tombstone, the invariant of the array holds, \<open>Hashmap_get\<close> finds for every key
  what the same history of updates and removals gives on a finite map (\<open>NULL\<close> where it is
  undefined there), and \<open>size\<close> counts its keys.\<close>

theorem hashmap_refines_map:
  assumes "history clean_for (hm_put alloc) hm_del (Hashmap_new alloc h) ops m" and "alloc (8 * sizeof_node)"
  shows "hm_inv m \<and>
    (\<forall>k. Hashmap_get m k = Inr (case foldl apply_op Map.empty ops k of None \<Rightarrow> NULL | Some v \<Rightarrow> v)) \<and>
    hm_size m = card (dom (foldl apply_op Map.empty ops))"
proof -
  have good: "hm_good m" and dict: "hm_dict m = foldl apply_op Map.empty ops"
    using hmd.history_law [OF assms(1)] Hashmap_new_good [of alloc h] assms(2) by auto
  then show ?thesis
    using hm_get_dict [OF good] hm_size_dom [OF good] by (simp add: hm_good_def)
qed

theorem hashmap_refines_map_witness:
  "Hashmap_get crowd3 [1] = Inr NULL \<and> Hashmap_get crowd3 [2] = Inr 104 \<and> hm_size crowd3 = 1"
proof -
  let ?ops = "[Put [1] 100, Put [2] 104, Del [1 :: u8]]"
  have "history clean_for (hm_put (\<lambda>_. True)) hm_del (Hashmap_new (\<lambda>_. True) crowd_hash) ?ops crowd3"
    unfolding crowd0_def [symmetric]
  proof (rule history_put [OF _ _ history_put [OF _ _ history_del [OF _ history_nil]]])
    show "clean_for crowd0 [1]" "clean_for crowd1 [2]"
      by (simp_all add: clean_for_def no_tombs_def hm_cells_def crowd0 crowd1_def zero_node_def crowd_node_def)
    show "hm_put (\<lambda>_. True) crowd0 [1] 100 crowd1" "hm_put (\<lambda>_. True) crowd1 [2] 104 crowd2"
      using crowd_first crowd_second by (simp_all add: hm_put_def)
    show "hm_del crowd2 [1] crowd3" using crowd_delete by (simp add: hm_del_def)
  qed
  from hashmap_refines_map [OF this TrueI] show ?thesis by (simp add: insert_Diff_if)
qed

text \<open>C26: Insertion into any map of the invariant, tombstones and duplicates included: when
  \<open>Hashmap_set\<close> returns, the invariant holds again, the capacity has not shrunk and
  \<open>Hashmap_get\<close> of the key gives the value just stored.\<close>

theorem hashmap_set_then_get:
  assumes "hm_inv m" and "Hashmap_set fuel alloc m k v = Some (Inr m')"
  shows "hm_inv m' \<and> Hashmap_get m' k = Inr v \<and> hm_cap m \<le> hm_cap m'"
  using hm_set_inv [OF assms] by blast

theorem hashmap_set_then_get_witness: "hm_inv crowd2 \<and> Hashmap_get crowd2 [2] = Inr 104"
proof -
  note new = Hashmap_new_good [of "\<lambda>_. True" crowd_hash, folded crowd0_def, OF TrueI]
  have "hm_inv crowd1"
    using new(1) hm_set_inv [OF _ crowd_first] by (simp add: hm_good_def)
  from hashmap_set_then_get [OF this crowd_second] show ?thesis by blast
qed

text \<open>C27: Insertion always comes to an end. From any map of the invariant a recursion depth of 57
  is enough: \<open>Hashmap_set\<close> returns a map or dereferences the \<open>NULL\<close> that an unchecked
  \<open>calloc\<close> or \<open>malloc\<close> gave; it never reads or writes outside the array.\<close>

theorem hashmap_set_returns:
  assumes "hm_inv m" and "57 \<le> fuel"
  shows "Hashmap_set fuel alloc m k v = Some (Inl NullDeref) \<or>
    (\<exists>m'. Hashmap_set fuel alloc m k v = Some (Inr m'))"
proof -
  obtain j where j: "3 \<le> j" "hm_cap m = 2 ^ j" using assms(1) by (rule hm_invE) blast
  have "(2::nat) ^ 60 \<le> 2 ^ (j + fuel)" using j(1) assms(2) by (intro power_increasing) auto
  then show ?thesis using hm_set_total [OF assms(1)] j(2) by (simp add: power_add)
qed

theorem hashmap_set_returns_witness:
  "Hashmap_set 57 (\<lambda>n. n \<le> 8) crowd2 [3] 7 = Some (Inl NullDeref) \<or>
    (\<exists>m'. Hashmap_set 57 (\<lambda>n. n \<le> 8) crowd2 [3] 7 = Some (Inr m'))"
  using hashmap_set_returns [of crowd2 57 "\<lambda>n. n \<le> 8" "[3]" 7] crowd2_post(1) by (simp add: hm_good_def)


text \<open>
  Insertion succeeds where the hashes tell the keys apart. If no two keys of a set have
  hashes that agree modulo \<open>2 ^ K\<close>, the map holds only keys of the set, has no tombstone and is
  no larger than \<open>2 ^ K\<close>, and the allocator gives arrays up to that size and a copy of every key
  of the set, then \<open>Hashmap_set\<close> of a
  key of the set stores it, with every other key unchanged, and never grows beyond \<open>2 ^ K\<close>.\<close>

theorem hashmap_set_succeeds:
  assumes "3 \<le> K" "K \<le> 58" and "\<And>n. n \<le> 2 ^ K * sizeof_node \<Longrightarrow> alloc n"
    and "\<And>k. k \<in> D \<Longrightarrow> alloc (length k)"
    and "inj_on (\<lambda>k. unat (hm_hash m k) mod 2 ^ K) D"
    and "hm_good m" "no_tombs (hm_cells m)" "hm_cap m \<le> 2 ^ K" "dom (hm_dict m) \<subseteq> D" "k \<in> D"
    and "57 \<le> fuel"
  shows "\<exists>m'. Hashmap_set fuel alloc m k v = Some (Inr m') \<and> hm_cap m' \<le> 2 ^ K \<and>
    hm_good m' \<and> no_tombs (hm_cells m') \<and> hm_dict m' = (hm_dict m)(k \<mapsto> v)"
proof -
  have "hm_inv m" using assms(6) by (simp add: hm_good_def)
  then obtain j where j: "3 \<le> j" "hm_cap m = 2 ^ j" by (rule hm_invE) blast
  then have "j \<le> K" using assms(8) by simp
  then obtain m' where m': "Hashmap_set fuel alloc m k v = Some (Inr m')" "hm_cap m' \<le> 2 ^ K"
    using hm_set_spread [where f = fuel and v = v and alloc = alloc,
        OF assms(1-6) _ j(2) _ _ assms(9,10)] assms(2,7,11) j(1) by auto
  have "set_post m k v m'" using hm_set_post [OF assms(6) _ m'(1)] assms(7) by (simp add: clean_for_def)
  then show ?thesis using m' assms(7) by (auto simp: set_post_def)
qed

theorem hashmap_set_succeeds_witness:
  "\<exists>m'. Hashmap_set 57 (\<lambda>n. n \<le> 8 * sizeof_node) (Hashmap_new (\<lambda>_. True) (\<lambda>k. if k = [] then 5 else 3)) [] 9 =
      Some (Inr m') \<and> hm_cap m' \<le> 2 ^ 3 \<and> hm_good m' \<and> no_tombs (hm_cells m') \<and>
      hm_dict m' = [[] \<mapsto> 9]"
proof -
  let ?h = "\<lambda>k :: bytes. if k = [] then 5 else 3 :: u64"
  note new = Hashmap_new_good [of "\<lambda>_. True" ?h, OF TrueI]
  have "inj_on (\<lambda>k. unat (?h k) mod 2 ^ 3) {[], [1]}" by simp
  moreover have "length k \<le> 8 * sizeof_node" if "k \<in> {[], [1]}" for k :: bytes
    using that by (auto simp: sizeof_node_def)
  ultimately show ?thesis
    using hashmap_set_succeeds [of 3 "\<lambda>n. n \<le> 8 * sizeof_node" "{[], [1]}" "Hashmap_new (\<lambda>_. True) ?h" "[]" 57 9] new
    by simp
qed

text \<open>
  Deletion removes exactly its key. On a map that stores no key twice,
  \<open>Hashmap_delete\<close> returns the value stored under the key, or \<open>NULL\<close> and the same dictionary
  where there is none, the invariant holds again, and a lookup of the key then gives \<open>NULL\<close>.\<close>

theorem hashmap_delete_removes:
  assumes "hm_good m"
  shows "\<exists>m'. Hashmap_delete m k = Inr (case hm_dict m k of None \<Rightarrow> NULL | Some v \<Rightarrow> v, m') \<and>
    hm_good m' \<and> hm_dict m' = (hm_dict m)(k := None) \<and> Hashmap_get m' k = Inr NULL \<and>
    hm_size m' = hm_size m - (if hm_dict m k = None then 0 else 1)"
proof -
  obtain m' where m': "Hashmap_delete m k = Inr (case hm_dict m k of None \<Rightarrow> NULL | Some v \<Rightarrow> v, m')"
      "hm_good m'" "hm_dict m' = (hm_dict m)(k := None)"
    using hm_delete_spec [OF assms] by blast
  have "hm_size m' = hm_size m - (if hm_dict m k = None then 0 else 1)"
    using hm_size_dom [OF assms] hm_size_dom [OF m'(2)] m'(3)
    by (cases "k \<in> dom (hm_dict m)") (auto simp: domIff)
  then show ?thesis using m' hm_get_dict [OF m'(2), of k] by auto
qed

theorem hashmap_delete_removes_witness:
  "\<exists>m'. Hashmap_delete crowd2 [1] = Inr (100, m') \<and> hm_good m' \<and> hm_dict m' = [[2] \<mapsto> 104] \<and>
    Hashmap_get m' [1] = Inr NULL \<and> hm_size m' = hm_size crowd2 - 1"
proof -
  have "[[1 :: u8] \<mapsto> 100 :: ptr, [2] \<mapsto> 104]([1] := None) = [[2] \<mapsto> 104]" by (simp add: fun_eq_iff)
  then show ?thesis using hashmap_delete_removes [OF crowd2_post(1), of "[1]"] by (simp add: crowd2_post(3))
qed

text \<open>C39: On a map that stores no key twice, a deleted key can come back with an old value. \<open>probing\<close> takes a tombstone of the same
  home position before it has looked whether the key is stored further on, so the key is then
  stored twice; the next \<open>Hashmap_delete\<close> of that key removes the new value only, and
  \<open>Hashmap_get\<close> finds the old one.\<close>

theorem hashmap_stale_value:
  assumes "hm_good m" and "hm_dict m k = Some old"
    and "set_pos m k = Inr (Some (FOUND, p))"
    and "Hashmap_set (Suc fuel) alloc m k new = Some (Inr m1)"
  shows "Hashmap_get m1 k = Inr new \<and>
    (\<exists>m2. Hashmap_delete m1 k = Inr (new, m2) \<and> Hashmap_get m2 k = Inr old)"
  using stale_copy [OF assms] hm_set_inv [OF _ assms(4)] assms(1) by (simp add: hm_good_def)

theorem hashmap_stale_value_witness:
  "\<exists>m1 m2. Hashmap_set (Suc 56) (\<lambda>_. True) crowd3 [2] 200 = Some (Inr m1) \<and>
    Hashmap_delete m1 [2] = Inr (200, m2) \<and> Hashmap_get m2 [2] = Inr 104"
proof -
  obtain m1 where m1: "Hashmap_set (Suc 56) (\<lambda>_. True) crowd3 [2] 200 = Some (Inr m1)"
    using hm_set_at [OF crowd3_set, of "Suc 56"]
    by (simp add: store_at_def node_set_def node_at_def crowd3_def crowd2_def del: Hashmap_set.simps)
  from hashmap_stale_value [OF crowd3_good crowd3_set m1] m1 show ?thesis by blast
qed

text \<open>C38: Three keys that no hash map can hold. Where two keys of a map that stores no key twice have
  hash 0 and a third one, new to the map or with no slot a tombstone, hash 1, the second slot of the first two is the home slot of the third at every capacity:
  inserting the third doubles the array until an allocation gives \<open>NULL\<close>, \<open>calloc\<close>'s at the latest
  when the size no longer fits \<open>size_t\<close>, and the \<open>NULL\<close> is then dereferenced.\<close>

theorem hashmap_three_keys_crash:
  assumes "hm_good m" and "hm_dict m k1 \<noteq> None" and "hm_dict m k2 \<noteq> None" and "k1 \<noteq> k2"
    and "hm_hash m k1 = 0" and "hm_hash m k2 = 0" and "hm_hash m k3 = 1"
    and "clean_for m k3" and "57 \<le> fuel"
  shows "Hashmap_set fuel alloc m k3 v = Some (Inl NullDeref)"
proof -
  have inv: "hm_inv m" using assms(1) by (simp add: hm_good_def)
  obtain j where j: "3 \<le> j" "hm_cap m = 2 ^ j" using inv by (rule hm_invE) blast
  have "(2::nat) ^ 60 \<le> 2 ^ (j + fuel)" using j(1) assms(9) by (intro power_increasing) auto
  then have "Hashmap_set fuel alloc m k3 v = Some (Inl NullDeref) \<or>
      (\<exists>m'. Hashmap_set fuel alloc m k3 v = Some (Inr m'))"
    using hm_set_total [OF inv] j(2) by (simp add: power_add)
  moreover have False if "Hashmap_set fuel alloc m k3 v = Some (Inr m')" for m'
  proof -
    have post: "set_post m k3 v m'" using hm_set_post [OF assms(1,8) that] .
    have stored: "\<exists>p. holds_key (hm_cells m') k p" if "k = k3 \<or> hm_dict m k \<noteq> None" for k
      using post that cells_dict_None [of "hm_cells m'" k]
      by (auto simp: set_post_def hm_dict_def split: if_splits)
    show False
      using stored [of k1] stored [of k2] stored [of k3] assms(2-7) post no_room_for_three [of m' k1 _ k2 _ k3]
      by (auto simp: set_post_def hm_good_def)
  qed
  ultimately show ?thesis by blast
qed

theorem hashmap_three_keys_crash_witness:
  "Hashmap_set 57 (\<lambda>_. True) crowd2 [3] 7 = Some (Inl NullDeref)"
  by (rule hashmap_three_keys_crash [where ?k1.0 = "[1]" and ?k2.0 = "[2]"])
    (simp_all add: crowd2_post crowd_hash_def clean_for_def)


section \<open>The arithmetic\<close>

text \<open>C40: The probe sequence. At a capacity \<open>2 ^ j\<close> the positions probed after the home position
  \<open>hv\<close> are all slots except \<open>hv div 2\<close>: the shift applies to the whole sum, so the triangular
  steps start at half the home position and never come back to it.\<close>

theorem probe_positions:
  assumes "1 \<le> j" "j \<le> 63" and "hv < 2 ^ j"
  shows "probe_pos hv (2 ^ j) ` {1..2 ^ j} = {0..<2 ^ j} - {hv div 2}"
proof -
  have "probe_pos hv (2 ^ j) = ppos hv (2 ^ j)"
    using probe_pos_eq [OF refl assms(2)] by (simp add: fun_eq_iff)
  then show ?thesis using ppos_image [OF refl assms(1,3)] by simp
qed

theorem probe_positions_witness: "probe_pos 5 (2 ^ 3) ` {1..2 ^ 3} = {0, 1, 3, 4, 5, 6, 7}"
proof -
  have "{0..<2 ^ 3} - {5 div 2} = {0, 1, 3, 4, 5, 6, 7 :: nat}"
    by (simp add: set_eq_iff) presburger
  then show ?thesis using probe_positions [of 3 5] by simp
qed

text \<open>
  \<open>next_power_of_2\<close> gives the least power of two that is not smaller, for every
  argument from 1 to \<open>2 ^ 63\<close>.\<close>

theorem next_power_of_2_least:
  assumes "1 \<le> unat n" and "unat n \<le> 2 ^ 63"
  shows "\<exists>k. unat (next_power_of_2 n) = 2 ^ k \<and> unat n \<le> 2 ^ k \<and> (\<forall>i. unat n \<le> 2 ^ i \<longrightarrow> k \<le> i)"
proof (cases "unat n = 1")
  case True
  then have "n = word_of_nat (2 ^ 0)" by (simp add: word_unat_eq_iff)
  then show ?thesis using next_power_of_2_power [of 0] True by (intro exI [of _ 0]) simp
next
  case False
  define k where "k = (LEAST k. unat n \<le> 2 ^ Suc k)"
  have ex: "unat n \<le> 2 ^ Suc 62" using assms(2) by simp
  have hi: "unat n \<le> 2 ^ Suc k" unfolding k_def by (rule LeastI) (rule ex)
  have k62: "k \<le> 62" unfolding k_def by (rule Least_le) (rule ex)
  have lo: "2 ^ k < unat n"
  proof (cases k)
    case 0
    then show ?thesis using False assms(1) by simp
  next
    case (Suc i)
    then show ?thesis using not_less_Least [of i "\<lambda>k. unat n \<le> 2 ^ Suc k"] by (simp add: k_def)
  qed
  have "Suc k \<le> i" if "unat n \<le> 2 ^ i" for i
  proof -
    have "(2::nat) ^ k < 2 ^ i" using lo that by linarith
    then show ?thesis by simp
  qed
  then show ?thesis using next_power_of_2_between [OF lo hi] k62 hi by (intro exI [of _ "Suc k"]) simp
qed

theorem next_power_of_2_least_witness:
  "\<exists>k. unat (next_power_of_2 9) = 2 ^ k \<and> 9 \<le> (2::nat) ^ k \<and> (\<forall>i. 9 \<le> (2::nat) ^ i \<longrightarrow> k \<le> i)"
  using next_power_of_2_least [of 9] by simp

text \<open>
  \<open>djb2\<close> in closed form: over the bytes before the first zero, read as signed
  characters, it is the value of the polynomial with base 33 that starts at 5381, modulo
  \<open>2 ^ 64\<close>; so it does not depend on what follows the zero byte.\<close>

theorem djb2_polynomial:
  "djb2 key = word_of_int (foldl (\<lambda>h c. 33 * h + sint c) 5381 (takeWhile (\<lambda>c. c \<noteq> 0) key))"
  using djb2_from_int [of 5381 key] by (simp add: djb2_def djb2_int_def)

end
