(* ===== verification/Merging.thy ===== *)
theory Merging
  imports Prelude
begin

text \<open>
  Ranges of an array, and the interface between the two sorting programs and their \<open>merge\<close>:
  what a function that merges two sorted lists promises, and what follows for the range of an
  array that it replaces.
\<close>

definition seg :: "'a list \<Rightarrow> nat \<Rightarrow> nat \<Rightarrow> 'a list" where
  "seg xs a b = take (b - a) (drop a xs)"

definition put_seg :: "'a list \<Rightarrow> nat \<Rightarrow> 'a list \<Rightarrow> 'a list" where
  "put_seg xs a ys = take a xs @ ys @ drop (a + length ys) xs"

lemma length_seg [simp]: "b \<le> length xs \<Longrightarrow> length (seg xs a b) = b - a"
  by (simp add: seg_def)

lemma length_put_seg [simp]: "a + length ys \<le> length xs \<Longrightarrow> length (put_seg xs a ys) = length xs"
  by (simp add: put_seg_def)

lemma seg_empty [simp]: "b \<le> a \<Longrightarrow> seg xs a b = []"
  by (simp add: seg_def)

lemma seg_all [simp]: "length xs \<le> b \<Longrightarrow> seg xs 0 b = xs"
  by (simp add: seg_def)

lemma seg_Cons: "a < b \<Longrightarrow> b \<le> length xs \<Longrightarrow> seg xs a b = xs ! a # seg xs (Suc a) b"
  by (simp add: seg_def Cons_nth_drop_Suc [symmetric] Suc_diff_Suc [symmetric])

lemma seg_snoc: "a \<le> b \<Longrightarrow> b < length xs \<Longrightarrow> seg xs a (Suc b) = seg xs a b @ [xs ! b]"
  by (simp add: seg_def Suc_diff_le take_Suc_conv_app_nth)

lemma seg_split: "a \<le> b \<Longrightarrow> b \<le> c \<Longrightarrow> seg xs a c = seg xs a b @ seg xs b c"
proof -
  assume "a \<le> b" "b \<le> c"
  then have e: "(b - a) + (c - b) = c - a" "b - a + a = b" by simp_all
  then show ?thesis
    using take_add [of "b - a" "c - b" "drop a xs"] unfolding seg_def e(1) drop_drop e(2) by simp
qed

lemma nth_put_seg:
  "a + length ys \<le> length xs \<Longrightarrow> i < length xs \<Longrightarrow>
   put_seg xs a ys ! i = (if a \<le> i \<and> i < a + length ys then ys ! (i - a) else xs ! i)"
  by (auto simp: put_seg_def nth_append)

lemma seg_put_seg_same: "a + length ys \<le> length xs \<Longrightarrow> seg (put_seg xs a ys) a (a + length ys) = ys"
  by (simp add: seg_def put_seg_def)

lemma seg_put_seg_before: "b \<le> a \<Longrightarrow> a + length ys \<le> length xs \<Longrightarrow> seg (put_seg xs a ys) c b = seg xs c b"
  by (rule nth_equalityI) (auto simp: seg_def put_seg_def nth_append)

lemma seg_put_seg_after:
  "a + length ys \<le> c \<Longrightarrow> a + length ys \<le> length xs \<Longrightarrow> seg (put_seg xs a ys) c b = seg xs c b"
  by (simp add: seg_def put_seg_def) 

lemma put_seg_update:
  "a + length ys < length xs \<Longrightarrow> (put_seg xs a ys)[a + length ys := y] = put_seg xs a (ys @ [y])"
  by (simp add: put_seg_def list_update_append drop_update_swap Cons_nth_drop_Suc [symmetric])

lemma put_seg_Cons:
  "a + length ys < length xs \<Longrightarrow> put_seg (xs[a := y]) (Suc a) ys = put_seg xs a (y # ys)"
  by (simp add: put_seg_def take_Suc_conv_app_nth)

lemma put_seg_Nil [simp]: "put_seg xs a [] = xs"
  by (simp add: put_seg_def)

text \<open>The contract of a merging function.\<close>

locale merger =
  fixes mrg :: "'a :: linorder list \<Rightarrow> 'a list \<Rightarrow> 'a list"
  assumes mrg_mset: "mset (mrg xs ys) = mset xs + mset ys"
    and mrg_sorted: "sorted xs \<Longrightarrow> sorted ys \<Longrightarrow> sorted (mrg xs ys)"
begin

lemma mrg_length [simp]: "length (mrg xs ys) = length xs + length ys"
  by (metis mrg_mset size_mset size_union)

lemma mrg_segs:
  assumes "a \<le> m" "m \<le> b" "b \<le> length xs"
    and "sorted (seg xs a m)" "sorted (seg xs m b)"
  shows "sorted (mrg (seg xs a m) (seg xs m b)) \<and>
    mset (mrg (seg xs a m) (seg xs m b)) = mset (seg xs a b) \<and>
    length (mrg (seg xs a m) (seg xs m b)) = b - a"
  using assms by (simp add: mrg_mset mrg_sorted seg_split [of a m b])

end

end
