(* ===== verification/ThreadSort.thy ===== *)
theory ThreadSort
  imports Merging
begin

text \<open>
  The multi-threaded merge sort of
  \<open>05-operating-systems/03-threads-concurrency-and-scheduling/02-multi-threaded-mergesort/mergesort.c\<close>.
  A configuration is the array and the tree of calls that are running on ranges of it; one step
  is the start of a call, a join, or one element read or written by a \<open>merge\<close>, and the steps of
  a thread and of the call that started it interleave freely. \<open>malloc\<close> and \<open>pthread_create\<close>
  are taken to succeed, as the code does not look at their results.
\<close>

section \<open>The calls\<close>

text \<open>
  \<open>TSort b n t\<close> is a call \<open>sort(arr + b, n, t)\<close> about to start. \<open>TPar\<close> and \<open>TSeq\<close> are a call that
  has split its range at \<open>border\<close>, the left half in a thread of its own or before the right half.
  \<open>TMerge\<close> is the first loop of \<open>merge\<close> with its \<open>left\<close>, \<open>right\<close> and what it has written to \<open>x\<close>,
  \<open>TCopy\<close> the second loop. \<open>TFault\<close> is an access outside the array.
\<close>

datatype task =
    TSort nat nat nat
  | TPar task task nat nat nat
  | TSeq task task nat nat nat
  | TMerge nat nat nat nat nat "int list"
  | TCopy nat nat nat "int list"
  | TDone
  | TFault

text \<open>One round of the first loop of \<open>merge\<close>: the element copied and the new \<open>left\<close>, \<open>right\<close>.\<close>

definition merge_pick :: "int list \<Rightarrow> nat \<Rightarrow> nat \<Rightarrow> nat \<Rightarrow> nat \<Rightarrow> nat \<Rightarrow> (int \<times> nat \<times> nat) res" where
  "merge_pick a b n border left right =
     (if right = n then andthen (rd a (b + left)) (\<lambda>v. Inr (v, Suc left, right))
      else if left = border then andthen (rd a (b + right)) (\<lambda>v. Inr (v, left, Suc right))
      else andthen (rd a (b + right)) (\<lambda>y. andthen (rd a (b + left)) (\<lambda>x.
        if y < x then Inr (y, left, Suc right) else Inr (x, Suc left, right))))"

text \<open>The field \<open>int n\<close> of the context: a size goes through 32 signed bits.\<close>

definition int_field :: "nat \<Rightarrow> nat" where
  "int_field n = unat (scast (word_of_nat n :: u32) :: u64)"

definition split_at :: "nat \<Rightarrow> nat \<Rightarrow> nat" where
  "split_at n tcnt = (if tcnt > 2 then n div tcnt else n div 2)"

definition rest_tcnt :: "nat \<Rightarrow> nat" where
  "rest_tcnt tcnt = (if tcnt > 2 then tcnt - 1 else 1)"

inductive tstep :: "int list \<times> task \<Rightarrow> int list \<times> task \<Rightarrow> bool" where
  sort_small: "n < 2 \<Longrightarrow> tstep (a, TSort b n t) (a, TDone)"
| sort_fork: "2 \<le> n \<Longrightarrow> 1 < t \<Longrightarrow> d = split_at n t \<Longrightarrow>
    tstep (a, TSort b n t)
      (a, TPar (TSort b (int_field d) 1) (TSort (b + d) (n - d) (rest_tcnt t)) b n d)"
| sort_call: "2 \<le> n \<Longrightarrow> t \<le> 1 \<Longrightarrow> d = split_at n t \<Longrightarrow>
    tstep (a, TSort b n t)
      (a, TSeq (TSort b d 1) (TSort (b + d) (n - d) (rest_tcnt t)) b n d)"
| par_thread: "tstep (a, l) (a', l') \<Longrightarrow> tstep (a, TPar l r b n d) (a', TPar l' r b n d)"
| par_caller: "tstep (a, r) (a', r') \<Longrightarrow> tstep (a, TPar l r b n d) (a', TPar l r' b n d)"
| par_join: "tstep (a, TPar TDone TDone b n d) (a, TMerge b n d 0 d [])"
| seq_left: "tstep (a, l) (a', l') \<Longrightarrow> tstep (a, TSeq l r b n d) (a', TSeq l' r b n d)"
| seq_right: "tstep (a, r) (a', r') \<Longrightarrow> tstep (a, TSeq TDone r b n d) (a', TSeq TDone r' b n d)"
| seq_join: "tstep (a, TSeq TDone TDone b n d) (a, TMerge b n d 0 d [])"
| merge_round: "length x < n \<Longrightarrow> merge_pick a b n d left right = Inr (v, left', right') \<Longrightarrow>
    tstep (a, TMerge b n d left right x) (a, TMerge b n d left' right' (x @ [v]))"
| merge_fault: "length x < n \<Longrightarrow> merge_pick a b n d left right = Inl e \<Longrightarrow>
    tstep (a, TMerge b n d left right x) (a, TFault)"
| merge_copied: "length x = n \<Longrightarrow> tstep (a, TMerge b n d left right x) (a, TCopy b n 0 x)"
| copy_round: "i < n \<Longrightarrow> rd x i = Inr v \<Longrightarrow> wr a (b + i) v = Inr a' \<Longrightarrow>
    tstep (a, TCopy b n i x) (a', TCopy b n (Suc i) x)"
| copy_fault: "i < n \<Longrightarrow> rd x i = Inl e \<or> wr a (b + i) (x ! i) = Inl e \<Longrightarrow>
    tstep (a, TCopy b n i x) (a, TFault)"
| copy_end: "\<not> i < n \<Longrightarrow> tstep (a, TCopy b n i x) (a, TDone)"

section \<open>The processor a thread is given\<close>

text \<open>
  The loop of \<open>mt_sort\<close>, over the processors the caller may use: \<open>cupno\<close> from 0 on, \<open>mod\<close> a
  \<open>size_t\<close> that is decremented in every round.
\<close>

definition CPU_SETSIZE :: nat where
  "CPU_SETSIZE = 1024"

function pick_cpu :: "(nat \<Rightarrow> bool) \<Rightarrow> nat \<Rightarrow> u64 \<Rightarrow> nat" where
  "pick_cpu isset cupno m =
     (if cupno < CPU_SETSIZE
      then (if isset cupno \<and> m = 0 then cupno else pick_cpu isset (Suc cupno) (m - 1))
      else cupno)"
  by pat_completeness auto
termination
  by (relation "measure (\<lambda>(isset, cupno, m). CPU_SETSIZE - cupno)") auto

declare pick_cpu.simps [simp del]

definition mt_sort_cpu :: "(nat \<Rightarrow> bool) \<Rightarrow> nat \<Rightarrow> nat" where
  "mt_sort_cpu isset tcnt = pick_cpu isset 0 (word_of_nat (tcnt mod card {c. c < CPU_SETSIZE \<and> isset c}))"

text \<open>The set that \<open>routine\<close> passes to \<open>pthread_setaffinity_np\<close>: \<open>CPU_ISSET\<close> only reads.\<close>

definition CPU_ISSET :: "nat \<Rightarrow> nat set \<Rightarrow> bool" where
  "CPU_ISSET c s \<longleftrightarrow> c < CPU_SETSIZE \<and> c \<in> s"

definition routine_mask :: "nat \<Rightarrow> nat set" where
  "routine_mask cupno = (let set = {} in let _ = CPU_ISSET cupno set in set)"

section \<open>The check of the test program\<close>

fun report_status :: "int list \<Rightarrow> nat list \<Rightarrow> nat res" where
  "report_status a [] = Inr 0"
| "report_status a (i # is) =
     andthen (rd a i) (\<lambda>x. andthen (rd a (Suc i)) (\<lambda>y. if x > y then Inr 1 else report_status a is))"

definition sort_status :: "int list \<Rightarrow> nat res" where
  "sort_status a = report_status a [0..<length a - 1]"

section \<open>Merging, the element of the left part first where the two are equal\<close>

fun merge_left :: "int list \<Rightarrow> int list \<Rightarrow> int list" where
  "merge_left (x # xs) (y # ys) =
     (if y < x then y # merge_left (x # xs) ys else x # merge_left xs (y # ys))"
| "merge_left [] ys = ys"
| "merge_left xs [] = xs"

lemma merge_left_Nil [simp]: "merge_left xs [] = xs"
  by (cases xs) simp_all

lemma set_merge_left: "set (merge_left xs ys) = set xs \<union> set ys"
  by (induction xs ys rule: merge_left.induct) auto

interpretation ml: merger merge_left
proof
  show "mset (merge_left xs ys) = mset xs + mset ys" for xs ys
    by (induction xs ys rule: merge_left.induct) auto
  show "sorted xs \<Longrightarrow> sorted ys \<Longrightarrow> sorted (merge_left xs ys)" for xs ys
    by (induction xs ys rule: merge_left.induct) (auto simp: set_merge_left)
qed

section \<open>The invariant of a call\<close>

text \<open>The task \<open>t\<close> works for the range from \<open>b\<close> of \<open>n\<close> elements, whose multiset was \<open>M\<close>.\<close>

fun tok :: "task \<Rightarrow> nat \<Rightarrow> nat \<Rightarrow> int multiset \<Rightarrow> int list \<Rightarrow> bool" where
  "tok (TSort b' n' t) b n M a \<longleftrightarrow> b' = b \<and> n' = n \<and> mset (seg a b (b + n)) = M"
| "tok (TPar l r b' n' d) b n M a \<longleftrightarrow> b' = b \<and> n' = n \<and> d \<le> n \<and>
     (\<exists>Ml Mr. M = Ml + Mr \<and> tok l b d Ml a \<and> tok r (b + d) (n - d) Mr a)"
| "tok (TSeq l r b' n' d) b n M a \<longleftrightarrow> b' = b \<and> n' = n \<and> d \<le> n \<and>
     (\<exists>Ml Mr. M = Ml + Mr \<and> tok l b d Ml a \<and> tok r (b + d) (n - d) Mr a)"
| "tok (TMerge b' n' d left right x) b n M a \<longleftrightarrow> b' = b \<and> n' = n \<and> left \<le> d \<and> d \<le> right \<and> right \<le> n \<and>
     length x + d = left + right \<and>
     sorted (x @ merge_left (seg a (b + left) (b + d)) (seg a (b + right) (b + n))) \<and>
     mset (x @ merge_left (seg a (b + left) (b + d)) (seg a (b + right) (b + n))) = M"
| "tok (TCopy b' n' i x) b n M a \<longleftrightarrow> b' = b \<and> n' = n \<and> length x = n \<and> sorted x \<and> mset x = M \<and>
     i \<le> n \<and> seg a b (b + i) = take i x"
| "tok TDone b n M a \<longleftrightarrow> sorted (seg a b (b + n)) \<and> mset (seg a b (b + n)) = M"
| "tok TFault b n M a \<longleftrightarrow> False"

definition agree :: "int list \<Rightarrow> int list \<Rightarrow> nat \<Rightarrow> nat \<Rightarrow> bool" where
  "agree a a' b n \<longleftrightarrow> length a' = length a \<and> (\<forall>i. b \<le> i \<and> i < b + n \<longrightarrow> a' ! i = a ! i)"

lemma agree_seg: "agree a a' b n \<Longrightarrow> b \<le> c \<Longrightarrow> e \<le> b + n \<Longrightarrow> seg a' c e = seg a c e"
  unfolding agree_def seg_def by (rule nth_equalityI) auto

lemma agree_sub: "agree a a' b n \<Longrightarrow> b \<le> c \<Longrightarrow> c + k \<le> b + n \<Longrightarrow> agree a a' c k"
  by (auto simp: agree_def)

lemma tok_frame: "agree a a' b n \<Longrightarrow> tok t b n M a \<Longrightarrow> tok t b n M a'"
proof (induction t arbitrary: b n M)
  case (TPar l r b' n' d)
  then obtain Ml Mr where t: "b' = b" "n' = n" "d \<le> n" "M = Ml + Mr" "tok l b d Ml a"
      "tok r (b + d) (n - d) Mr a" by auto
  have "tok l b d Ml a'" "tok r (b + d) (n - d) Mr a'"
    using TPar.IH t agree_sub [OF TPar.prems(1)] by auto
  then show ?case using t by auto
next
  case (TSeq l r b' n' d)
  then obtain Ml Mr where t: "b' = b" "n' = n" "d \<le> n" "M = Ml + Mr" "tok l b d Ml a"
      "tok r (b + d) (n - d) Mr a" by auto
  have "tok l b d Ml a'" "tok r (b + d) (n - d) Mr a'"
    using TSeq.IH t agree_sub [OF TSeq.prems(1)] by auto
  then show ?case using t by auto
qed (simp_all add: agree_seg)


section \<open>Every step keeps it\<close>

lemma split_at_bounds: "2 \<le> n \<Longrightarrow> split_at n t \<le> n div 2 \<and> split_at n t < n"
proof -
  assume n: "2 \<le> n"
  have "t > 2 \<Longrightarrow> n div t \<le> n div 2" by (rule div_le_mono2) auto
  then show ?thesis using n by (auto simp: split_at_def)
qed

lemma int_field_small: "n < 2 ^ 31 \<Longrightarrow> int_field n = n"
proof -
  assume n: "n < 2 ^ 31"
  have "scast (word_of_nat n :: u32) = (word_of_nat n :: u64)"
    by (simp only: scast_eq sint_word_of_nat32 [OF n] of_int_of_nat_eq)
  then show ?thesis using n by (simp add: int_field_def unsigned_of_nat take_bit_nat_eq_self)
qed

lemma pick_ok:
  assumes "d \<le> n" "left \<le> d" "d \<le> right" "right \<le> n" "length x + d = left + right" "length x < n"
    and "b + n \<le> length a"
  shows "\<exists>v left' right'. merge_pick a b n d left right = Inr (v, left', right') \<and>
    left' \<le> d \<and> d \<le> right' \<and> right' \<le> n \<and> Suc (length x) + d = left' + right' \<and>
    merge_left (seg a (b + left) (b + d)) (seg a (b + right) (b + n)) =
      v # merge_left (seg a (b + left') (b + d)) (seg a (b + right') (b + n))"
proof -
  have L: "left < d \<Longrightarrow> seg a (b + left) (b + d) = a ! (b + left) # seg a (Suc (b + left)) (b + d)"
    and R: "right < n \<Longrightarrow> seg a (b + right) (b + n) = a ! (b + right) # seg a (Suc (b + right)) (b + n)"
    using assms by (simp_all add: seg_Cons)
  consider "right = n" | "right < n" "left = d" | "right < n" "left < d" using assms by linarith
  then show ?thesis
  proof cases
    case 1
    then have "left < d" using assms by linarith
    then show ?thesis using 1 L assms by (simp add: merge_pick_def)
  next
    case 2
    then show ?thesis using R assms by (simp add: merge_pick_def)
  next
    case 3
    then show ?thesis using L R assms by (simp add: merge_pick_def)
  qed
qed

lemma agree_refl [simp]: "agree a a b n"
  by (simp add: agree_def)

lemma agree_trans: "agree a a' b n \<Longrightarrow> agree a' a'' b n \<Longrightarrow> agree a a'' b n"
  by (simp add: agree_def)

text \<open>A step of a task changes no element outside its range.\<close>

definition outside_same :: "int list \<Rightarrow> int list \<Rightarrow> nat \<Rightarrow> nat \<Rightarrow> bool" where
  "outside_same a a' b n \<longleftrightarrow> length a' = length a \<and> (\<forall>i. i < b \<or> b + n \<le> i \<longrightarrow> a' ! i = a ! i)"

lemma outside_agree_before: "outside_same a a' b n \<Longrightarrow> c + k \<le> b \<Longrightarrow> agree a a' c k"
  and outside_agree_after: "outside_same a a' b n \<Longrightarrow> b + n \<le> c \<Longrightarrow> agree a a' c k"
  by (auto simp: outside_same_def agree_def)

lemma outside_mono: "outside_same a a' c k \<Longrightarrow> b \<le> c \<Longrightarrow> c + k \<le> b + n \<Longrightarrow> outside_same a a' b n"
  by (auto simp: outside_same_def)

lemma join_ok:
  assumes "tok TDone b d Ml a" "tok TDone (b + d) (n - d) Mr a" "d \<le> n" "b + n \<le> length a"
  shows "tok (TMerge b n d 0 d []) b n (Ml + Mr) a"
  using assms by (simp add: ml.mrg_mset ml.mrg_sorted)

lemma start_ok:
  assumes "2 \<le> n" "d = split_at n t" "mset (seg a b (b + n)) = M"
  shows "d \<le> n" "\<exists>Ml Mr. M = Ml + Mr \<and> mset (seg a b (b + d)) = Ml \<and> mset (seg a (b + d) (b + d + (n - d))) = Mr"
proof -
  show d: "d \<le> n" using split_at_bounds [OF assms(1), of t] assms(2) by simp
  have "seg a b (b + n) = seg a b (b + d) @ seg a (b + d) (b + n)" using d by (intro seg_split) auto
  then show "\<exists>Ml Mr. M = Ml + Mr \<and> mset (seg a b (b + d)) = Ml \<and> mset (seg a (b + d) (b + d + (n - d))) = Mr"
    using assms(3) d by simp
qed

lemma tstep_ok:
  "tstep c c' \<Longrightarrow> tok (snd c) b n M (fst c) \<Longrightarrow> b + n \<le> length (fst c) \<Longrightarrow> n < 2 ^ 32 \<Longrightarrow>
   tok (snd c') b n M (fst c') \<and> outside_same (fst c) (fst c') b n"
proof (induction arbitrary: b n M rule: tstep.induct)
  case (sort_small k a b' t)
  have "length (seg a b (b + n)) \<le> 1" using sort_small by (simp add: seg_def)
  then show ?case using sort_small by (simp add: outside_same_def sorted01)
next
  case (sort_fork k t d a b')
  have eq: "b' = b" "k = n" "mset (seg a b (b + n)) = M" using sort_fork.prems(1) by auto
  have "d < 2 ^ 31" using split_at_bounds [OF sort_fork(1), of t] sort_fork(3,6) eq(2) by simp linarith
  then show ?case
    using start_ok [of n d t a b M] sort_fork(1,3) eq by (auto simp: int_field_small outside_same_def)
next
  case (sort_call k t d a b')
  have eq: "b' = b" "k = n" "mset (seg a b (b + n)) = M" using sort_call.prems(1) by auto
  then show ?case
    using start_ok [of n d t a b M] sort_call(1,3) by (auto simp: outside_same_def)
next
  case (par_thread a l a' l' r b' k d)
  then obtain Ml Mr where t: "b' = b" "k = n" "d \<le> n" "M = Ml + Mr" "tok l b d Ml a"
      "tok r (b + d) (n - d) Mr a" by auto
  have s: "tok l' b d Ml a' \<and> outside_same a a' b d"
    using par_thread.IH [of b d Ml] t par_thread.prems by simp
  then have "tok r (b + d) (n - d) Mr a'"
    using tok_frame [OF outside_agree_after t(6)] by blast
  then show ?case using s t outside_mono [of a a' b d b n] by auto
next
  case (par_caller a r a' r' l b' k d)
  then obtain Ml Mr where t: "b' = b" "k = n" "d \<le> n" "M = Ml + Mr" "tok l b d Ml a"
      "tok r (b + d) (n - d) Mr a" by auto
  have s: "tok r' (b + d) (n - d) Mr a' \<and> outside_same a a' (b + d) (n - d)"
    using par_caller.IH [of "b + d" "n - d" Mr] t par_caller.prems by simp
  then have "tok l b d Ml a'"
    using tok_frame [OF outside_agree_before t(5)] by blast
  then show ?case using s t outside_mono [of a a' "b + d" "n - d" b n] by auto
next
  case (par_join a b' k d)
  then show ?case using join_ok [of b d _ a n] by (auto simp: outside_same_def simp del: tok.simps(4))
next
  case (seq_left a l a' l' r b' k d)
  then obtain Ml Mr where t: "b' = b" "k = n" "d \<le> n" "M = Ml + Mr" "tok l b d Ml a"
      "tok r (b + d) (n - d) Mr a" by auto
  have s: "tok l' b d Ml a' \<and> outside_same a a' b d"
    using seq_left.IH [of b d Ml] t seq_left.prems by simp
  then have "tok r (b + d) (n - d) Mr a'"
    using tok_frame [OF outside_agree_after t(6)] by blast
  then show ?case using s t outside_mono [of a a' b d b n] by auto
next
  case (seq_right a r a' r' b' k d)
  then obtain Ml Mr where t: "b' = b" "k = n" "d \<le> n" "M = Ml + Mr" "tok TDone b d Ml a"
      "tok r (b + d) (n - d) Mr a" by auto
  have s: "tok r' (b + d) (n - d) Mr a' \<and> outside_same a a' (b + d) (n - d)"
    using seq_right.IH [of "b + d" "n - d" Mr] t seq_right.prems by simp
  then have "tok TDone b d Ml a'"
    using tok_frame [OF outside_agree_before t(5)] by blast
  then show ?case using s t outside_mono [of a a' "b + d" "n - d" b n] by auto
next
  case (seq_join a b' k d)
  then show ?case using join_ok [of b d _ a n] by (auto simp: outside_same_def simp del: tok.simps(4))
next
  case (merge_round x k a b' d left right v left' right')
  then show ?case
    using pick_ok [of d n left right x b a] by (auto simp: outside_same_def)
next
  case (merge_fault x k a b' d left right e)
  then show ?case using pick_ok [of d n left right x b a] by auto
next
  case (merge_copied x k a b' d left right)
  then have "left = d" "right = n" by auto
  then show ?case using merge_copied by (simp add: outside_same_def)
next
  case (copy_round i k x v a b' a')
  then have i: "b' = b" "k = n" "i < n" "length x = n" "v = x ! i" "a' = a[b + i := x ! i]"
      "b + i < length a" by (auto simp: rd_def wr_def split: if_splits)
  have "seg a' b (Suc (b + i)) = seg a' b (b + i) @ [a' ! (b + i)]"
    using i by (intro seg_snoc) auto
  moreover have "seg a' b (b + i) = seg a b (b + i)"
    unfolding seg_def i(6) by (simp add: drop_update_cancel take_update_cancel drop_update_swap)
  ultimately have "seg a' b (Suc (b + i)) = take (Suc i) x"
    using copy_round.prems i by (simp add: take_Suc_conv_app_nth)
  then show ?case using copy_round.prems i by (auto simp: outside_same_def)
next
  case (copy_fault i k x e a b')
  then show ?case by (auto simp: rd_def wr_def split: if_splits)
next
  case (copy_end i k a b' x)
  then show ?case by (auto simp: outside_same_def)
qed


section \<open>No call gets stuck, none runs for ever\<close>

lemma tstep_progress:
  "tok t b n M a \<Longrightarrow> b + n \<le> length a \<Longrightarrow> t = TDone \<or> (\<exists>c. tstep (a, t) c)"
proof (induction t arbitrary: b n M)
  case (TSort b' n' t)
  then show ?case
    using sort_small [of n' a b' t] sort_fork [of n' t "split_at n' t" a b']
      sort_call [of n' t "split_at n' t" a b'] by (meson not_le)
next
  case (TPar l r b' n' d)
  then obtain Ml Mr where t: "b' = b" "n' = n" "d \<le> n" "tok l b d Ml a" "tok r (b + d) (n - d) Mr a" by auto
  have "l = TDone \<or> (\<exists>c. tstep (a, l) c)" "r = TDone \<or> (\<exists>c. tstep (a, r) c)"
    using TPar.IH t TPar.prems(2) by auto
  then show ?case by (metis par_join par_thread par_caller surj_pair)
next
  case (TSeq l r b' n' d)
  then obtain Ml Mr where t: "b' = b" "n' = n" "d \<le> n" "tok l b d Ml a" "tok r (b + d) (n - d) Mr a" by auto
  have "l = TDone \<or> (\<exists>c. tstep (a, l) c)" "r = TDone \<or> (\<exists>c. tstep (a, r) c)"
    using TSeq.IH t TSeq.prems(2) by auto
  then show ?case by (metis seq_join seq_left seq_right surj_pair)
next
  case (TMerge b' n' d left right x)
  then have t: "b' = b" "n' = n" "left \<le> d" "d \<le> right" "right \<le> n" "length x + d = left + right" by auto
  show ?case
  proof (cases "length x < n")
    case True
    then obtain v left' right' where "merge_pick a b n d left right = Inr (v, left', right')"
      using pick_ok [of d n left right x b a] t TMerge.prems(2) by auto
    then show ?thesis using merge_round [OF True] t by blast
  next
    case False
    then have "length x = n" using t by linarith
    then show ?thesis using merge_copied t by blast
  qed
next
  case (TCopy b' n' i x)
  then show ?case
    using copy_round [of i n x "x ! i" a b] copy_end [of i n a b x] by (cases "i < n") auto
qed auto

fun cost :: "nat \<Rightarrow> nat \<Rightarrow> nat" where
  "cost n t = 50 * (n * n) + 1 + max t 1 * (6 * n + 20)"

fun work :: "task \<Rightarrow> nat" where
  "work (TSort b n t) = cost n t"
| "work (TPar l r b n d) = work l + work r + 2 * n + 4"
| "work (TSeq l r b n d) = work l + work r + 2 * n + 4"
| "work (TMerge b n d left right x) = (n - length x) + n + 3"
| "work (TCopy b n i x) = n - i + 1"
| "work TDone = 0"
| "work TFault = 0"

lemma sq_sum: "(x + y) * (x + y) = x * x + y * y + 2 * (x * y)" for x y :: nat
  by algebra

lemma cost_split:
  assumes n: "2 \<le> n" and d: "d = split_at n t"
  shows "cost d 1 + cost (n - d) (rest_tcnt t) + 2 * n + 4 < cost n t"
proof -
  obtain e where e: "n = d + e" using split_at_bounds [OF n, of t] d by (metis le_add_diff_inverse less_imp_le)
  have "d < n" using split_at_bounds [OF n, of t] d by simp
  then have e1: "1 \<le> e" using e by linarith
  have sq: "50 * (n * n) = 50 * (d * d) + 50 * (e * e) + 100 * (d * e)"
    unfolding e sq_sum by (simp add: distrib_left)
  show ?thesis
  proof (cases "t > 2")
    case True
    then obtain u where u: "t = u + 2" "1 \<le> u" by (metis add.commute less_imp_add_positive One_nat_def Suc_leI)
    have c: "cost (n - d) (rest_tcnt t) = 50 * (e * e) + 1 + (u + 1) * (6 * e + 20)"
      "cost n t = 50 * (n * n) + 1 + (u + 2) * (6 * n + 20)"
      using u e by (simp_all add: rest_tcnt_def)
    have "(u + 2) * (6 * n + 20) = (u + 1) * (6 * n + 20) + (6 * n + 20)" by simp
    moreover have "(u + 1) * (6 * n + 20) = (u + 1) * (6 * e + 20) + (u + 1) * (6 * d)"
      unfolding e by (simp add: distrib_left distrib_right)
    moreover have "6 * d \<le> (u + 1) * (6 * d)" by simp
    ultimately have "(u + 1) * (6 * e + 20) + 6 * d + (6 * n + 20) \<le> (u + 2) * (6 * n + 20)" by linarith
    moreover have "cost d 1 = 50 * (d * d) + 1 + (6 * d + 20)" by simp
    ultimately show ?thesis unfolding c using n sq by linarith
  next
    case False
    then have half: "d = n div 2" "rest_tcnt t = 1" "1 \<le> max t 1" using d by (auto simp: split_at_def rest_tcnt_def)
    then have d1: "1 \<le> d" using n by simp
    obtain d' e' where de: "d = Suc d'" "e = Suc e'" using d1 e1 by (metis One_nat_def Suc_le_D)
    have "d * e = d' * e' + (d' + e' + 1)" unfolding de by simp
    then have prod: "d + e \<le> d * e + 1" using de by linarith
    have "6 * n + 20 \<le> max t 1 * (6 * n + 20)" using half(3) by simp
    moreover have "cost d 1 = 50 * (d * d) + 1 + (6 * d + 20)"
      "cost (n - d) (rest_tcnt t) = 50 * (e * e) + 1 + (6 * e + 20)"
      "cost n t = 50 * (n * n) + 1 + max t 1 * (6 * n + 20)" using e half(2) by simp_all
    ultimately show ?thesis using n sq prod e by linarith
  qed
qed

lemma tstep_work:
  "tstep c c' \<Longrightarrow> tok (snd c) b n M (fst c) \<Longrightarrow> n < 2 ^ 32 \<Longrightarrow> work (snd c') < work (snd c)"
proof (induction arbitrary: b n M rule: tstep.induct)
  case (sort_fork k t d a b')
  then have "d < 2 ^ 31" using split_at_bounds [OF sort_fork(1), of t] by simp linarith
  then show ?case using cost_split [OF sort_fork(1,3)] by (simp add: int_field_small del: cost.simps)
next
  case (sort_call k t d a b')
  then show ?case using cost_split [OF sort_call(1,3)] by (simp del: cost.simps)
next
  case (par_thread a l a' l' r b' k d)
  then obtain Ml where "d \<le> n" "tok l b d Ml a" by auto
  then show ?case using par_thread.IH [of b d Ml] par_thread.prems(2) by simp
next
  case (par_caller a r a' r' l b' k d)
  then obtain Mr where "tok r (b + d) (n - d) Mr a" by auto
  then show ?case using par_caller.IH [of "b + d" "n - d" Mr] par_caller.prems(2) by simp
next
  case (seq_left a l a' l' r b' k d)
  then obtain Ml where "d \<le> n" "tok l b d Ml a" by auto
  then show ?case using seq_left.IH [of b d Ml] seq_left.prems(2) by simp
next
  case (seq_right a r a' r' b' k d)
  then obtain Mr where "tok r (b + d) (n - d) Mr a" by auto
  then show ?case using seq_right.IH [of "b + d" "n - d" Mr] seq_right.prems(2) by simp
qed auto

section \<open>The whole program\<close>

definition run_inv :: "int list \<Rightarrow> int list \<times> task \<Rightarrow> bool" where
  "run_inv xs c \<longleftrightarrow> length (fst c) = length xs \<and> tok (snd c) 0 (length xs) (mset xs) (fst c) \<and>
     length xs < 2 ^ 32"

definition sort_start :: "int list \<Rightarrow> nat \<Rightarrow> int list \<times> task \<Rightarrow> bool" where
  "sort_start xs t c \<longleftrightarrow> length xs < 2 ^ 32 \<and> c = (xs, TSort 0 (length xs) t)"

interpretation ts: inductive_invariant "sort_start xs t" tstep "run_inv xs" for xs t
proof
  show "run_inv xs c" if "sort_start xs t c" for c
    using that by (simp add: sort_start_def run_inv_def)
  show "run_inv xs c'" if "run_inv xs c" "tstep c c'" for c c'
    using tstep_ok [OF that(2), of 0 "length xs" "mset xs"] that(1)
    by (simp add: run_inv_def outside_same_def)
qed

lemma run_inv_done: "run_inv xs (a, TDone) \<Longrightarrow> a = sort xs"
  using properties_for_sort [of a xs] by (auto simp: run_inv_def)

lemma run_inv_finish: "run_inv xs c \<Longrightarrow> tstep\<^sup>*\<^sup>* c (sort xs, TDone)"
proof (induction "work (snd c)" arbitrary: c rule: less_induct)
  case less
  obtain a t where c: "c = (a, t)" by (cases c)
  show ?case
  proof (cases "t = TDone")
    case True
    then show ?thesis using run_inv_done less.prems c by auto
  next
    case False
    then obtain c' where s: "tstep c c'"
      using tstep_progress [of t 0 "length xs" "mset xs" a] less.prems c by (auto simp: run_inv_def)
    have "work (snd c') < work (snd c)"
      using tstep_work [OF s] less.prems by (auto simp: run_inv_def)
    then have "tstep\<^sup>*\<^sup>* c' (sort xs, TDone)" using less.hyps ts.inv_step [OF less.prems s] by blast
    then show ?thesis using s by (rule converse_rtranclp_into_rtranclp [rotated])
  qed
qed


section \<open>The processor that is picked\<close>

lemma pick_none:
  "CPU_SETSIZE - c < unat m \<Longrightarrow> c \<le> CPU_SETSIZE \<Longrightarrow> pick_cpu isset c m = CPU_SETSIZE"
proof (induction isset c m rule: pick_cpu.induct)
  case (1 isset c m)
  have m0: "m \<noteq> 0" using 1(2) by auto
  then have "unat (m - 1) = unat m - 1" by (simp add: unat_minus_one)
  then have "c < CPU_SETSIZE \<Longrightarrow> pick_cpu isset (Suc c) (m - 1) = CPU_SETSIZE"
    using 1 m0 by auto
  then show ?case using m0 1(3) by (subst pick_cpu.simps) auto
qed

lemma pick_cpu_eq:
  "m < 2 ^ 63 \<Longrightarrow> c \<le> CPU_SETSIZE \<Longrightarrow> pick_cpu isset c (word_of_nat m) =
     (if c + m < CPU_SETSIZE \<and> isset (c + m) then c + m else CPU_SETSIZE)"
proof (induction m arbitrary: c)
  case 0
  have "pick_cpu isset (Suc c) (- 1) = CPU_SETSIZE" if "c < CPU_SETSIZE"
    using that by (intro pick_none) (simp_all add: CPU_SETSIZE_def unsigned_minus_1_eq_mask mask_eq_exp_minus_1)
  then show ?case using 0 by (subst pick_cpu.simps) auto
next
  case (Suc m)
  have "word_of_nat (Suc m) \<noteq> (0 :: u64)"
    using Suc.prems(1) nat_dvd_not_less [of "Suc m" "2 ^ 64"] by (simp only: word_of_nat_eq_0_iff) simp
  then show ?case
    using Suc.IH [of "Suc c"] Suc.prems by (subst pick_cpu.simps) auto
qed

lemma report_status_0:
  "sorted a \<Longrightarrow> \<forall>i\<in>set is. Suc i < length a \<Longrightarrow> report_status a is = Inr 0"
proof (induction "is")
  case (Cons i "is")
  then have "a ! i \<le> a ! Suc i" by (intro sorted_nth_mono) auto
  then show ?case using Cons by simp
qed simp

section \<open>Properties\<close>

text \<open>C9: The threaded sort is correct under every interleaving. In every state that a call of
  \<open>sort\<close> on the whole array reaches, for any number of threads and up to \<open>2 ^ 32 - 1\<close>
  elements, no access was outside the array, some step is possible until the call is done, and
  the state can be completed; when the call is done the array is the sorted permutation of the
  one it was given.\<close>

theorem thread_sort_correct:
  assumes "reach (sort_start xs tcnt) tstep (a, t)"
  shows "tstep\<^sup>*\<^sup>* (a, t) (sort xs, TDone) \<and> (t = TDone \<longrightarrow> a = sort xs) \<and>
    (t \<noteq> TDone \<longrightarrow> (\<exists>c. tstep (a, t) c))"
proof -
  have inv: "run_inv xs (a, t)" using ts.reach_inv [OF assms] .
  then have "t = TDone \<or> (\<exists>c. tstep (a, t) c)"
    using tstep_progress [of t 0 "length xs" "mset xs" a] by (simp add: run_inv_def)
  then show ?thesis using run_inv_finish [OF inv] run_inv_done inv by blast
qed

theorem thread_sort_correct_witness:
  "tstep\<^sup>*\<^sup>* ([4, 1, 3, 2], TPar (TSort 0 1 1) (TSort 1 3 3) 0 4 1) (sort [4, 1, 3, 2], TDone)"
proof -
  have "reach (sort_start [4, 1, 3, 2] 4) tstep ([4, 1, 3, 2], TSort 0 4 4)"
    by (rule reach_init) (simp add: sort_start_def)
  moreover have "tstep ([4, 1, 3, 2], TSort 0 4 4)
      ([4, 1, 3, 2], TPar (TSort 0 (int_field 1) 1) (TSort (0 + 1) (4 - 1) (rest_tcnt 4)) 0 4 1)"
    by (rule sort_fork) (simp_all add: split_at_def)
  ultimately have "reach (sort_start [4, 1, 3, 2] 4) tstep
      ([4, 1, 3, 2], TPar (TSort 0 1 1) (TSort 1 3 3) 0 4 1)"
    using reach_step by (fastforce simp: int_field_small rest_tcnt_def)
  then show ?thesis using thread_sort_correct by blast
qed

text \<open>C10: The threaded sort terminates: no interleaving of its steps goes on for ever.\<close>

theorem thread_sort_terminates:
  assumes "length xs < 2 ^ 32"
  shows "\<not> (\<exists>run. run 0 = (xs, TSort 0 (length xs) tcnt) \<and> (\<forall>i. tstep (run i) (run (Suc i))))"
proof
  assume "\<exists>run. run 0 = (xs, TSort 0 (length xs) tcnt) \<and> (\<forall>i. tstep (run i) (run (Suc i)))"
  then obtain run where run: "run 0 = (xs, TSort 0 (length xs) tcnt)" "\<And>i. tstep (run i) (run (Suc i))"
    by blast
  have inv: "run_inv xs (run i)" for i
  proof (induction i)
    case 0
    then show ?case using run(1) assms by (simp add: run_inv_def)
  next
    case (Suc i)
    then show ?case using ts.inv_step run(2) by blast
  qed
  have dec: "work (snd (run (Suc i))) < work (snd (run i))" for i
    using tstep_work [OF run(2)] inv [of i] by (auto simp: run_inv_def)
  have "work (snd (run i)) + i \<le> work (snd (run 0))" for i
  proof (induction i)
    case (Suc i)
    then show ?case using dec [of i] by linarith
  qed simp
  from this [of "Suc (work (snd (run 0)))"] show False by simp
qed

theorem thread_sort_terminates_witness:
  "\<not> (\<exists>run. run 0 = ([2, 1, 3], TSort 0 3 4) \<and> (\<forall>i. tstep (run i) (run (Suc i))))"
  using thread_sort_terminates [of "[2, 1, 3]" 4] by simp

text \<open>
  The test program reports success: on the array that a finished call leaves, the loop
  over neighbours finds no pair out of order and the exit status is 0.\<close>

theorem thread_sort_status:
  assumes "reach (sort_start xs tcnt) tstep (a, TDone)"
  shows "sort_status a = Inr 0"
proof -
  have "a = sort xs" using ts.reach_inv [OF assms] run_inv_done by blast
  then show ?thesis unfolding sort_status_def by (intro report_status_0) auto
qed

theorem thread_sort_status_witness: "sort_status [7] = Inr 0"
proof -
  have "reach (sort_start [7] 4) tstep ([7], TSort 0 1 4)" by (rule reach_init) (simp add: sort_start_def)
  then have "reach (sort_start [7] 4) tstep ([7], TDone)" by (rule reach_step) (rule sort_small, simp)
  then show ?thesis by (rule thread_sort_status)
qed

text \<open>
  The threads are not bound to processors. The loop of \<open>mt_sort\<close> settles on processor
  \<open>tcnt mod count\<close> when the caller may use it, and otherwise runs on to \<open>CPU_SETSIZE\<close>, which
  is no processor, as its counter wraps around; and in either case the set given to
  \<open>pthread_setaffinity_np\<close> is empty.\<close>

theorem thread_sort_affinity:
  assumes "\<exists>c<CPU_SETSIZE. isset c"
  shows "mt_sort_cpu isset tcnt =
      (let k = tcnt mod card {c. c < CPU_SETSIZE \<and> isset c} in if isset k then k else CPU_SETSIZE) \<and>
    routine_mask (mt_sort_cpu isset tcnt) = {}"
proof -
  define k where "k = tcnt mod card {c. c < CPU_SETSIZE \<and> isset c}"
  have fin: "finite {c. c < CPU_SETSIZE \<and> isset c}" by simp
  have "card {c. c < CPU_SETSIZE \<and> isset c} \<le> card {..<CPU_SETSIZE}" by (intro card_mono) auto
  moreover have "0 < card {c. c < CPU_SETSIZE \<and> isset c}" using assms(1) fin by (auto simp: card_gt_0_iff)
  ultimately have "k < CPU_SETSIZE" unfolding k_def using mod_less_divisor order_less_le_trans
    by (metis card_lessThan)
  then show ?thesis
    using pick_cpu_eq [of k 0 isset]
    by (simp add: mt_sort_cpu_def routine_mask_def k_def CPU_SETSIZE_def Let_def)
qed

theorem thread_sort_affinity_witness:
  "mt_sort_cpu (\<lambda>c. c = 2 \<or> c = 3) 4 = CPU_SETSIZE \<and>
    routine_mask (mt_sort_cpu (\<lambda>c. c = 2 \<or> c = 3) 4) = {}"
proof -
  have "{c. c < CPU_SETSIZE \<and> (c = 2 \<or> c = 3)} = {2, 3}" by (auto simp: CPU_SETSIZE_def)
  then have c: "card {c. c < CPU_SETSIZE \<and> (c = 2 \<or> c = 3)} = 2" by simp
  have "\<exists>c<CPU_SETSIZE. c = 2 \<or> c = 3" by (intro exI [of _ 2]) (simp add: CPU_SETSIZE_def)
  from thread_sort_affinity [OF this, of 4] show ?thesis unfolding c by (auto simp: CPU_SETSIZE_def)
qed

end
