(* ===== verification/MergeSort.thy ===== *)
theory MergeSort
  imports Merging
begin

unbundle bit_operations_syntax

text \<open>
  The bottom-up merge sort of
  \<open>03-algorithms-and-data-structures/04-divide-and-conquer-and-sorting/01-merge-sort/merge_sort.c\<close>.
  Elements are compared only, so an \<open>int\<close> of the program is a HOL integer. The two arrays of
  \<open>sort\<close> are blocks of a store and its pointers are block names, so that which array holds the
  result, and which is freed, is part of the model. The width \<open>sz\<close> is a power of two, written
  by its exponent.
\<close>

section \<open>Merging\<close>

function merge_loop :: "int list \<Rightarrow> int list \<Rightarrow> nat \<Rightarrow> nat \<Rightarrow> nat \<Rightarrow> nat \<Rightarrow> nat \<Rightarrow>
    (int list \<times> nat \<times> nat \<times> nat) res" where
  "merge_loop src dst s m s2 e i =
     (if s < m \<and> s2 < e
      then andthen (rd src s) (\<lambda>x. andthen (rd src s2) (\<lambda>y.
             if x < y
             then andthen (wr dst i x) (\<lambda>dst'. merge_loop src dst' (Suc s) m s2 e (Suc i))
             else andthen (wr dst i y) (\<lambda>dst'. merge_loop src dst' s m (Suc s2) e (Suc i))))
      else Inr (dst, s, s2, i))"
  by pat_completeness auto
termination
  by (relation "measure (\<lambda>(src, dst, s, m, s2, e, i). (m - s) + (e - s2))") auto

declare merge_loop.simps [simp del]

definition memcpy_ints :: "int list \<Rightarrow> nat \<Rightarrow> int list \<Rightarrow> nat \<Rightarrow> nat \<Rightarrow> int list res" where
  "memcpy_ints dst i src s n =
     (if s + n \<le> length src \<and> i + n \<le> length dst
      then Inr (take i dst @ take n (drop s src) @ drop (i + n) dst) else Inl OutOfBounds)"

definition merge :: "int list \<Rightarrow> int list \<Rightarrow> nat \<Rightarrow> nat \<Rightarrow> nat \<Rightarrow> int list res" where
  "merge src dst s m e =
     andthen (merge_loop src dst s m m e s) (\<lambda>(dst', s', s2, i).
       if s' < m then memcpy_ints dst' i src s' (m - s')
       else if s2 < e then memcpy_ints dst' i src s2 (e - s2)
       else Inr dst')"

section \<open>Sorting\<close>

text \<open>The inner loop: all merges of one width \<open>sz = 2 ^ k\<close>, from position \<open>s\<close> on.\<close>

function merge_pass :: "int list \<Rightarrow> int list \<Rightarrow> nat \<Rightarrow> nat \<Rightarrow> nat \<Rightarrow> int list res" where
  "merge_pass arr wk len k s =
     (if s < len
      then (let sz = 2 ^ k; m = s + sz div 2; e = s + sz
            in andthen (merge arr wk s (if m < len then m else len) (if e < len then e else len))
                 (\<lambda>wk'. merge_pass arr wk' len k (s + sz)))
      else Inr wk)"
  by pat_completeness auto
termination
proof (relation "measure (\<lambda>(arr, wk, len, k, s). len - s)", goal_cases)
  case (2 arr wk len k s)
  then show ?case by (simp add: diff_less_mono2)
qed simp

declare merge_pass.simps [simp del]

datatype block = Caller | Work

record ms_state =
  ms_mem :: "block \<Rightarrow> int list"
  ms_arr :: block
  ms_wk :: block

definition swap_ptrs :: "ms_state \<Rightarrow> ms_state" where
  "swap_ptrs st = st\<lparr>ms_arr := ms_wk st, ms_wk := ms_arr st\<rparr>"

text \<open>The outer loop, \<open>sz = 2 ^ k\<close>; the result has the exponent at which it stops.\<close>

function sort_loop :: "ms_state \<Rightarrow> nat \<Rightarrow> nat \<Rightarrow> (ms_state \<times> nat) res" where
  "sort_loop st len k =
     (if 2 ^ k < 2 * len
      then andthen (merge_pass (ms_mem st (ms_arr st)) (ms_mem st (ms_wk st)) len k 0)
             (\<lambda>wk'. sort_loop (swap_ptrs (st\<lparr>ms_mem := (ms_mem st)(ms_wk st := wk')\<rparr>)) len (Suc k))
      else Inr (st, k))"
  by pat_completeness auto
termination
proof (relation "measure (\<lambda>(st, len, k). 2 * len - k)", goal_cases)
  case (2 st len k wk')
  have "k < 2 * len" using less_exp [of k] 2 by (rule less_trans)
  then show ?case by (simp add: diff_less_mono2)
qed simp

declare sort_loop.simps [simp del]

definition pass_mask :: u64 where
  "pass_mask = 0x5555555555555555"

text \<open>The end of \<open>sort\<close>: the copy back after an odd number of passes, and the block it frees.\<close>

definition sort_finish :: "ms_state \<Rightarrow> nat \<Rightarrow> nat \<Rightarrow> (int list \<times> block) res" where
  "sort_finish st len k =
     (if pass_mask AND word_of_nat (2 ^ k) \<noteq> 0
      then (let st' = swap_ptrs st
            in andthen (memcpy_ints (ms_mem st' (ms_arr st')) 0 (ms_mem st' (ms_wk st')) 0 len)
                 (\<lambda>a. Inr (((ms_mem st')(ms_arr st' := a)) Caller, ms_wk st')))
      else Inr (ms_mem st Caller, ms_wk st))"

text \<open>
  \<open>sort\<close>: the contents of the caller's array at the end and the block freed. \<open>calloc\<close> succeeds
  where \<open>alloc\<close> says so of the number of elements.
\<close>

definition merge_sort :: "(nat \<Rightarrow> bool) \<Rightarrow> int list \<Rightarrow> (int list \<times> block) res" where
  "merge_sort alloc xs =
     (let len = length xs
      in andthen (check (alloc len)) (\<lambda>_.
         andthen (sort_loop \<lparr>ms_mem = (\<lambda>b. if b = Caller then xs else replicate len 0),
             ms_arr = Caller, ms_wk = Work\<rparr> len 1)
           (\<lambda>(st, k). sort_finish st len k)))"

definition LEN :: nat where
  "LEN = 0xfffffff"

fun check_sorted :: "int list \<Rightarrow> nat list \<Rightarrow> unit res" where
  "check_sorted xs [] = Inr ()"
| "check_sorted xs (i # is) =
     andthen (rd xs (i - 1)) (\<lambda>x. andthen (rd xs i) (\<lambda>y.
     andthen (check (x \<le> y)) (\<lambda>_. check_sorted xs is)))"

definition merge_sort_main :: "(nat \<Rightarrow> bool) \<Rightarrow> (nat \<Rightarrow> int) \<Rightarrow> unit res" where
  "merge_sort_main alloc rnd =
     andthen (check (alloc LEN)) (\<lambda>_.
     andthen (merge_sort alloc (map rnd [0..<LEN])) (\<lambda>(xs, _). check_sorted xs [1..<LEN]))"


section \<open>Correctness of a merge\<close>

text \<open>Merging of two lists, the element of the right one first where the two are equal.\<close>

fun merge_right :: "int list \<Rightarrow> int list \<Rightarrow> int list" where
  "merge_right (x # xs) (y # ys) =
     (if x < y then x # merge_right xs (y # ys) else y # merge_right (x # xs) ys)"
| "merge_right [] ys = ys"
| "merge_right xs [] = xs"

lemma merge_right_Nil [simp]: "merge_right xs [] = xs"
  by (cases xs) simp_all

lemma set_merge_right: "set (merge_right xs ys) = set xs \<union> set ys"
  by (induction xs ys rule: merge_right.induct) auto

interpretation mr: merger merge_right
proof
  show "mset (merge_right xs ys) = mset xs + mset ys" for xs ys
    by (induction xs ys rule: merge_right.induct) auto
  show "sorted xs \<Longrightarrow> sorted ys \<Longrightarrow> sorted (merge_right xs ys)" for xs ys
    by (induction xs ys rule: merge_right.induct) (auto simp: set_merge_right)
qed

lemma memcpy_ints_seg:
  "s + n \<le> length src \<Longrightarrow> i + n \<le> length dst \<Longrightarrow>
   memcpy_ints dst i src s n = Inr (put_seg dst i (seg src s (s + n)))"
  by (simp add: memcpy_ints_def put_seg_def seg_def)

definition merge_tail :: "int list \<Rightarrow> nat \<Rightarrow> nat \<Rightarrow> int list \<times> nat \<times> nat \<times> nat \<Rightarrow> int list res" where
  "merge_tail src m e = (\<lambda>(dst', s', s2, i).
     if s' < m then memcpy_ints dst' i src s' (m - s')
     else if s2 < e then memcpy_ints dst' i src s2 (e - s2)
     else Inr dst')"

lemma merge_loop_tail:
  "s \<le> m \<Longrightarrow> m \<le> s2 \<Longrightarrow> s2 \<le> e \<Longrightarrow> e \<le> length src \<Longrightarrow> length dst = length src \<Longrightarrow> i + m = s + s2 \<Longrightarrow>
   andthen (merge_loop src dst s m s2 e i) (merge_tail src m e) =
     Inr (put_seg dst i (merge_right (seg src s m) (seg src s2 e)))"
proof (induction src dst s m s2 e i rule: merge_loop.induct)
  case (1 src dst s m s2 e i)
  show ?case
  proof (cases "s < m \<and> s2 < e")
    case True
    have rds: "rd src s = Inr (src ! s)" "rd src s2 = Inr (src ! s2)" using 1 True by simp_all
    have w: "wr dst i v = Inr (dst[i := v])" for v using 1 True by simp
    have sl: "seg src s m = src ! s # seg src (Suc s) m" "seg src s2 e = src ! s2 # seg src (Suc s2) e"
      using 1 True by (auto intro: seg_Cons)
    show ?thesis
    proof (cases "src ! s < src ! s2")
      case less: True
      have "andthen (merge_loop src (dst[i := src ! s]) (Suc s) m s2 e (Suc i)) (merge_tail src m e) =
          Inr (put_seg (dst[i := src ! s]) (Suc i) (merge_right (seg src (Suc s) m) (seg src s2 e)))"
        using "1.IH"(1) [OF True less] 1(3-) True by simp
      moreover have "i + length (merge_right (seg src (Suc s) m) (seg src s2 e)) < length dst"
        using 1(3-) True by simp linarith
      ultimately show ?thesis
        using True less by (subst merge_loop.simps) (simp add: rds w sl put_seg_Cons)
    next
      case ge: False
      have "andthen (merge_loop src (dst[i := src ! s2]) s m (Suc s2) e (Suc i)) (merge_tail src m e) =
          Inr (put_seg (dst[i := src ! s2]) (Suc i) (merge_right (seg src s m) (seg src (Suc s2) e)))"
        using "1.IH"(2) [OF True ge] 1(3-) True by simp
      moreover have "i + length (merge_right (seg src s m) (seg src (Suc s2) e)) < length dst"
        using 1(3-) True by simp linarith
      ultimately show ?thesis
        using True ge by (subst merge_loop.simps) (simp add: rds w sl put_seg_Cons)
    qed
  next
    case False
    then have "s = m \<or> s2 = e" using 1(3,5) by auto
    then show ?thesis
      using 1(3-) by (subst merge_loop.simps) (auto simp: merge_tail_def memcpy_ints_seg)
  qed
qed

lemma merge_put_seg:
  assumes "s \<le> m" "m \<le> e" "e \<le> length src" "length dst = length src"
  shows "merge src dst s m e = Inr (put_seg dst s (merge_right (seg src s m) (seg src m e)))"
  using merge_loop_tail [of s m m e src dst s] assms by (simp add: merge_def merge_tail_def)


section \<open>Correctness of the sort\<close>

text \<open>Every block of \<open>w\<close> elements, the last one shorter, is sorted.\<close>

definition runs :: "nat \<Rightarrow> int list \<Rightarrow> bool" where
  "runs w xs \<longleftrightarrow> (\<forall>j. sorted (seg xs (j * w) (j * w + w)))"

lemma sorted_seg: "sorted xs \<Longrightarrow> sorted (seg xs a b)"
  by (simp add: seg_def sorted_wrt_take sorted_wrt_drop)

lemma runs_one: "runs 1 xs"
proof -
  have "length (seg xs j (Suc j)) \<le> 1" for j by (simp add: seg_def)
  then have "sorted (seg xs j (Suc j))" for j by (rule sorted01)
  then show ?thesis by (simp add: runs_def)
qed

lemma runs_sorted: "runs w xs \<Longrightarrow> length xs \<le> w \<Longrightarrow> sorted xs"
  unfolding runs_def by (drule spec [of _ 0]) simp

lemma seg_min: "seg xs a b = seg xs a (min b (length xs))"
  by (simp add: seg_def min_def)

lemma sorted_seg_mono: "sorted (seg xs a b) \<Longrightarrow> c \<le> b \<Longrightarrow> sorted (seg xs a c)"
  unfolding seg_def by (metis diff_le_mono min.absorb1 sorted_wrt_take take_take)

lemma seg_put_seg_cover:
  "a + length ys = min c' (length xs) \<Longrightarrow> a + length ys \<le> length xs \<Longrightarrow>
   seg (put_seg xs a ys) a c' = ys"
  by (simp add: seg_def put_seg_def min_def split: if_splits)

lemma seg_beyond: "length xs \<le> a \<Longrightarrow> seg xs a b = []"
  by (simp add: seg_def)

lemma if_min: "(if x < y then x else y) = min x (y :: nat)"
  by simp

text \<open>One merge of the pass, at block \<open>j\<close>.\<close>

lemma merge_block:
  assumes k: "1 \<le> k" and runs: "runs (2 ^ (k - 1)) arr" and len: "length arr = len" "length wk = len"
    and s: "s = j * 2 ^ k" "s < len"
  defines "m \<equiv> min (s + 2 ^ k div 2) len" and "e \<equiv> min (s + 2 ^ k) len"
  shows "\<exists>ys. merge arr wk s m e = Inr (put_seg wk s ys) \<and> sorted ys \<and> s + length ys = e \<and>
    mset ys = mset (seg arr s e)"
proof -
  define h :: nat where "h = 2 ^ (k - 1)"
  have kh: "2 ^ k = 2 * h" using k by (cases k) (simp_all add: h_def)
  have h0: "0 < h" by (simp add: h_def)
  have m: "m = min (s + h) len" and e: "e = min (s + 2 * h) len" by (simp_all add: m_def e_def kh)
  have run: "sorted (seg arr (i * h) (i * h + h))" for i using runs by (simp add: runs_def h_def)
  have "sorted (seg arr s (s + h))" using run [of "2 * j"] by (simp add: s(1) kh mult.assoc mult.left_commute)
  then have left: "sorted (seg arr s m)" by (rule sorted_seg_mono) (simp add: m)
  have right: "sorted (seg arr m e)"
  proof (cases "s + h < len")
    case True
    then have "m = Suc (2 * j) * h" by (simp add: m s(1) kh)
    then show ?thesis using run [of "Suc (2 * j)"] True
      by (intro sorted_seg_mono [of arr m "m + h" e]) (simp_all add: e m add.commute)
  next
    case False
    then show ?thesis by (simp add: m e seg_beyond len)
  qed
  have ord: "s \<le> m" "m \<le> e" "e \<le> length arr" using s(2) len by (auto simp: m e)
  let ?ys = "merge_right (seg arr s m) (seg arr m e)"
  have "merge arr wk s m e = Inr (put_seg wk s ?ys)"
    using merge_put_seg [OF ord] len by simp
  moreover have "sorted ?ys \<and> mset ?ys = mset (seg arr s e) \<and> length ?ys = e - s"
    using mr.mrg_segs [OF ord left right] .
  ultimately show ?thesis using ord by (intro exI [of _ ?ys]) simp
qed

lemma merge_pass_correct:
  "1 \<le> k \<Longrightarrow> runs (2 ^ (k - 1)) arr \<Longrightarrow> length arr = len \<Longrightarrow> length wk = len \<Longrightarrow> s = j * 2 ^ k \<Longrightarrow>
    (\<forall>i<j. sorted (seg wk (i * 2 ^ k) (i * 2 ^ k + 2 ^ k))) \<Longrightarrow>
    mset (seg wk 0 (min s len)) = mset (seg arr 0 (min s len)) \<Longrightarrow>
    \<exists>wk'. merge_pass arr wk len k s = Inr wk' \<and> runs (2 ^ k) wk' \<and> mset wk' = mset arr"
proof (induction arr wk len k s arbitrary: j rule: merge_pass.induct)
  case (1 arr wk len k s)
  note len = "1.prems"(3,4) and s = "1.prems"(5)
  show ?case
  proof (cases "s < len")
    case True
    define m e where "m = min (s + 2 ^ k div 2) len" and "e = min (s + 2 ^ k) len"
    obtain ys where ys: "merge arr wk s m e = Inr (put_seg wk s ys)" "sorted ys" "s + length ys = e"
        "mset ys = mset (seg arr s e)"
      using merge_block [OF "1.prems"(1-5) True] unfolding m_def e_def by blast
    let ?wk = "put_seg wk s ys"
    have fit: "s + length ys \<le> length wk" using ys(3) len by (simp add: e_def)
    have "sorted (seg ?wk (i * 2 ^ k) (i * 2 ^ k + 2 ^ k))" if i: "i < Suc j" for i
    proof (cases "i = j")
      case True
      have "seg ?wk s (s + 2 ^ k) = ys"
        using fit ys(3) len by (intro seg_put_seg_cover) (simp_all add: e_def)
      then show ?thesis using True s ys(2) by simp
    next
      case False
      then have "Suc i * 2 ^ k \<le> j * 2 ^ k" using i by (intro mult_right_mono) auto
      then have "i * 2 ^ k + 2 ^ k \<le> s" by (simp add: s)
      then show ?thesis using "1.prems"(6) False i fit by (simp add: seg_put_seg_before)
    qed
    moreover have "mset (seg ?wk 0 e) = mset (seg arr 0 e)"
    proof -
      have "s \<le> e" using ys(3) by simp
      then show ?thesis
        using "1.prems"(7) True fit ys(3,4) seg_put_seg_same [OF fit]
        by (simp add: seg_split [of 0 s e] seg_put_seg_before)
    qed
    ultimately have "\<exists>wk'. merge_pass arr ?wk len k (s + 2 ^ k) = Inr wk' \<and> runs (2 ^ k) wk' \<and>
        mset wk' = mset arr"
      using "1.prems"(1-3) s len fit
      by (intro "1.IH" [OF True refl refl refl, of _ "Suc j"]) (simp_all add: e_def)
    then show ?thesis
      using True ys(1) unfolding m_def e_def
      by (subst merge_pass.simps) (simp add: if_min Let_def)
  next
    case False
    have "sorted (seg wk (i * 2 ^ k) (i * 2 ^ k + 2 ^ k))" for i
    proof (cases "i < j")
      case f: False
      then have "j * 2 ^ k \<le> i * 2 ^ k" by (intro mult_right_mono) auto
      then have "length wk \<le> i * 2 ^ k" using False s len by linarith
      then show ?thesis by (simp add: seg_beyond)
    qed (use "1.prems"(6) in simp)
    then have "runs (2 ^ k) wk" by (simp add: runs_def)
    then show ?thesis
      using False "1.prems"(7) len by (subst merge_pass.simps) (simp add: min_absorb2)
  qed
qed


lemma sort_loop_correct:
  "1 \<le> k \<Longrightarrow> ms_arr st \<noteq> ms_wk st \<Longrightarrow> length (ms_mem st (ms_arr st)) = len \<Longrightarrow>
   length (ms_mem st (ms_wk st)) = len \<Longrightarrow> runs (2 ^ (k - 1)) (ms_mem st (ms_arr st)) \<Longrightarrow>
   \<exists>st' k'. sort_loop st len k = Inr (st', k') \<and> sorted (ms_mem st' (ms_arr st')) \<and>
     mset (ms_mem st' (ms_arr st')) = mset (ms_mem st (ms_arr st)) \<and>
     length (ms_mem st' (ms_wk st')) = len \<and> k \<le> k' \<and> 2 ^ (k' - 1) \<le> max (2 ^ (k - 1)) (2 * len) \<and>
     (if even (k' - k) then ms_arr st' = ms_arr st \<and> ms_wk st' = ms_wk st
      else ms_arr st' = ms_wk st \<and> ms_wk st' = ms_arr st)"
proof (induction st len k rule: sort_loop.induct)
  case (1 st len k)
  show ?case
  proof (cases "2 ^ k < 2 * len")
    case True
    obtain wk' where wk: "merge_pass (ms_mem st (ms_arr st)) (ms_mem st (ms_wk st)) len k 0 = Inr wk'"
        "runs (2 ^ k) wk'" "mset wk' = mset (ms_mem st (ms_arr st))"
      using merge_pass_correct [of k "ms_mem st (ms_arr st)" len "ms_mem st (ms_wk st)" 0 0] "1.prems" by auto
    define st1 where "st1 = swap_ptrs (st\<lparr>ms_mem := (ms_mem st)(ms_wk st := wk')\<rparr>)"
    have s1: "ms_arr st1 = ms_wk st" "ms_wk st1 = ms_arr st" "ms_mem st1 (ms_arr st1) = wk'"
        "ms_mem st1 (ms_wk st1) = ms_mem st (ms_arr st)"
      using "1.prems"(2) by (simp_all add: st1_def swap_ptrs_def)
    have "length wk' = len" using wk(3) "1.prems"(3) by (metis size_mset)
    then obtain st' k' where r: "sort_loop st1 len (Suc k) = Inr (st', k')" "sorted (ms_mem st' (ms_arr st'))"
        "mset (ms_mem st' (ms_arr st')) = mset wk'" "length (ms_mem st' (ms_wk st')) = len"
        "Suc k \<le> k'" "2 ^ (k' - 1) \<le> max (2 ^ k) (2 * len)"
        "if even (k' - Suc k) then ms_arr st' = ms_wk st \<and> ms_wk st' = ms_arr st
         else ms_arr st' = ms_arr st \<and> ms_wk st' = ms_wk st"
      using "1.IH" [OF True, of wk', folded st1_def] "1.prems" s1 wk(2) by auto
    have par: "even (k' - k) \<longleftrightarrow> odd (k' - Suc k)" using r(5) by (simp add: Suc_diff_Suc [symmetric])
    have "2 ^ (k' - 1) \<le> 2 * len" using r(6) True by simp
    then have bnd: "2 ^ (k' - 1) \<le> max (2 ^ (k - 1)) (2 * len)" by (rule max.coboundedI2)
    have run: "sort_loop st len k = Inr (st', k')"
      using True wk(1) r(1) by (subst sort_loop.simps) (simp add: st1_def)
    show ?thesis
      using r(2-5,7) wk(3) par bnd by (intro exI [of _ st'] exI [of _ k'] conjI run) (auto split: if_splits)
  next
    case False
    have "2 * 2 ^ (k - 1) = (2::nat) ^ k" using "1.prems"(1) by (cases k) simp_all
    then have "length (ms_mem st (ms_arr st)) \<le> 2 ^ (k - 1)" using False "1.prems"(3) by linarith
    then have "sorted (ms_mem st (ms_arr st))" using runs_sorted "1.prems"(5) by blast
    then show ?thesis using False "1.prems" by (subst sort_loop.simps) simp
  qed
qed

lemma pass_mask_bit: "k < 64 \<Longrightarrow> bit pass_mask k \<longleftrightarrow> even k"
proof -
  assume "k < 64"
  then have "k \<in> set [0..<64]" by simp
  moreover have "\<forall>k\<in>set [0..<64]. bit pass_mask k \<longleftrightarrow> even k"
    by (simp add: pass_mask_def upt_rec bit_numeral_rec)
  ultimately show ?thesis by blast
qed

lemma pass_mask_test: "k < 64 \<Longrightarrow> pass_mask AND word_of_nat (2 ^ k) \<noteq> 0 \<longleftrightarrow> even k"
  using pass_mask_bit [of k] by (simp add: and_exp_eq_0_iff_not_bit)


lemma memcpy_all: "length a = n \<Longrightarrow> length b = n \<Longrightarrow> memcpy_ints a 0 b 0 n = Inr b"
  by (simp add: memcpy_ints_def)

lemma merge_sort_correct:
  assumes "alloc (length xs)" and "4 * length xs < 2 ^ 64"
  shows "merge_sort alloc xs = Inr (sort xs, Work)"
proof -
  define st where "st = \<lparr>ms_mem = (\<lambda>b. if b = Caller then xs else replicate (length xs) 0),
    ms_arr = Caller, ms_wk = Work\<rparr>"
  have st: "ms_arr st = Caller" "ms_wk st = Work" "ms_mem st Caller = xs" "length (ms_mem st Work) = length xs"
    by (simp_all add: st_def)
  obtain st' k' where r: "sort_loop st (length xs) 1 = Inr (st', k')" "sorted (ms_mem st' (ms_arr st'))"
      "mset (ms_mem st' (ms_arr st')) = mset xs" "length (ms_mem st' (ms_wk st')) = length xs"
      "1 \<le> k'" "2 ^ (k' - 1) \<le> max 1 (2 * length xs)"
      "if even (k' - 1) then ms_arr st' = Caller \<and> ms_wk st' = Work
       else ms_arr st' = Work \<and> ms_wk st' = Caller"
    using sort_loop_correct [of 1 st "length xs"] runs_one st by auto
  have res: "ms_mem st' (ms_arr st') = sort xs"
    using r(2,3) by (metis properties_for_sort)
  have "(2::nat) ^ (k' - 1) < 2 ^ 63" using r(6) assms(2) by (auto simp: max_def split: if_splits)
  then have "k' - 1 < 63" by (rule power_less_imp_less_exp [rotated]) simp
  then have mask: "pass_mask AND word_of_nat (2 ^ k') \<noteq> 0 \<longleftrightarrow> even k'"
    by (intro pass_mask_test) linarith
  have "sort_finish st' (length xs) k' = Inr (sort xs, Work)"
  proof (cases "even k'")
    case True
    then have "ms_arr st' = Work" "ms_wk st' = Caller" using r(5,7) by (auto split: if_splits)
    then show ?thesis
      using True mask res r(4) by (simp add: sort_finish_def swap_ptrs_def memcpy_all)
  next
    case False
    then have "ms_arr st' = Caller" "ms_wk st' = Work" using r(5,7) by (auto split: if_splits)
    then show ?thesis using False mask res by (simp add: sort_finish_def)
  qed
  then show ?thesis using assms(1) r(1) by (simp add: merge_sort_def st_def)
qed

lemma check_sorted_pass:
  "sorted xs \<Longrightarrow> \<forall>i\<in>set is. 1 \<le> i \<and> i < length xs \<Longrightarrow> check_sorted xs is = Inr ()"
proof (induction "is")
  case (Cons i "is")
  then have "xs ! (i - 1) \<le> xs ! i" "i - 1 < length xs" by (auto intro: sorted_nth_mono)
  then show ?case using Cons by simp
qed simp

section \<open>Properties\<close>

text \<open>C8: The bottom-up merge sort sorts. For every array whose size in bytes fits \<open>size_t\<close> and
  for which the work array is allocated, \<open>sort\<close> leaves in the caller's array the sorted
  permutation of its contents, whatever the parity of the number of passes, stays inside both
  arrays, and frees the work array.\<close>

theorem merge_sort_sorts:
  assumes "alloc (length xs)" and "4 * length xs < 2 ^ 64"
  shows "\<exists>ys. merge_sort alloc xs = Inr (ys, Work) \<and> sorted ys \<and> mset ys = mset xs"
  using merge_sort_correct [where alloc = alloc and xs = xs] assms by simp

theorem merge_sort_sorts_witness:
  "\<exists>ys. merge_sort (\<lambda>n. n \<le> 5) [3, -1, 3, 2, -5] = Inr (ys, Work) \<and> sorted ys \<and>
    mset ys = mset [3, -1, 3, 2, -5]"
  by (rule merge_sort_sorts) simp_all

text \<open>
  The test program of the merge sort passes: on an array of \<open>0xfffffff\<close> elements, whatever
  \<open>rand\<close> returns, no assertion on the order fails; only the two allocations can.\<close>

theorem merge_sort_main_passes:
  "merge_sort_main alloc rnd = (if alloc LEN then Inr () else Inl AssertFailed)"
proof (cases "alloc LEN")
  case True
  let ?xs = "map rnd [0..<LEN]"
  have "merge_sort alloc ?xs = Inr (sort ?xs, Work)"
    using True by (intro merge_sort_correct) (simp_all add: LEN_def)
  moreover have "check_sorted (sort ?xs) [1..<LEN] = Inr ()"
    by (rule check_sorted_pass) auto
  ultimately show ?thesis using True by (simp add: merge_sort_main_def)
qed (simp add: merge_sort_main_def check_def)

end
