(* ===== verification/SortMain.thy ===== *)
theory SortMain
  imports ThreadSort MergeSort
begin

text \<open>
  The programs around the multi-threaded sort: \<open>main\<close> of
  \<open>05-operating-systems/03-threads-concurrency-and-scheduling/02-multi-threaded-mergesort/mergesort.c\<close>
  with the clocks of \<open>cputime.c\<close> beside it, and \<open>main\<close> of \<open>old/merge_sort_multi.c\<close>. A run of \<open>main\<close>
  goes from the configuration in which it calls \<open>sort\<close> to one in which that call has ended; what the
  clocks show before and after is a parameter. The rounding of the printed seconds is left out.
\<close>

section \<open>The clocks\<close>

record timeval =
  tv_sec :: int
  tv_usec :: int

record clocks =
  cl_wall :: timeval
  cl_user :: timeval
  cl_kernel :: timeval

record profile_times =
  wall_clock_usec :: u64
  user_cpu_usec :: u64
  kernel_cpu_usec :: u64

text \<open>The time in microseconds, of type \<open>long\<close>, and as it is stored in a \<open>uint64_t\<close>.\<close>

definition usecs :: "timeval \<Rightarrow> int" where
  "usecs tv = 1000000 * tv_sec tv + tv_usec tv"

definition TOTAL_USEC :: "timeval \<Rightarrow> u64" where
  "TOTAL_USEC tv = word_of_int (usecs tv)"

definition profile_start :: "clocks \<Rightarrow> profile_times" where
  "profile_start now =
     \<lparr>wall_clock_usec = TOTAL_USEC (cl_wall now), user_cpu_usec = TOTAL_USEC (cl_user now),
      kernel_cpu_usec = TOTAL_USEC (cl_kernel now)\<rparr>"

text \<open>What \<open>profile_log\<close> prints, in microseconds: wall clock, user, system.\<close>

definition profile_log :: "clocks \<Rightarrow> profile_times \<Rightarrow> nat \<times> nat \<times> nat" where
  "profile_log now t =
     (unat (TOTAL_USEC (cl_wall now) - wall_clock_usec t), unat (TOTAL_USEC (cl_user now) - user_cpu_usec t),
      unat (TOTAL_USEC (cl_kernel now) - kernel_cpu_usec t))"

section \<open>The two programs\<close>

text \<open>\<open>main\<close> of \<open>mergesort.c\<close>: the call of \<open>sort\<close>, and what follows when it has left the array \<open>a\<close>.\<close>

definition mt_count :: nat where
  "mt_count = 2 ^ 24"

definition mt_main_call :: "(nat \<Rightarrow> int) \<Rightarrow> int list \<times> task" where
  "mt_main_call rnd = (map rnd [0..<mt_count], TSort 0 mt_count 4)"

definition mt_main_end :: "clocks \<Rightarrow> clocks \<Rightarrow> int list \<Rightarrow> (nat \<times> nat \<times> nat \<times> nat) res" where
  "mt_main_end before now a =
     (let logged = profile_log now (profile_start before)
      in andthen (sort_status a) (\<lambda>status. Inr (status, logged)))"

text \<open>\<open>main\<close> of \<open>merge_sort_multi.c\<close>: eight threads, and assertions instead of a status.\<close>

definition multi_main_call :: "(nat \<Rightarrow> bool) \<Rightarrow> (nat \<Rightarrow> int) \<Rightarrow> (int list \<times> task) res" where
  "multi_main_call alloc rnd = andthen (check (alloc LEN)) (\<lambda>_. Inr (map rnd [0..<LEN], TSort 0 LEN 8))"

definition multi_main_end :: "int list \<Rightarrow> unit res" where
  "multi_main_end a = check_sorted a [1..<LEN]"

section \<open>Elapsed times\<close>

lemma unat_word_of_int64: "unat (word_of_int k :: u64) = nat (k mod 2 ^ 64)"
  by (simp add: unsigned_of_int take_bit_eq_mod)

lemma elapsed: "unat (TOTAL_USEC u - TOTAL_USEC v) = nat ((usecs u - usecs v) mod 2 ^ 64)"
proof -
  have eq: "TOTAL_USEC u - TOTAL_USEC v = (word_of_int (usecs u - usecs v) :: u64)"
    by (simp add: TOTAL_USEC_def)
  show ?thesis unfolding eq by (rule unat_word_of_int64)
qed

text \<open>What should be printed for a clock, and what is when it was set back.\<close>

definition elapsed_usecs :: "timeval \<Rightarrow> timeval \<Rightarrow> nat" where
  "elapsed_usecs v u = (if usecs v \<le> usecs u then nat (usecs u - usecs v) else 2 ^ 64 - nat (usecs v - usecs u))"

definition close :: "timeval \<Rightarrow> timeval \<Rightarrow> bool" where
  "close v u \<longleftrightarrow> \<bar>usecs u - usecs v\<bar> < 2 ^ 64"

lemma elapsed_close:
  assumes "close v u"
  shows "unat (TOTAL_USEC u - TOTAL_USEC v) = elapsed_usecs v u"
proof (cases "usecs v \<le> usecs u")
  case True
  then show ?thesis using assms unfolding elapsed by (simp add: elapsed_usecs_def close_def)
next
  case False
  have "(usecs u - usecs v) mod 2 ^ 64 = (usecs u - usecs v + 2 ^ 64) mod 2 ^ 64" by simp
  also have "\<dots> = usecs u - usecs v + 2 ^ 64"
    using False assms by (intro mod_pos_pos_trivial) (simp_all add: close_def)
  finally show ?thesis using False assms unfolding elapsed by (simp add: elapsed_usecs_def close_def nat_diff_distrib)
qed

definition clocks_close :: "clocks \<Rightarrow> clocks \<Rightarrow> bool" where
  "clocks_close c d \<longleftrightarrow> close (cl_wall c) (cl_wall d) \<and> close (cl_user c) (cl_user d) \<and> close (cl_kernel c) (cl_kernel d)"

lemma sorted_status: "sorted a \<Longrightarrow> sort_status a = Inr 0"
  unfolding sort_status_def by (intro report_status_0) auto

lemma finished_sorted:
  assumes "tstep\<^sup>*\<^sup>* (xs, TSort 0 (length xs) tcnt) (a, TDone)" "length xs < 2 ^ 32"
  shows "a = sort xs"
proof -
  have "reach (sort_start xs tcnt) tstep c" if "tstep\<^sup>*\<^sup>* (xs, TSort 0 (length xs) tcnt) c" for c
    using that
  proof (induction rule: rtranclp_induct)
    case base
    show ?case by (rule reach_init) (use assms(2) in \<open>simp add: sort_start_def\<close>)
  next
    case (step c d)
    show ?case by (rule reach_step [OF step.IH step.hyps(2)])
  qed
  then show ?thesis using run_inv_done ts.reach_inv assms(1) by blast
qed

lemma call_finishes: "length xs < 2 ^ 32 \<Longrightarrow> tstep\<^sup>*\<^sup>* (xs, TSort 0 (length xs) tcnt) (sort xs, TDone)"
  using ts.inv_init [of xs tcnt "(xs, TSort 0 (length xs) tcnt)"] by (intro run_inv_finish) (simp add: sort_start_def)

section \<open>Property\<close>

text \<open>
  C22: The programs around the threaded sort succeed. Whatever \<open>rand\<close> returns and however the threads
  interleave, a run of the call of \<open>sort\<close> can end, and on every end \<open>main\<close> of \<open>mergesort.c\<close> exits with
  0 and \<open>main\<close> of \<open>merge_sort_multi.c\<close>, when it has memory, passes its assertions; the first prints for
  each clock the microseconds that have passed, or, for a clock that was set back by \<open>k\<close>
  microseconds, \<open>2 ^ 64 - k\<close>.
\<close>

theorem sort_mains:
  assumes "clocks_close before now"
  shows "(\<exists>a. tstep\<^sup>*\<^sup>* (mt_main_call rnd) (a, TDone)) \<and>
    (\<forall>a. tstep\<^sup>*\<^sup>* (mt_main_call rnd) (a, TDone) \<longrightarrow>
       mt_main_end before now a = Inr (0, elapsed_usecs (cl_wall before) (cl_wall now),
         elapsed_usecs (cl_user before) (cl_user now), elapsed_usecs (cl_kernel before) (cl_kernel now))) \<and>
    (\<forall>c. multi_main_call alloc rnd = Inr c \<longrightarrow> (\<exists>a. tstep\<^sup>*\<^sup>* c (a, TDone)) \<and>
       (\<forall>a. tstep\<^sup>*\<^sup>* c (a, TDone) \<longrightarrow> multi_main_end a = Inr ()))"
proof (intro conjI allI impI)
  let ?xs = "map rnd [0..<mt_count]" and ?ys = "map rnd [0..<LEN]"
  have len: "length ?xs = mt_count" "length ?xs < 2 ^ 32" "length ?ys = LEN" "length ?ys < 2 ^ 32"
    by (simp_all add: mt_count_def LEN_def)
  show "\<exists>a. tstep\<^sup>*\<^sup>* (mt_main_call rnd) (a, TDone)"
    using call_finishes [OF len(2), of 4] len(1) by (auto simp: mt_main_call_def)
  show "mt_main_end before now a = Inr (0, elapsed_usecs (cl_wall before) (cl_wall now),
      elapsed_usecs (cl_user before) (cl_user now), elapsed_usecs (cl_kernel before) (cl_kernel now))"
    if "tstep\<^sup>*\<^sup>* (mt_main_call rnd) (a, TDone)" for a
  proof -
    have "a = sort ?xs" using finished_sorted [OF _ len(2)] that len(1) by (simp add: mt_main_call_def)
    then show ?thesis using assms
      by (simp add: mt_main_end_def sorted_status profile_log_def profile_start_def clocks_close_def elapsed_close)
  qed
  show "\<exists>a. tstep\<^sup>*\<^sup>* c (a, TDone)" if "multi_main_call alloc rnd = Inr c" for c
    using that call_finishes [OF len(4), of 8] len(3)
    by (auto simp: multi_main_call_def check_def split: if_splits)
  show "multi_main_end a = Inr ()" if c: "multi_main_call alloc rnd = Inr c" and r: "tstep\<^sup>*\<^sup>* c (a, TDone)" for c a
  proof -
    have "c = (?ys, TSort 0 (length ?ys) 8)"
      using c len(3) by (auto simp: multi_main_call_def check_def split: if_splits)
    then have a: "a = sort ?ys" using finished_sorted [OF _ len(4)] r by simp
    then have "length a = LEN" "sorted a" using len(3) by simp_all
    then show ?thesis unfolding multi_main_end_def by (intro check_sorted_pass) auto
  qed
qed

lemma sort_mains_witness:
  "\<exists>a. mt_main_end \<lparr>cl_wall = \<lparr>tv_sec = 5, tv_usec = 999999\<rparr>, cl_user = \<lparr>tv_sec = 0, tv_usec = 10\<rparr>, cl_kernel = \<lparr>tv_sec = 0, tv_usec = 0\<rparr>\<rparr>
      \<lparr>cl_wall = \<lparr>tv_sec = 6, tv_usec = 1\<rparr>, cl_user = \<lparr>tv_sec = 0, tv_usec = 12\<rparr>, cl_kernel = \<lparr>tv_sec = 0, tv_usec = 0\<rparr>\<rparr> a =
    Inr (0, 2, 2, 0)"
proof -
  let ?b = "\<lparr>cl_wall = \<lparr>tv_sec = 5, tv_usec = 999999\<rparr>, cl_user = \<lparr>tv_sec = 0, tv_usec = 10\<rparr>, cl_kernel = \<lparr>tv_sec = 0, tv_usec = 0\<rparr>\<rparr>"
  let ?n = "\<lparr>cl_wall = \<lparr>tv_sec = 6, tv_usec = 1\<rparr>, cl_user = \<lparr>tv_sec = 0, tv_usec = 12\<rparr>, cl_kernel = \<lparr>tv_sec = 0, tv_usec = 0\<rparr>\<rparr>"
  have "clocks_close ?b ?n" by (simp add: clocks_close_def close_def usecs_def)
  from sort_mains [OF this, of "\<lambda>i. int (7 * i mod 5)"]
  obtain a where "mt_main_end ?b ?n a = Inr (0, elapsed_usecs (cl_wall ?b) (cl_wall ?n),
      elapsed_usecs (cl_user ?b) (cl_user ?n), elapsed_usecs (cl_kernel ?b) (cl_kernel ?n))"
    by blast
  then show ?thesis by (auto simp: elapsed_usecs_def usecs_def)
qed

end
