(* ===== verification/BlockingQueue.thy ===== *)
theory BlockingQueue
  imports Prelude
begin

text \<open>
  The bounded blocking queue of
  \<open>05-operating-systems/03-threads-concurrency-and-scheduling/04-ring-buffer/ring_buffer_posix.c\<close>:
  its state, one step of a producer in \<open>blocking_queue_put\<close> and of a consumer in
  \<open>blocking_queue_take\<close> for every access to shared state, and the system of any number of
  threads whose steps interleave. \<open>malloc\<close> and the initialisations are taken to succeed, as the
  code does not look at their results; the output of \<open>printf\<close> is left out.
\<close>

section \<open>The queue\<close>

text \<open>A mutex is the thread that holds it, a semaphore its value; cells start unwritten.\<close>

record bq =
  bq_buffer :: "ptr option list"
  bq_capacity :: nat
  bq_head :: nat
  bq_tail :: nat
  bq_mutex_head :: "nat option"
  bq_mutex_tail :: "nat option"
  bq_sem_element :: nat
  bq_sem_space :: nat

definition blocking_queue_init :: "nat \<Rightarrow> bq" where
  "blocking_queue_init capacity =
     \<lparr>bq_buffer = replicate capacity None, bq_capacity = capacity, bq_head = 0, bq_tail = 0,
      bq_mutex_head = None, bq_mutex_tail = None, bq_sem_element = 0, bq_sem_space = capacity\<rparr>"

text \<open>What \<open>blocking_queue_destroy\<close> releases, in order.\<close>

datatype bq_resource = Sem_space | Sem_element | Mutex_tail | Mutex_head | Buffer

definition blocking_queue_destroy :: "bq \<Rightarrow> bq_resource list" where
  "blocking_queue_destroy b = [Sem_space, Sem_element, Mutex_tail, Mutex_head, Buffer]"

section \<open>The threads\<close>

text \<open>
  Where a producer is in \<open>blocking_queue_put\<close>: about to wait for space, to lock, to store the
  element, to advance the tail, to unlock, to post. \<open>p_i\<close> is the counter of \<open>producer\<close>,
  \<open>p_e\<close> the argument of the current call.
\<close>

datatype ppc = P_wait | P_lock | P_store | P_advance | P_unlock | P_post

record producer =
  p_pc :: ppc
  p_i :: nat
  p_e :: ptr

datatype cpc = C_wait | C_lock | C_load | C_advance | C_unlock | C_post

record consumer =
  c_pc :: cpc
  c_k :: nat
  c_e :: ptr

text \<open>
  The system: the queue, the threads, and two histories that no thread reads, the elements
  stored (each with its producer) and the elements loaded. \<open>fault\<close> is set by an access outside
  the buffer, a load of a cell that was never written or an overflow of a producer's \<open>int\<close>.
\<close>

record bsys =
  queue :: bq
  prods :: "nat \<Rightarrow> producer"
  conss :: "nat \<Rightarrow> consumer"
  stored :: "(nat \<times> ptr) list"
  loaded :: "ptr list"
  fault :: bool

text \<open>
  One step of producer \<open>p\<close>, \<open>None\<close> where it blocks. Its \<open>i\<close>-th element is \<open>val p i\<close>, and it
  starts a call as long as \<open>pmore p i\<close>.
\<close>

definition prod_step :: "(nat \<Rightarrow> nat \<Rightarrow> ptr) \<Rightarrow> (nat \<Rightarrow> nat \<Rightarrow> bool) \<Rightarrow> nat \<Rightarrow> bsys \<Rightarrow> bsys option" where
  "prod_step val pmore p s =
     (let b = queue s; t = prods s p;
          go = (\<lambda>b' t'. s\<lparr>queue := b', prods := (prods s)(p := t')\<rparr>)
      in case p_pc t of
        P_wait \<Rightarrow>
          if pmore p (p_i t) \<and> 0 < bq_sem_space b
          then Some (go (b\<lparr>bq_sem_space := bq_sem_space b - 1\<rparr>)
                 (t\<lparr>p_pc := P_lock, p_i := Suc (p_i t), p_e := val p (p_i t)\<rparr>))
          else None
      | P_lock \<Rightarrow>
          if bq_mutex_tail b = None
          then Some (go (b\<lparr>bq_mutex_tail := Some p\<rparr>) (t\<lparr>p_pc := P_store\<rparr>))
          else None
      | P_store \<Rightarrow>
          (case wr (bq_buffer b) (bq_tail b) (Some (p_e t)) of
             Inl _ \<Rightarrow> Some (s\<lparr>fault := True\<rparr>)
           | Inr buf \<Rightarrow> Some ((go (b\<lparr>bq_buffer := buf\<rparr>) (t\<lparr>p_pc := P_advance\<rparr>))
               \<lparr>stored := stored s @ [(p, p_e t)]\<rparr>))
      | P_advance \<Rightarrow>
          Some (go (b\<lparr>bq_tail := (bq_tail b + 1) mod bq_capacity b\<rparr>) (t\<lparr>p_pc := P_unlock\<rparr>))
      | P_unlock \<Rightarrow> Some (go (b\<lparr>bq_mutex_tail := None\<rparr>) (t\<lparr>p_pc := P_post\<rparr>))
      | P_post \<Rightarrow>
          Some (go (b\<lparr>bq_sem_element := bq_sem_element b + 1\<rparr>) (t\<lparr>p_pc := P_wait\<rparr>)))"

text \<open>One step of consumer \<open>c\<close>, which starts its \<open>k\<close>-th call as long as \<open>cmore c k\<close>.\<close>

definition cons_step :: "(nat \<Rightarrow> nat \<Rightarrow> bool) \<Rightarrow> nat \<Rightarrow> bsys \<Rightarrow> bsys option" where
  "cons_step cmore c s =
     (let b = queue s; t = conss s c;
          go = (\<lambda>b' t'. s\<lparr>queue := b', conss := (conss s)(c := t')\<rparr>)
      in case c_pc t of
        C_wait \<Rightarrow>
          if cmore c (c_k t) \<and> 0 < bq_sem_element b
          then Some (go (b\<lparr>bq_sem_element := bq_sem_element b - 1\<rparr>)
                 (t\<lparr>c_pc := C_lock, c_k := Suc (c_k t)\<rparr>))
          else None
      | C_lock \<Rightarrow>
          if bq_mutex_head b = None
          then Some (go (b\<lparr>bq_mutex_head := Some c\<rparr>) (t\<lparr>c_pc := C_load\<rparr>))
          else None
      | C_load \<Rightarrow>
          (case rd (bq_buffer b) (bq_head b) of
             Inr (Some e) \<Rightarrow> Some ((go b (t\<lparr>c_pc := C_advance, c_e := e\<rparr>))\<lparr>loaded := loaded s @ [e]\<rparr>)
           | _ \<Rightarrow> Some (s\<lparr>fault := True\<rparr>))
      | C_advance \<Rightarrow>
          Some (go (b\<lparr>bq_head := (bq_head b + 1) mod bq_capacity b\<rparr>) (t\<lparr>c_pc := C_unlock\<rparr>))
      | C_unlock \<Rightarrow> Some (go (b\<lparr>bq_mutex_head := None\<rparr>) (t\<lparr>c_pc := C_post\<rparr>))
      | C_post \<Rightarrow>
          Some (go (b\<lparr>bq_sem_space := bq_sem_space b + 1\<rparr>) (t\<lparr>c_pc := C_wait\<rparr>)))"

text \<open>The system of \<open>n\<close> producers and \<open>m\<close> consumers.\<close>

inductive bstep :: "(nat \<Rightarrow> nat \<Rightarrow> ptr) \<Rightarrow> (nat \<Rightarrow> nat \<Rightarrow> bool) \<Rightarrow> (nat \<Rightarrow> nat \<Rightarrow> bool) \<Rightarrow> nat \<Rightarrow> nat \<Rightarrow>
    bsys \<Rightarrow> bsys \<Rightarrow> bool"
  for val pmore cmore n m where
  produce: "p < n \<Longrightarrow> prod_step val pmore p s = Some s' \<Longrightarrow> bstep val pmore cmore n m s s'"
| consume: "c < m \<Longrightarrow> cons_step cmore c s = Some s' \<Longrightarrow> bstep val pmore cmore n m s s'"

definition bsys_init :: "nat \<Rightarrow> bsys" where
  "bsys_init cap = \<lparr>queue = blocking_queue_init cap,
     prods = (\<lambda>_. \<lparr>p_pc = P_wait, p_i = 0, p_e = NULL\<rparr>),
     conss = (\<lambda>_. \<lparr>c_pc = C_wait, c_k = 0, c_e = NULL\<rparr>), stored = [], loaded = [], fault = False\<rparr>"

definition binit :: "nat \<Rightarrow> bsys \<Rightarrow> bool" where
  "binit cap s \<longleftrightarrow> 0 < cap \<and> s = bsys_init cap"

section \<open>The invariant\<close>

definition taking :: "producer \<Rightarrow> bool" where
  "taking t \<longleftrightarrow> p_pc t \<in> {P_lock, P_store}"

definition posting :: "producer \<Rightarrow> bool" where
  "posting t \<longleftrightarrow> p_pc t \<in> {P_advance, P_unlock, P_post}"

definition p_holds :: "producer \<Rightarrow> bool" where
  "p_holds t \<longleftrightarrow> p_pc t \<in> {P_store, P_advance, P_unlock}"

definition c_taking :: "consumer \<Rightarrow> bool" where
  "c_taking t \<longleftrightarrow> c_pc t \<in> {C_lock, C_load}"

definition c_posting :: "consumer \<Rightarrow> bool" where
  "c_posting t \<longleftrightarrow> c_pc t \<in> {C_advance, C_unlock, C_post}"

definition c_holds :: "consumer \<Rightarrow> bool" where
  "c_holds t \<longleftrightarrow> c_pc t \<in> {C_load, C_advance, C_unlock}"

text \<open>The mutexes exclude: the holder is the one thread between its lock and its unlock.\<close>

definition mutex_ok :: "nat \<Rightarrow> nat \<Rightarrow> bsys \<Rightarrow> bool" where
  "mutex_ok n m s \<longleftrightarrow>
     (\<forall>p<n. p_holds (prods s p) \<longleftrightarrow> bq_mutex_tail (queue s) = Some p) \<and>
     (\<forall>c<m. c_holds (conss s c) \<longleftrightarrow> bq_mutex_head (queue s) = Some c) \<and>
     (\<forall>p. bq_mutex_tail (queue s) = Some p \<longrightarrow> p < n) \<and>
     (\<forall>c. bq_mutex_head (queue s) = Some c \<longrightarrow> c < m)"

text \<open>The semaphores account for every element and every space.\<close>

definition sems_ok :: "nat \<Rightarrow> nat \<Rightarrow> nat \<Rightarrow> bsys \<Rightarrow> bool" where
  "sems_ok cap n m s \<longleftrightarrow>
     length (stored s) = length (loaded s) + bq_sem_element (queue s) +
       count_of n posting (prods s) + count_of m c_taking (conss s) \<and>
     cap + length (loaded s) = length (stored s) + bq_sem_space (queue s) +
       count_of n taking (prods s) + count_of m c_posting (conss s)"

definition tail_behind :: "bsys \<Rightarrow> nat" where
  "tail_behind s = (case bq_mutex_tail (queue s) of
     Some p \<Rightarrow> if p_pc (prods s p) = P_advance then 1 else 0 | None \<Rightarrow> 0)"

definition head_behind :: "bsys \<Rightarrow> nat" where
  "head_behind s = (case bq_mutex_head (queue s) of
     Some c \<Rightarrow> if c_pc (conss s c) = C_advance then 1 else 0 | None \<Rightarrow> 0)"

text \<open>The buffer holds the stored elements not yet loaded, each in its slot.\<close>

definition ring_ok :: "nat \<Rightarrow> bsys \<Rightarrow> bool" where
  "ring_ok cap s \<longleftrightarrow>
     bq_capacity (queue s) = cap \<and> length (bq_buffer (queue s)) = cap \<and>
     bq_tail (queue s) < cap \<and> (bq_tail (queue s) + tail_behind s) mod cap = length (stored s) mod cap \<and>
     bq_head (queue s) < cap \<and> (bq_head (queue s) + head_behind s) mod cap = length (loaded s) mod cap \<and>
     (\<forall>j. length (loaded s) \<le> j \<and> j < length (stored s) \<longrightarrow>
        bq_buffer (queue s) ! (j mod cap) = Some (snd (stored s ! j)))"

text \<open>What was loaded is the beginning of what was stored, and each producer stores in order.\<close>

definition history_ok :: "(nat \<Rightarrow> nat \<Rightarrow> ptr) \<Rightarrow> nat \<Rightarrow> bsys \<Rightarrow> bool" where
  "history_ok val n s \<longleftrightarrow>
     loaded s = take (length (loaded s)) (map snd (stored s)) \<and> set (map fst (stored s)) \<subseteq> {..<n} \<and>
     (\<forall>p<n. (if taking (prods s p) then p_e (prods s p) = val p (p_i (prods s p) - 1) \<and> 0 < p_i (prods s p)
             else True) \<and>
        map snd (filter (\<lambda>e. fst e = p) (stored s)) =
          map (val p) [0..<p_i (prods s p) - (if taking (prods s p) then 1 else 0)])"

definition binv :: "(nat \<Rightarrow> nat \<Rightarrow> ptr) \<Rightarrow> nat \<Rightarrow> nat \<Rightarrow> nat \<Rightarrow> bsys \<Rightarrow> bool" where
  "binv val cap n m s \<longleftrightarrow> 0 < cap \<and> \<not> fault s \<and> mutex_ok n m s \<and> sems_ok cap n m s \<and> ring_ok cap s \<and>
     history_ok val n s"


lemmas pc_defs = taking_def posting_def p_holds_def c_taking_def c_posting_def c_holds_def

lemma prod_step_cases [consumes 1, case_names wait lock fault store advance unlock post]:
  assumes "prod_step val pmore p s = Some s'"
  obtains "p_pc (prods s p) = P_wait" "pmore p (p_i (prods s p))" "0 < bq_sem_space (queue s)"
      "s' = s\<lparr>queue := (queue s)\<lparr>bq_sem_space := bq_sem_space (queue s) - 1\<rparr>,
        prods := (prods s)(p := (prods s p)\<lparr>p_pc := P_lock, p_i := Suc (p_i (prods s p)),
          p_e := val p (p_i (prods s p))\<rparr>)\<rparr>"
  | "p_pc (prods s p) = P_lock" "bq_mutex_tail (queue s) = None"
      "s' = s\<lparr>queue := (queue s)\<lparr>bq_mutex_tail := Some p\<rparr>,
        prods := (prods s)(p := (prods s p)\<lparr>p_pc := P_store\<rparr>)\<rparr>"
  | "p_pc (prods s p) = P_store" "length (bq_buffer (queue s)) \<le> bq_tail (queue s)" "s' = s\<lparr>fault := True\<rparr>"
  | "p_pc (prods s p) = P_store" "bq_tail (queue s) < length (bq_buffer (queue s))"
      "s' = s\<lparr>queue := (queue s)\<lparr>bq_buffer := (bq_buffer (queue s))[bq_tail (queue s) := Some (p_e (prods s p))]\<rparr>,
        prods := (prods s)(p := (prods s p)\<lparr>p_pc := P_advance\<rparr>),
        stored := stored s @ [(p, p_e (prods s p))]\<rparr>"
  | "p_pc (prods s p) = P_advance"
      "s' = s\<lparr>queue := (queue s)\<lparr>bq_tail := (bq_tail (queue s) + 1) mod bq_capacity (queue s)\<rparr>,
        prods := (prods s)(p := (prods s p)\<lparr>p_pc := P_unlock\<rparr>)\<rparr>"
  | "p_pc (prods s p) = P_unlock"
      "s' = s\<lparr>queue := (queue s)\<lparr>bq_mutex_tail := None\<rparr>,
        prods := (prods s)(p := (prods s p)\<lparr>p_pc := P_post\<rparr>)\<rparr>"
  | "p_pc (prods s p) = P_post"
      "s' = s\<lparr>queue := (queue s)\<lparr>bq_sem_element := bq_sem_element (queue s) + 1\<rparr>,
        prods := (prods s)(p := (prods s p)\<lparr>p_pc := P_wait\<rparr>)\<rparr>"
proof (cases "p_pc (prods s p)")
  case P_store
  then show ?thesis using assms that(3,4)
    by (cases "bq_tail (queue s) < length (bq_buffer (queue s))") (simp_all add: prod_step_def Let_def wr_def)
next
  case P_wait
  then show ?thesis using assms by (intro that(1)) (auto simp: prod_step_def Let_def split: if_splits)
next
  case P_lock
  then show ?thesis using assms by (intro that(2)) (auto simp: prod_step_def Let_def split: if_splits)
next
  case P_advance
  then show ?thesis using assms by (intro that(5)) (auto simp: prod_step_def Let_def split: if_splits)
next
  case P_unlock
  then show ?thesis using assms by (intro that(6)) (auto simp: prod_step_def Let_def split: if_splits)
next
  case P_post
  then show ?thesis using assms by (intro that(7)) (auto simp: prod_step_def Let_def split: if_splits)
qed

lemma cons_step_cases [consumes 1, case_names wait lock fault load advance unlock post]:
  assumes "cons_step cmore c s = Some s'"
  obtains "c_pc (conss s c) = C_wait" "cmore c (c_k (conss s c))" "0 < bq_sem_element (queue s)"
      "s' = s\<lparr>queue := (queue s)\<lparr>bq_sem_element := bq_sem_element (queue s) - 1\<rparr>,
        conss := (conss s)(c := (conss s c)\<lparr>c_pc := C_lock, c_k := Suc (c_k (conss s c))\<rparr>)\<rparr>"
  | "c_pc (conss s c) = C_lock" "bq_mutex_head (queue s) = None"
      "s' = s\<lparr>queue := (queue s)\<lparr>bq_mutex_head := Some c\<rparr>,
        conss := (conss s)(c := (conss s c)\<lparr>c_pc := C_load\<rparr>)\<rparr>"
  | "c_pc (conss s c) = C_load"
      "\<forall>e. \<not> (bq_head (queue s) < length (bq_buffer (queue s)) \<and> bq_buffer (queue s) ! bq_head (queue s) = Some e)"
      "s' = s\<lparr>fault := True\<rparr>"
  | e where "c_pc (conss s c) = C_load" "bq_head (queue s) < length (bq_buffer (queue s))"
      "bq_buffer (queue s) ! bq_head (queue s) = Some e"
      "s' = s\<lparr>queue := queue s, conss := (conss s)(c := (conss s c)\<lparr>c_pc := C_advance, c_e := e\<rparr>),
        loaded := loaded s @ [e]\<rparr>"
  | "c_pc (conss s c) = C_advance"
      "s' = s\<lparr>queue := (queue s)\<lparr>bq_head := (bq_head (queue s) + 1) mod bq_capacity (queue s)\<rparr>,
        conss := (conss s)(c := (conss s c)\<lparr>c_pc := C_unlock\<rparr>)\<rparr>"
  | "c_pc (conss s c) = C_unlock"
      "s' = s\<lparr>queue := (queue s)\<lparr>bq_mutex_head := None\<rparr>,
        conss := (conss s)(c := (conss s c)\<lparr>c_pc := C_post\<rparr>)\<rparr>"
  | "c_pc (conss s c) = C_post"
      "s' = s\<lparr>queue := (queue s)\<lparr>bq_sem_space := bq_sem_space (queue s) + 1\<rparr>,
        conss := (conss s)(c := (conss s c)\<lparr>c_pc := C_wait\<rparr>)\<rparr>"
proof (cases "c_pc (conss s c)")
  case C_load
  show ?thesis
  proof (cases "rd (bq_buffer (queue s)) (bq_head (queue s))")
    case (Inl f)
    then show ?thesis using assms that(3) C_load
      by (auto simp: cons_step_def Let_def rd_def split: if_splits)
  next
    case (Inr x)
    then show ?thesis using assms that(3,4) C_load
      by (cases x) (auto simp: cons_step_def Let_def rd_def split: if_splits)
  qed
next
  case C_wait
  then show ?thesis using assms by (intro that(1)) (auto simp: cons_step_def Let_def split: if_splits)
next
  case C_lock
  then show ?thesis using assms by (intro that(2)) (auto simp: cons_step_def Let_def split: if_splits)
next
  case C_advance
  then show ?thesis using assms by (intro that(5)) (auto simp: cons_step_def Let_def split: if_splits)
next
  case C_unlock
  then show ?thesis using assms by (intro that(6)) (auto simp: cons_step_def Let_def split: if_splits)
next
  case C_post
  then show ?thesis using assms by (intro that(7)) (auto simp: cons_step_def Let_def split: if_splits)
qed

section \<open>Every step keeps it\<close>

lemma mutex_prod:
  assumes "prod_step val pmore p s = Some s'" "mutex_ok n m s" "p < n"
  shows "mutex_ok n m s'"
  using assms
proof (cases rule: prod_step_cases)
  case lock
  then show ?thesis using assms(2,3) unfolding mutex_ok_def by (auto simp: p_holds_def)
next
  case unlock
  then have "bq_mutex_tail (queue s) = Some p" using assms(2,3) by (auto simp: mutex_ok_def p_holds_def)
  then show ?thesis using unlock assms(2,3) unfolding mutex_ok_def by (auto simp: p_holds_def)
qed (use assms(2,3) in \<open>auto simp: mutex_ok_def p_holds_def\<close>)

lemma mutex_cons:
  assumes "cons_step cmore c s = Some s'" "mutex_ok n m s" "c < m"
  shows "mutex_ok n m s'"
  using assms
proof (cases rule: cons_step_cases)
  case lock
  then show ?thesis using assms(2,3) unfolding mutex_ok_def by (auto simp: c_holds_def)
next
  case unlock
  then have "bq_mutex_head (queue s) = Some c" using assms(2,3) by (auto simp: mutex_ok_def c_holds_def)
  then show ?thesis using unlock assms(2,3) unfolding mutex_ok_def by (auto simp: c_holds_def)
qed (use assms(2,3) in \<open>auto simp: mutex_ok_def c_holds_def\<close>)


lemma sems_prod:
  assumes "prod_step val pmore p s = Some s'" "sems_ok cap n m s" "p < n"
  shows "sems_ok cap n m s'"
  using assms
proof (cases rule: prod_step_cases)
  case wait
  then show ?thesis using assms(2,3) count_of_enter [OF assms(3), of taking "prods s"]
    by (simp add: sems_ok_def pc_defs)
next
  case store
  then show ?thesis
    using assms(2,3) count_of_leave [OF assms(3), of taking "prods s" "(prods s p)\<lparr>p_pc := P_advance\<rparr>"]
      count_of_enter [OF assms(3), of posting "prods s"]
    by (simp add: sems_ok_def pc_defs)
next
  case post
  then show ?thesis
    using assms(2,3) count_of_leave [OF assms(3), of posting "prods s" "(prods s p)\<lparr>p_pc := P_wait\<rparr>"]
    by (simp add: sems_ok_def pc_defs)
qed (use assms(2,3) in \<open>simp_all add: sems_ok_def pc_defs\<close>)

lemma sems_cons:
  assumes "cons_step cmore c s = Some s'" "sems_ok cap n m s" "c < m"
  shows "sems_ok cap n m s'"
  using assms
proof (cases rule: cons_step_cases)
  case wait
  then show ?thesis using assms(2,3) count_of_enter [OF assms(3), of c_taking "conss s"]
    by (simp add: sems_ok_def pc_defs)
next
  case (load e)
  then show ?thesis
    using assms(2,3) count_of_leave [OF assms(3), of c_taking "conss s" "(conss s c)\<lparr>c_pc := C_advance, c_e := e\<rparr>"]
      count_of_enter [OF assms(3), of c_posting "conss s"]
    by (simp add: sems_ok_def pc_defs)
next
  case post
  then show ?thesis
    using assms(2,3) count_of_leave [OF assms(3), of c_posting "conss s" "(conss s c)\<lparr>c_pc := C_wait\<rparr>"]
    by (simp add: sems_ok_def pc_defs)
qed (use assms(2,3) in \<open>simp_all add: sems_ok_def pc_defs\<close>)

text \<open>A producer about to store has a free slot, a consumer about to load a full one.\<close>

lemma store_room:
  assumes "sems_ok cap n m s" "p < n" "p_pc (prods s p) = P_store"
  shows "length (stored s) < cap + length (loaded s)" "length (loaded s) \<le> length (stored s)"
  using assms(1) count_of_pos [of p n taking "prods s"] assms(2,3) by (auto simp: sems_ok_def taking_def)

lemma load_room:
  assumes "sems_ok cap n m s" "c < m" "c_pc (conss s c) = C_load"
  shows "length (loaded s) < length (stored s)"
  using assms(1) count_of_pos [of c m c_taking "conss s"] assms(2,3) by (auto simp: sems_ok_def c_taking_def)

lemma slot_neq: "(i :: nat) < j \<Longrightarrow> j < cap + i \<Longrightarrow> i mod cap \<noteq> j mod cap"
  by (metis add.commute add_less_cancel_left le_add_diff_inverse less_imp_le mod_eq_dvd_iff_nat
      nat_dvd_not_less zero_less_diff)

lemma behind_other [simp]:
  "bq_mutex_head q' = bq_mutex_head (queue s) \<Longrightarrow> head_behind (s\<lparr>queue := q', prods := x\<rparr>) = head_behind s"
  "bq_mutex_tail q' = bq_mutex_tail (queue s) \<Longrightarrow> tail_behind (s\<lparr>queue := q', conss := y\<rparr>) = tail_behind s"
  "tail_behind (s\<lparr>conss := y\<rparr>) = tail_behind s" "head_behind (s\<lparr>prods := x\<rparr>) = head_behind s"
  "bq_mutex_head q' = bq_mutex_head (queue s) \<Longrightarrow> head_behind (s\<lparr>queue := q'\<rparr>) = head_behind s"
  "bq_mutex_tail q' = bq_mutex_tail (queue s) \<Longrightarrow> tail_behind (s\<lparr>queue := q'\<rparr>) = tail_behind s"
  "head_behind (s\<lparr>stored := w\<rparr>) = head_behind s" "tail_behind (s\<lparr>stored := w\<rparr>) = tail_behind s"
  "head_behind (s\<lparr>loaded := r\<rparr>) = head_behind s" "tail_behind (s\<lparr>loaded := r\<rparr>) = tail_behind s"
  "head_behind (s\<lparr>fault := f\<rparr>) = head_behind s" "tail_behind (s\<lparr>fault := f\<rparr>) = tail_behind s"
  by (simp_all add: head_behind_def tail_behind_def split: option.split)

lemma tail_own: "bq_mutex_tail q' = Some p \<Longrightarrow>
  tail_behind (s\<lparr>queue := q', prods := (prods s)(p := t)\<rparr>) = (if p_pc t = P_advance then 1 else 0)"
  by (simp add: tail_behind_def)

lemma head_own: "bq_mutex_head q' = Some c \<Longrightarrow>
  head_behind (s\<lparr>queue := q', conss := (conss s)(c := t)\<rparr>) = (if c_pc t = C_advance then 1 else 0)"
  by (simp add: head_behind_def)

lemma head_own_load: "bq_mutex_head (queue s) = Some c \<Longrightarrow>
  head_behind (s\<lparr>conss := (conss s)(c := t)\<rparr>) = (if c_pc t = C_advance then 1 else 0)"
  by (simp add: head_behind_def)

lemma behind_none [simp]:
  "bq_mutex_tail (queue s) = None \<Longrightarrow> tail_behind s = 0"
  "bq_mutex_head (queue s) = None \<Longrightarrow> head_behind s = 0"
  by (simp_all add: tail_behind_def head_behind_def)

lemma tail_same:
  "mutex_ok n m s \<Longrightarrow> p < n \<Longrightarrow> \<not> p_holds (prods s p) \<Longrightarrow>
   bq_mutex_tail q' = bq_mutex_tail (queue s) \<Longrightarrow>
   tail_behind (s\<lparr>queue := q', prods := (prods s)(p := t)\<rparr>) = tail_behind s"
  by (auto simp: tail_behind_def mutex_ok_def split: option.split)

lemma head_same:
  "mutex_ok n m s \<Longrightarrow> c < m \<Longrightarrow> \<not> c_holds (conss s c) \<Longrightarrow>
   bq_mutex_head q' = bq_mutex_head (queue s) \<Longrightarrow>
   head_behind (s\<lparr>queue := q', conss := (conss s)(c := t)\<rparr>) = head_behind s"
  by (auto simp: head_behind_def mutex_ok_def split: option.split)

lemma ring_prod:
  assumes "prod_step val pmore p s = Some s'" "ring_ok cap s" "mutex_ok n m s" "sems_ok cap n m s"
    "p < n" "0 < cap"
  shows "ring_ok cap s'"
  using assms(1)
proof (cases rule: prod_step_cases)
  case wait
  then show ?thesis using assms(2) tail_same [OF assms(3,5)] by (simp add: ring_ok_def p_holds_def)
next
  case lock
  then show ?thesis using assms(2) by (simp add: ring_ok_def tail_own)
next
  case fault
  then show ?thesis using assms(2) by (simp add: ring_ok_def)
next
  case store
  have mt: "bq_mutex_tail (queue s) = Some p"
    using store(1) assms(3,5) by (auto simp: mutex_ok_def p_holds_def)
  then have tb: "tail_behind s = 0" using store(1) by (simp add: tail_behind_def)
  have tail: "bq_tail (queue s) = length (stored s) mod cap"
    using assms(2) tb by (auto simp: ring_ok_def)
  note room = store_room [OF assms(4,5) store(1)]
  have cells: "bq_buffer (queue s') ! (j mod cap) = Some (snd (stored s' ! j))"
    if j: "length (loaded s) \<le> j" "j < Suc (length (stored s))" for j
  proof (cases "j = length (stored s)")
    case True
    then show ?thesis using store(2,3) tail assms(2) by (simp add: ring_ok_def)
  next
    case False
    then have "j < length (stored s)" using j by simp
    moreover from this have "j mod cap \<noteq> length (stored s) mod cap"
      using room j by (intro slot_neq) auto
    ultimately show ?thesis using store(3) tail assms(2) j by (simp add: ring_ok_def nth_append)
  qed
  show ?thesis
    using cells store(3) assms(2,6) mt tb by (simp add: ring_ok_def tail_own tail mod_Suc_eq)
next
  case advance
  then have mt: "bq_mutex_tail (queue s) = Some p"
    using assms(3,5) by (auto simp: mutex_ok_def p_holds_def)
  then have "tail_behind s = 1" using advance by (simp add: tail_behind_def)
  then show ?thesis using advance mt assms(2,6) by (simp add: ring_ok_def tail_own)
next
  case unlock
  then have mt: "bq_mutex_tail (queue s) = Some p"
    using assms(3,5) by (auto simp: mutex_ok_def p_holds_def)
  then have "tail_behind s = 0" using unlock by (simp add: tail_behind_def)
  then show ?thesis using unlock assms(2) by (simp add: ring_ok_def)
next
  case post
  then show ?thesis using assms(2) tail_same [OF assms(3,5)] by (simp add: ring_ok_def p_holds_def)
qed

lemma load_value:
  assumes "ring_ok cap s" "mutex_ok n m s" "sems_ok cap n m s" "c < m" "c_pc (conss s c) = C_load"
  shows "bq_mutex_head (queue s) = Some c" "head_behind s = 0"
    "bq_head (queue s) = length (loaded s) mod cap"
    "bq_buffer (queue s) ! bq_head (queue s) = Some (snd (stored s ! length (loaded s)))"
proof -
  show mh: "bq_mutex_head (queue s) = Some c" using assms(2,4,5) by (auto simp: mutex_ok_def c_holds_def)
  then show hb: "head_behind s = 0" using assms(5) by (simp add: head_behind_def)
  show h: "bq_head (queue s) = length (loaded s) mod cap" using assms(1) hb by (auto simp: ring_ok_def)
  show "bq_buffer (queue s) ! bq_head (queue s) = Some (snd (stored s ! length (loaded s)))"
    using load_room [OF assms(3-5)] assms(1) unfolding h by (simp add: ring_ok_def)
qed

lemma ring_cons:
  assumes "cons_step cmore c s = Some s'" "ring_ok cap s" "mutex_ok n m s" "sems_ok cap n m s"
    "c < m" "0 < cap"
  shows "ring_ok cap s'"
  using assms(1)
proof (cases rule: cons_step_cases)
  case wait
  then show ?thesis using assms(2) head_same [OF assms(3,5)] by (simp add: ring_ok_def c_holds_def)
next
  case lock
  then show ?thesis using assms(2) by (simp add: ring_ok_def head_own)
next
  case fault
  then show ?thesis using assms(2) by (simp add: ring_ok_def)
next
  case (load e)
  note v = load_value [OF assms(2-5) load(1)]
  show ?thesis using load assms(2) v(1,3) by (simp add: ring_ok_def head_own_load mod_Suc_eq)
next
  case advance
  then have mh: "bq_mutex_head (queue s) = Some c"
    using assms(3,5) by (auto simp: mutex_ok_def c_holds_def)
  then have "head_behind s = 1" using advance by (simp add: head_behind_def)
  then show ?thesis using advance mh assms(2,6) by (simp add: ring_ok_def head_own)
next
  case unlock
  then have mh: "bq_mutex_head (queue s) = Some c"
    using assms(3,5) by (auto simp: mutex_ok_def c_holds_def)
  then have "head_behind s = 0" using unlock by (simp add: head_behind_def)
  then show ?thesis using unlock assms(2) by (simp add: ring_ok_def)
next
  case post
  then show ?thesis using assms(2) head_same [OF assms(3,5)] by (simp add: ring_ok_def c_holds_def)
qed


lemma history_prod:
  assumes "prod_step val pmore p s = Some s'" "history_ok val n s" "sems_ok cap n m s" "p < n"
  shows "history_ok val n s'"
  using assms(1)
proof (cases rule: prod_step_cases)
  case store
  note room = store_room [OF assms(3,4) store(1)]
  have t: "taking (prods s p)" using store(1) by (simp add: taking_def)
  then have e: "p_e (prods s p) = val p (p_i (prods s p) - 1)" "0 < p_i (prods s p)"
    using assms(2,4) by (auto simp: history_ok_def)
  have up: "[0..<p_i (prods s p)] = [0..<p_i (prods s p) - 1] @ [p_i (prods s p) - 1]"
    using e(2) by (cases "p_i (prods s p)") simp_all
  show ?thesis
    using store(1,3) assms(2,4) room(2) t e up by (auto simp: history_ok_def taking_def)
qed (use assms(2,4) in \<open>auto simp: history_ok_def taking_def\<close>)

lemma history_cons:
  assumes "cons_step cmore c s = Some s'" "history_ok val n s" "ring_ok cap s" "mutex_ok n m s"
    "sems_ok cap n m s" "c < m"
  shows "history_ok val n s'"
  using assms(1)
proof (cases rule: cons_step_cases)
  case (load e)
  note v = load_value [OF assms(3-6) load(1)]
  have lt: "length (loaded s) < length (stored s)" by (rule load_room [OF assms(5,6) load(1)])
  have "e = map snd (stored s) ! length (loaded s)" using v(4) load(3) lt by simp
  then have "loaded s @ [e] = take (Suc (length (loaded s))) (map snd (stored s))"
    using assms(2) lt by (simp add: history_ok_def take_Suc_conv_app_nth)
  then show ?thesis using load assms(2) lt by (simp add: history_ok_def min_absorb2 Suc_leI)
qed (use assms(2) in \<open>simp_all add: history_ok_def\<close>)

lemma fault_prod:
  assumes "prod_step val pmore p s = Some s'" "ring_ok cap s" "\<not> fault s"
  shows "\<not> fault s'"
  using assms(1)
proof (cases rule: prod_step_cases)
  case fault
  then show ?thesis using assms(2) by (simp add: ring_ok_def)
qed (use assms(3) in simp_all)

lemma fault_cons:
  assumes "cons_step cmore c s = Some s'" "ring_ok cap s" "mutex_ok n m s" "sems_ok cap n m s" "c < m"
    "\<not> fault s"
  shows "\<not> fault s'"
  using assms(1)
proof (cases rule: cons_step_cases)
  case fault
  then show ?thesis using load_value [OF assms(2-5) fault(1)] assms(2) by (simp add: ring_ok_def)
qed (use assms(6) in simp_all)

lemma bstep_inv: "binv val cap n m s \<Longrightarrow> bstep val pmore cmore n m s s' \<Longrightarrow> binv val cap n m s'"
  unfolding binv_def
  by (erule bstep.cases)
    (auto intro: mutex_prod mutex_cons sems_prod sems_cons ring_prod ring_cons history_prod history_cons
      dest: fault_prod fault_cons)

lemma binit_inv: "binit cap s \<Longrightarrow> binv val cap n m s"
  by (auto simp: binit_def bsys_init_def binv_def mutex_ok_def sems_ok_def ring_ok_def history_ok_def pc_defs
      blocking_queue_init_def count_of_def tail_behind_def head_behind_def)

interpretation bq: inductive_invariant "binit cap" "bstep val pmore cmore n m" "binv val cap n m"
  for cap val pmore cmore n m
  by unfold_locales (auto intro: binit_inv bstep_inv)


section \<open>Whole calls, and the first half of \<open>main\<close>\<close>

text \<open>A call that runs alone: its steps in a row, \<open>None\<close> if one of them blocks.\<close>

fun repeat_step :: "nat \<Rightarrow> ('s \<Rightarrow> 's option) \<Rightarrow> 's \<Rightarrow> 's option" where
  "repeat_step 0 f s = Some s"
| "repeat_step (Suc k) f s = (case f s of None \<Rightarrow> None | Some s' \<Rightarrow> repeat_step k f s')"

definition blocking_queue_put :: "(nat \<Rightarrow> nat \<Rightarrow> ptr) \<Rightarrow> (nat \<Rightarrow> nat \<Rightarrow> bool) \<Rightarrow> nat \<Rightarrow> bsys \<Rightarrow> bsys option" where
  "blocking_queue_put val pmore p s = repeat_step 6 (prod_step val pmore p) s"

definition blocking_queue_take :: "(nat \<Rightarrow> nat \<Rightarrow> bool) \<Rightarrow> nat \<Rightarrow> bsys \<Rightarrow> bsys option" where
  "blocking_queue_take cmore c s = repeat_step 6 (cons_step cmore c) s"

abbreviation always :: "nat \<Rightarrow> nat \<Rightarrow> bool" where
  "always \<equiv> \<lambda>_ _. True"

definition basic_val :: "nat \<Rightarrow> nat \<Rightarrow> ptr" where
  "basic_val p i = word_of_nat (i mod 5)"

text \<open>The basic test: five calls of put and five of take on a queue of capacity 8, twice.\<close>

definition basic_round :: "bsys \<Rightarrow> bsys option" where
  "basic_round s = (case repeat_step 5 (blocking_queue_put basic_val always 0) s of
     None \<Rightarrow> None | Some s' \<Rightarrow> repeat_step 5 (blocking_queue_take always 0) s')"

definition bq_basic_test :: "bsys option" where
  "bq_basic_test = repeat_step 2 basic_round (bsys_init 8)"

text \<open>
  The endless threads of the concurrent test. The argument of a call is \<open>i++ % 100\<close> with an \<open>int\<close>:
  the increment is defined below \<open>INT_MAX\<close>, and a producer that comes back for the next call with
  \<open>INT_MAX\<close> overflows, which is the end of all that is defined.
\<close>

definition producer_val :: "nat \<Rightarrow> nat \<Rightarrow> ptr" where
  "producer_val p i = word_of_nat (i mod 100)"

definition can_increment :: "nat \<Rightarrow> nat \<Rightarrow> bool" where
  "can_increment p i \<longleftrightarrow> int i < INT_MAX"

definition overflows :: "producer \<Rightarrow> bool" where
  "overflows t \<longleftrightarrow> p_pc t = P_wait \<and> INT_MAX \<le> int (p_i t)"

inductive bq_concurrent :: "nat \<Rightarrow> nat \<Rightarrow> bsys \<Rightarrow> bsys \<Rightarrow> bool" for n m where
  concurrent_step: "\<not> fault s \<Longrightarrow> bstep producer_val can_increment always n m s s' \<Longrightarrow> bq_concurrent n m s s'"
| concurrent_overflow: "\<not> fault s \<Longrightarrow> p < n \<Longrightarrow> overflows (prods s p) \<Longrightarrow> bq_concurrent n m s (s\<lparr>fault := True\<rparr>)"

section \<open>When no thread can move\<close>

lemma prod_blocked:
  "prod_step val pmore p s = None \<longleftrightarrow>
     p_pc (prods s p) = P_wait \<and> \<not> (pmore p (p_i (prods s p)) \<and> 0 < bq_sem_space (queue s)) \<or>
     p_pc (prods s p) = P_lock \<and> bq_mutex_tail (queue s) \<noteq> None"
  by (auto simp: prod_step_def Let_def split: ppc.splits sum.splits)

lemma cons_blocked:
  "cons_step cmore c s = None \<longleftrightarrow>
     c_pc (conss s c) = C_wait \<and> \<not> (cmore c (c_k (conss s c)) \<and> 0 < bq_sem_element (queue s)) \<or>
     c_pc (conss s c) = C_lock \<and> bq_mutex_head (queue s) \<noteq> None"
  by (auto simp: cons_step_def Let_def split: cpc.splits sum.splits option.splits)

text \<open>Then all threads are between two calls, and every slot is counted by one of the semaphores.\<close>

lemma bq_stuck:
  assumes inv: "binv val cap n m s" and stuck: "\<nexists>s'. bstep val pmore cmore n m s s'"
  shows "p < n \<Longrightarrow> p_pc (prods s p) = P_wait \<and> (pmore p (p_i (prods s p)) \<longrightarrow> bq_sem_space (queue s) = 0)"
    and "c < m \<Longrightarrow> c_pc (conss s c) = C_wait \<and> (cmore c (c_k (conss s c)) \<longrightarrow> bq_sem_element (queue s) = 0)"
    and "length (stored s) = length (loaded s) + bq_sem_element (queue s)"
    and "bq_sem_element (queue s) + bq_sem_space (queue s) = cap"
proof -
  have mu: "mutex_ok n m s" and se: "sems_ok cap n m s" using inv by (simp_all add: binv_def)
  have pb: "p < n \<Longrightarrow> prod_step val pmore p s = None" for p using stuck produce by (metis not_None_eq)
  have cb: "c < m \<Longrightarrow> cons_step cmore c s = None" for c using stuck consume by (metis not_None_eq)
  have ht: "bq_mutex_tail (queue s) = None"
  proof (rule ccontr)
    assume "bq_mutex_tail (queue s) \<noteq> None"
    then obtain q where "q < n" "p_holds (prods s q)" using mu by (auto simp: mutex_ok_def)
    then show False using pb [of q] by (auto simp: prod_blocked p_holds_def)
  qed
  have hh: "bq_mutex_head (queue s) = None"
  proof (rule ccontr)
    assume "bq_mutex_head (queue s) \<noteq> None"
    then obtain q where "q < m" "c_holds (conss s q)" using mu by (auto simp: mutex_ok_def)
    then show False using cb [of q] by (auto simp: cons_blocked c_holds_def)
  qed
  show p: "p < n \<Longrightarrow> p_pc (prods s p) = P_wait \<and> (pmore p (p_i (prods s p)) \<longrightarrow> bq_sem_space (queue s) = 0)" for p
    using pb [of p] ht by (auto simp: prod_blocked)
  show c: "c < m \<Longrightarrow> c_pc (conss s c) = C_wait \<and> (cmore c (c_k (conss s c)) \<longrightarrow> bq_sem_element (queue s) = 0)" for c
    using cb [of c] hh by (auto simp: cons_blocked)
  have zero: "count_of n taking (prods s) = 0" "count_of n posting (prods s) = 0"
    "count_of m c_taking (conss s) = 0" "count_of m c_posting (conss s) = 0"
    using p c by (auto simp: count_of_zero pc_defs)
  then show "length (stored s) = length (loaded s) + bq_sem_element (queue s)"
    using se by (simp add: sems_ok_def)
  then show "bq_sem_element (queue s) + bq_sem_space (queue s) = cap"
    using se zero by (simp add: sems_ok_def)
qed

lemma bq_held:
  assumes "binv val cap n m s"
  shows "length (loaded s) \<le> length (stored s)" "length (stored s) \<le> length (loaded s) + cap"
  using assms by (auto simp: binv_def sems_ok_def)

text \<open>Up to an overflow, the concurrent test is a run of the threads.\<close>

lemma concurrent_reach:
  assumes "reach (binit cap) (bq_concurrent n m) s"
  shows "if fault s then \<exists>p<n. overflows (prods s p)
    else reach (binit cap) (bstep producer_val can_increment always n m) s"
  using assms
proof (induction rule: reach.induct)
  case (reach_init s)
  then show ?case using reach.reach_init [of "binit cap" s] by (auto simp: binit_def bsys_init_def)
next
  case (reach_step s t)
  from reach_step.hyps(2) show ?case
  proof cases
    case concurrent_step
    then have "reach (binit cap) (bstep producer_val can_increment always n m) t"
      using reach_step.IH by (auto intro: reach.reach_step)
    then show ?thesis using bq.reach_inv by (force simp: binv_def)
  qed auto
qed

section \<open>Properties\<close>

text \<open>C6: The queue is a bounded FIFO under every interleaving of any number of producers and
  consumers. No access is outside the buffer and no cell is loaded before it was stored; at most
  one producer is between lock and unlock of the tail and at most one consumer of the head; what
  was loaded is the beginning of what was stored and at most \<open>capacity\<close> elements are in the
  queue; and the elements of each producer are its first ones, in order, none lost or doubled.\<close>

theorem bq_fifo:
  assumes "reach (binit cap) (bstep val pmore cmore n m) s"
  shows "\<not> fault s \<and>
    (\<forall>p q. p < n \<and> q < n \<and> p_holds (prods s p) \<and> p_holds (prods s q) \<longrightarrow> p = q) \<and>
    (\<forall>c d. c < m \<and> d < m \<and> c_holds (conss s c) \<and> c_holds (conss s d) \<longrightarrow> c = d) \<and>
    (\<exists>rest. map snd (stored s) = loaded s @ rest \<and> length rest \<le> cap) \<and>
    (\<forall>p<n. \<exists>k. map snd (filter (\<lambda>e. fst e = p) (stored s)) = map (val p) [0..<k])"
proof (intro conjI)
  have inv: "binv val cap n m s" using bq.reach_inv [OF assms] .
  then have h: "history_ok val n s" and mu: "mutex_ok n m s" by (simp_all add: binv_def)
  show "\<not> fault s" using inv by (simp add: binv_def)
  show "\<forall>p q. p < n \<and> q < n \<and> p_holds (prods s p) \<and> p_holds (prods s q) \<longrightarrow> p = q"
    "\<forall>c d. c < m \<and> d < m \<and> c_holds (conss s c) \<and> c_holds (conss s d) \<longrightarrow> c = d"
    using mu by (auto simp: mutex_ok_def)
  have "map snd (stored s) = loaded s @ drop (length (loaded s)) (map snd (stored s))"
    using h by (metis append_take_drop_id history_ok_def)
  moreover have "length (drop (length (loaded s)) (map snd (stored s))) \<le> cap"
    using bq_held [OF inv] by simp
  ultimately show "\<exists>rest. map snd (stored s) = loaded s @ rest \<and> length rest \<le> cap" by blast
  show "\<forall>p<n. \<exists>k. map snd (filter (\<lambda>e. fst e = p) (stored s)) = map (val p) [0..<k]"
    using h unfolding history_ok_def by blast
qed

theorem bq_fifo_witness:
  "\<exists>s. reach (binit 4) (bq_concurrent 2 2) s \<and> p_i (prods s 1) = 1 \<and> \<not> fault s"
proof -
  obtain s where s: "prod_step producer_val can_increment 1 (bsys_init 4) = Some s" "p_i (prods s 1) = 1"
    by (simp add: prod_step_def bsys_init_def blocking_queue_init_def can_increment_def INT_MAX_def)
  have step: "bstep producer_val can_increment always 2 2 (bsys_init 4) s"
    by (rule produce [OF _ s(1)]) simp
  have init: "binit 4 (bsys_init 4)" "\<not> fault (bsys_init 4)" by (simp_all add: binit_def bsys_init_def)
  have "reach (binit 4) (bq_concurrent 2 2) s"
    using init step by (blast intro: reach_init reach_step concurrent_step)
  moreover have "reach (binit 4) (bstep producer_val can_increment always 2 2) s"
    using init step by (blast intro: reach_init reach_step)
  then have "\<not> fault s" using bq_fifo by blast
  ultimately show ?thesis using s(2) by blast
qed

text \<open>C7: The threads of the concurrent test never deadlock: with at least one producer and one
  consumer, in every state that is reached without an overflow, and in which some producer has not
  yet made all the \<open>INT_MAX\<close> calls that its \<open>int\<close> allows, some thread can take a step, and it takes
  it without a fault; and the only fault that is ever reached is the overflow of that \<open>int\<close>, at a
  producer which has made so many calls.\<close>

theorem bq_no_deadlock:
  assumes "reach (binit cap) (bq_concurrent n m) s" and "0 < n" and "0 < m"
  shows "(\<not> fault s \<and> (\<exists>p<n. int (p_i (prods s p)) < INT_MAX) \<longrightarrow>
      (\<exists>s'. bstep producer_val can_increment always n m s s' \<and> bq_concurrent n m s s' \<and> \<not> fault s')) \<and>
    (fault s \<longrightarrow> (\<exists>p<n. p_pc (prods s p) = P_wait \<and> INT_MAX \<le> int (p_i (prods s p))))"
proof (intro conjI impI)
  show "\<exists>p<n. p_pc (prods s p) = P_wait \<and> INT_MAX \<le> int (p_i (prods s p))" if "fault s"
    using concurrent_reach [OF assms(1)] that by (auto simp: overflows_def)
next
  assume ok: "\<not> fault s \<and> (\<exists>p<n. int (p_i (prods s p)) < INT_MAX)"
  then obtain p where p: "p < n" "can_increment p (p_i (prods s p))" by (auto simp: can_increment_def)
  have inv: "binv producer_val cap n m s"
    using bq.reach_inv concurrent_reach [OF assms(1)] ok by presburger
  have "\<exists>s'. bstep producer_val can_increment always n m s s'"
  proof (rule ccontr)
    assume stuck: "\<nexists>s'. bstep producer_val can_increment always n m s s'"
    note st = bq_stuck [OF inv stuck]
    have "bq_sem_space (queue s) = 0" "bq_sem_element (queue s) = 0"
      using st(1) [of p] st(2) [of 0] p assms(3) by auto
    then show False using st(4) inv by (simp add: binv_def)
  qed
  then obtain s' where s': "bstep producer_val can_increment always n m s s'" by blast
  then have "\<not> fault s'" using bstep_inv [OF inv] by (force simp: binv_def)
  then show "\<exists>s'. bstep producer_val can_increment always n m s s' \<and> bq_concurrent n m s s' \<and> \<not> fault s'"
    using s' ok concurrent_step by blast
qed

theorem bq_no_deadlock_witness: "\<exists>s'. bq_concurrent 2 2 (bsys_init 4) s' \<and> \<not> fault s'"
proof -
  have "reach (binit 4) (bq_concurrent 2 2) (bsys_init 4)" by (rule reach_init) (simp add: binit_def)
  from bq_no_deadlock [OF this] show ?thesis by (force simp: bsys_init_def INT_MAX_def)
qed

text \<open>
  The basic test of \<open>main\<close> runs through: none of its twenty calls blocks, and the two
  rounds take out 0 to 4 in order.\<close>

theorem bq_basic_passes:
  "\<exists>s. bq_basic_test = Some s \<and> loaded s = [0, 1, 2, 3, 4, 0, 1, 2, 3, 4] \<and>
     bq_sem_element (queue s) = 0 \<and> bq_sem_space (queue s) = 8"
proof -
  have "map_option (\<lambda>s. (loaded s, bq_sem_element (queue s), bq_sem_space (queue s))) bq_basic_test =
      Some ([0, 1, 2, 3, 4, 0, 1, 2, 3, 4], 0, 8)"
    by code_simp
  then show ?thesis by (cases bq_basic_test) auto
qed

end
