(* ===== verification/SysvQueue.thy ===== *)
theory SysvQueue
  imports BlockingQueue
begin

text \<open>
  The blocking queue on System V semaphores,
  \<open>05-operating-systems/03-threads-concurrency-and-scheduling/04-ring-buffer/ring_buffer_sysv.c\<close>:
  both counters live in one semaphore set and are changed by \<open>semop\<close>. The threads are those of
  the POSIX version; for capacities up to the limit of a semaphore's value the system simulates it
  step by step, so that what holds there holds here.
\<close>

section \<open>Semaphore sets\<close>

record sembuf =
  sem_num :: nat
  sem_op :: int

text \<open>The largest value of a semaphore, on Linux.\<close>

definition SEMVMX :: int where
  "SEMVMX = 32767"

text \<open>
  One operation on a set, \<open>None\<close> where it blocks. Where it fails, with a value that is too large or a
  semaphore that is not in the set, the set stays as it is, and the callers, which do not look at
  the result, go on.
\<close>

definition semop :: "nat list \<Rightarrow> sembuf \<Rightarrow> nat list option" where
  "semop sems op =
     (if length sems \<le> sem_num op then Some sems
      else (let v = int (sems ! sem_num op) + sem_op op
            in if v < 0 then None else if SEMVMX < v then Some sems else Some (sems[sem_num op := nat v])))"

text \<open>\<open>semctl\<close> with \<open>SETVAL\<close> takes an \<open>int\<close>; it refuses a value out of range, which nobody notices.\<close>

definition setval :: "nat list \<Rightarrow> nat \<Rightarrow> nat \<Rightarrow> nat list" where
  "setval sems i v =
     (let k = sint (word_of_nat v :: 32 word) in if 0 \<le> k \<and> k \<le> SEMVMX then sems[i := nat k] else sems)"

record svq =
  sv_fd :: "ptr option list"
  sv_capacity :: nat
  sv_head :: nat
  sv_tail :: nat
  sv_mutex_head :: "nat option"
  sv_mutex_tail :: "nat option"
  sv_sem_set :: "nat list"

text \<open>\<open>semget\<close> makes a set of two; the two \<open>semctl\<close> calls give their values.\<close>

definition sv_queue_init :: "nat \<Rightarrow> svq" where
  "sv_queue_init capacity =
     \<lparr>sv_fd = replicate capacity None, sv_capacity = capacity, sv_head = 0, sv_tail = 0,
      sv_mutex_head = None, sv_mutex_tail = None, sv_sem_set = setval (setval (replicate 2 0) 0 0) 1 capacity\<rparr>"

datatype sv_resource = Sem_set | Sv_mutex_tail | Sv_mutex_head | Sv_fd

definition sv_queue_destroy :: "svq \<Rightarrow> sv_resource list" where
  "sv_queue_destroy b = [Sem_set, Sv_mutex_tail, Sv_mutex_head, Sv_fd]"

record svsys =
  sv_queue :: svq
  sv_prods :: "nat \<Rightarrow> producer"
  sv_conss :: "nat \<Rightarrow> consumer"
  sv_stored :: "(nat \<times> ptr) list"
  sv_loaded :: "ptr list"
  sv_fault :: bool

section \<open>The threads\<close>

definition sv_prod_step :: "(nat \<Rightarrow> nat \<Rightarrow> ptr) \<Rightarrow> (nat \<Rightarrow> nat \<Rightarrow> bool) \<Rightarrow> nat \<Rightarrow> svsys \<Rightarrow> svsys option" where
  "sv_prod_step val pmore p s =
     (let b = sv_queue s; t = sv_prods s p;
          go = (\<lambda>b' t'. s\<lparr>sv_queue := b', sv_prods := (sv_prods s)(p := t')\<rparr>)
      in case p_pc t of
        P_wait \<Rightarrow>
          if pmore p (p_i t)
          then (case semop (sv_sem_set b) \<lparr>sem_num = 1, sem_op = -1\<rparr> of
                  None \<Rightarrow> None
                | Some sems \<Rightarrow> Some (go (b\<lparr>sv_sem_set := sems\<rparr>)
                    (t\<lparr>p_pc := P_lock, p_i := Suc (p_i t), p_e := val p (p_i t)\<rparr>)))
          else None
      | P_lock \<Rightarrow>
          if sv_mutex_tail b = None
          then Some (go (b\<lparr>sv_mutex_tail := Some p\<rparr>) (t\<lparr>p_pc := P_store\<rparr>))
          else None
      | P_store \<Rightarrow>
          (case wr (sv_fd b) (sv_tail b) (Some (p_e t)) of
             Inl _ \<Rightarrow> Some (s\<lparr>sv_fault := True\<rparr>)
           | Inr buf \<Rightarrow> Some ((go (b\<lparr>sv_fd := buf\<rparr>) (t\<lparr>p_pc := P_advance\<rparr>))
               \<lparr>sv_stored := sv_stored s @ [(p, p_e t)]\<rparr>))
      | P_advance \<Rightarrow>
          Some (go (b\<lparr>sv_tail := (sv_tail b + 1) mod sv_capacity b\<rparr>) (t\<lparr>p_pc := P_unlock\<rparr>))
      | P_unlock \<Rightarrow> Some (go (b\<lparr>sv_mutex_tail := None\<rparr>) (t\<lparr>p_pc := P_post\<rparr>))
      | P_post \<Rightarrow>
          (case semop (sv_sem_set b) \<lparr>sem_num = 0, sem_op = 1\<rparr> of
             None \<Rightarrow> None
           | Some sems \<Rightarrow> Some (go (b\<lparr>sv_sem_set := sems\<rparr>) (t\<lparr>p_pc := P_wait\<rparr>))))"

definition sv_cons_step :: "(nat \<Rightarrow> nat \<Rightarrow> bool) \<Rightarrow> nat \<Rightarrow> svsys \<Rightarrow> svsys option" where
  "sv_cons_step cmore c s =
     (let b = sv_queue s; t = sv_conss s c;
          go = (\<lambda>b' t'. s\<lparr>sv_queue := b', sv_conss := (sv_conss s)(c := t')\<rparr>)
      in case c_pc t of
        C_wait \<Rightarrow>
          if cmore c (c_k t)
          then (case semop (sv_sem_set b) \<lparr>sem_num = 0, sem_op = -1\<rparr> of
                  None \<Rightarrow> None
                | Some sems \<Rightarrow> Some (go (b\<lparr>sv_sem_set := sems\<rparr>) (t\<lparr>c_pc := C_lock, c_k := Suc (c_k t)\<rparr>)))
          else None
      | C_lock \<Rightarrow>
          if sv_mutex_head b = None
          then Some (go (b\<lparr>sv_mutex_head := Some c\<rparr>) (t\<lparr>c_pc := C_load\<rparr>))
          else None
      | C_load \<Rightarrow>
          (case rd (sv_fd b) (sv_head b) of
             Inr (Some e) \<Rightarrow> Some ((go b (t\<lparr>c_pc := C_advance, c_e := e\<rparr>))\<lparr>sv_loaded := sv_loaded s @ [e]\<rparr>)
           | _ \<Rightarrow> Some (s\<lparr>sv_fault := True\<rparr>))
      | C_advance \<Rightarrow>
          Some (go (b\<lparr>sv_head := (sv_head b + 1) mod sv_capacity b\<rparr>) (t\<lparr>c_pc := C_unlock\<rparr>))
      | C_unlock \<Rightarrow> Some (go (b\<lparr>sv_mutex_head := None\<rparr>) (t\<lparr>c_pc := C_post\<rparr>))
      | C_post \<Rightarrow>
          (case semop (sv_sem_set b) \<lparr>sem_num = 1, sem_op = 1\<rparr> of
             None \<Rightarrow> None
           | Some sems \<Rightarrow> Some (go (b\<lparr>sv_sem_set := sems\<rparr>) (t\<lparr>c_pc := C_wait\<rparr>))))"

inductive sv_step :: "(nat \<Rightarrow> nat \<Rightarrow> ptr) \<Rightarrow> (nat \<Rightarrow> nat \<Rightarrow> bool) \<Rightarrow> (nat \<Rightarrow> nat \<Rightarrow> bool) \<Rightarrow> nat \<Rightarrow> nat \<Rightarrow>
    svsys \<Rightarrow> svsys \<Rightarrow> bool"
  for val pmore cmore n m where
  sv_produce: "p < n \<Longrightarrow> sv_prod_step val pmore p s = Some s' \<Longrightarrow> sv_step val pmore cmore n m s s'"
| sv_consume: "c < m \<Longrightarrow> sv_cons_step cmore c s = Some s' \<Longrightarrow> sv_step val pmore cmore n m s s'"

definition svsys_init :: "nat \<Rightarrow> svsys" where
  "svsys_init cap = \<lparr>sv_queue = sv_queue_init cap,
     sv_prods = (\<lambda>_. \<lparr>p_pc = P_wait, p_i = 0, p_e = NULL\<rparr>),
     sv_conss = (\<lambda>_. \<lparr>c_pc = C_wait, c_k = 0, c_e = NULL\<rparr>), sv_stored = [], sv_loaded = [],
     sv_fault = False\<rparr>"

definition sv_init :: "nat \<Rightarrow> svsys \<Rightarrow> bool" where
  "sv_init cap s \<longleftrightarrow> 0 < cap \<and> int cap \<le> SEMVMX \<and> s = svsys_init cap"

section \<open>Simulation\<close>

definition to_bq :: "svq \<Rightarrow> bq" where
  "to_bq b = \<lparr>bq_buffer = sv_fd b, bq_capacity = sv_capacity b, bq_head = sv_head b, bq_tail = sv_tail b,
     bq_mutex_head = sv_mutex_head b, bq_mutex_tail = sv_mutex_tail b,
     bq_sem_element = sv_sem_set b ! 0, bq_sem_space = sv_sem_set b ! 1\<rparr>"

definition to_bsys :: "svsys \<Rightarrow> bsys" where
  "to_bsys s = \<lparr>queue = to_bq (sv_queue s), prods = sv_prods s, conss = sv_conss s, stored = sv_stored s,
     loaded = sv_loaded s, fault = sv_fault s\<rparr>"

definition two_sems :: "svsys \<Rightarrow> bool" where
  "two_sems s \<longleftrightarrow> length (sv_sem_set (sv_queue s)) = 2"

lemma semop_down: "i < length sems \<Longrightarrow> int (sems ! i) \<le> SEMVMX \<Longrightarrow> semop sems \<lparr>sem_num = i, sem_op = -1\<rparr> =
    (if 0 < sems ! i then Some (sems[i := sems ! i - 1]) else None)"
  by (auto simp: semop_def Let_def nat_diff_distrib)

lemma semop_up:
  "i < length sems \<Longrightarrow> int (sems ! i) < SEMVMX \<Longrightarrow> semop sems \<lparr>sem_num = i, sem_op = 1\<rparr> = Some (sems[i := sems ! i + 1])"
  by (simp add: semop_def Let_def nat_add_distrib)

text \<open>The semaphores never exceed the capacity, and have room where a thread is about to post.\<close>

lemma sems_fit:
  assumes "binv val cap n m s"
  shows "bq_sem_element (queue s) \<le> cap" "bq_sem_space (queue s) \<le> cap"
    and "p < n \<Longrightarrow> p_pc (prods s p) = P_post \<Longrightarrow> bq_sem_element (queue s) < cap"
    and "c < m \<Longrightarrow> c_pc (conss s c) = C_post \<Longrightarrow> bq_sem_space (queue s) < cap"
proof -
  have se: "sems_ok cap n m s" using assms by (simp add: binv_def)
  then show "bq_sem_element (queue s) \<le> cap" "bq_sem_space (queue s) \<le> cap" by (auto simp: sems_ok_def)
  show "bq_sem_element (queue s) < cap" if "p < n" "p_pc (prods s p) = P_post"
    using se count_of_pos [of p n posting "prods s"] that by (auto simp: sems_ok_def posting_def)
  show "bq_sem_space (queue s) < cap" if "c < m" "c_pc (conss s c) = C_post"
    using se count_of_pos [of c m c_posting "conss s"] that by (auto simp: sems_ok_def c_posting_def)
qed

text \<open>A state of the System V version whose reading is one that the POSIX version keeps to.\<close>

definition sv_inv :: "(nat \<Rightarrow> nat \<Rightarrow> ptr) \<Rightarrow> nat \<Rightarrow> nat \<Rightarrow> nat \<Rightarrow> svsys \<Rightarrow> bool" where
  "sv_inv val cap n m s \<longleftrightarrow> two_sems s \<and> int cap \<le> SEMVMX \<and> binv val cap n m (to_bsys s)"

lemma sv_inv_sems:
  assumes "sv_inv val cap n m s"
  shows "length (sv_sem_set (sv_queue s)) = 2"
    and "int (sv_sem_set (sv_queue s) ! 0) \<le> SEMVMX" "int (sv_sem_set (sv_queue s) ! Suc 0) \<le> SEMVMX"
    and "p < n \<Longrightarrow> p_pc (sv_prods s p) = P_post \<Longrightarrow> int (sv_sem_set (sv_queue s) ! 0) < SEMVMX"
    and "c < m \<Longrightarrow> c_pc (sv_conss s c) = C_post \<Longrightarrow> int (sv_sem_set (sv_queue s) ! Suc 0) < SEMVMX"
proof -
  have b: "binv val cap n m (to_bsys s)" and c: "int cap \<le> SEMVMX" and t: "two_sems s"
    using assms by (simp_all add: sv_inv_def)
  show "length (sv_sem_set (sv_queue s)) = 2" using t by (simp add: two_sems_def)
  show "int (sv_sem_set (sv_queue s) ! 0) \<le> SEMVMX" "int (sv_sem_set (sv_queue s) ! Suc 0) \<le> SEMVMX"
    using sems_fit(1,2) [OF b] c by (simp_all add: to_bsys_def to_bq_def)
  show "p < n \<Longrightarrow> p_pc (sv_prods s p) = P_post \<Longrightarrow> int (sv_sem_set (sv_queue s) ! 0) < SEMVMX"
    "c < m \<Longrightarrow> c_pc (sv_conss s c) = C_post \<Longrightarrow> int (sv_sem_set (sv_queue s) ! Suc 0) < SEMVMX"
    using sems_fit(3) [OF b, of p] sems_fit(4) [OF b, of c] c by (simp_all add: to_bsys_def to_bq_def)
qed

lemma sv_prod_sim:
  assumes "sv_inv val cap n m s" "p < n"
  shows "map_option to_bsys (sv_prod_step val pmore p s) = prod_step val pmore p (to_bsys s)"
    and "sv_prod_step val pmore p s = Some s' \<Longrightarrow> two_sems s'"
proof -
  note l = sv_inv_sems [OF assms(1)]
  show "map_option to_bsys (sv_prod_step val pmore p s) = prod_step val pmore p (to_bsys s)"
    using l(1-3) l(4) [OF assms(2)] by (cases "p_pc (sv_prods s p)")
      (simp_all add: sv_prod_step_def prod_step_def Let_def to_bsys_def to_bq_def semop_down semop_up
        split: sum.split)
  show "sv_prod_step val pmore p s = Some s' \<Longrightarrow> two_sems s'"
    using l(1-3) l(4) [OF assms(2)] by (cases "p_pc (sv_prods s p)")
      (auto simp: sv_prod_step_def Let_def two_sems_def semop_down semop_up split: sum.splits if_splits)
qed

lemma sv_cons_sim:
  assumes "sv_inv val cap n m s" "c < m"
  shows "map_option to_bsys (sv_cons_step cmore c s) = cons_step cmore c (to_bsys s)"
    and "sv_cons_step cmore c s = Some s' \<Longrightarrow> two_sems s'"
proof -
  note l = sv_inv_sems [OF assms(1)]
  show "map_option to_bsys (sv_cons_step cmore c s) = cons_step cmore c (to_bsys s)"
    using l(1-3) l(5) [OF assms(2)] by (cases "c_pc (sv_conss s c)")
      (simp_all add: sv_cons_step_def cons_step_def Let_def to_bsys_def to_bq_def semop_down semop_up
        split: sum.split option.split)
  show "sv_cons_step cmore c s = Some s' \<Longrightarrow> two_sems s'"
    using l(1-3) l(5) [OF assms(2)] by (cases "c_pc (sv_conss s c)")
      (auto simp: sv_cons_step_def Let_def two_sems_def semop_down semop_up
        split: sum.splits if_splits option.splits)
qed

lemma sv_step_sim:
  assumes "sv_inv val cap n m s" "sv_step val pmore cmore n m s s'"
  shows "bstep val pmore cmore n m (to_bsys s) (to_bsys s') \<and> sv_inv val cap n m s'"
proof -
  have "bstep val pmore cmore n m (to_bsys s) (to_bsys s') \<and> two_sems s'"
    using assms(2)
  proof cases
    case (sv_produce p)
    then show ?thesis using sv_prod_sim [OF assms(1), of p pmore] produce [of p n val pmore "to_bsys s"] by auto
  next
    case (sv_consume c)
    then show ?thesis using sv_cons_sim [OF assms(1), of c cmore] consume [of c m cmore "to_bsys s"] by auto
  qed
  then show ?thesis using bstep_inv assms(1) by (auto simp: sv_inv_def)
qed

lemma setval_fits: "int v \<le> SEMVMX \<Longrightarrow> setval sems i v = sems[i := v]"
  using sint_word_of_nat32 [of v] by (simp add: setval_def SEMVMX_def)


lemma sv_init_sim: "sv_init cap s \<Longrightarrow> binit cap (to_bsys s) \<and> sv_inv val cap n m s"
proof -
  assume i: "sv_init cap s"
  then have "sv_sem_set (sv_queue s) = [0, cap]"
    by (simp add: sv_init_def svsys_init_def sv_queue_init_def setval_fits SEMVMX_def numeral_2_eq_2)
  then have "binit cap (to_bsys s) \<and> two_sems s"
    using i by (simp add: sv_init_def svsys_init_def sv_queue_init_def binit_def bsys_init_def to_bsys_def to_bq_def
        blocking_queue_init_def two_sems_def)
  then show ?thesis using i binit_inv by (auto simp: sv_inv_def sv_init_def)
qed

interpretation sv2: inductive_invariant "sv_init cap" "sv_step val pmore cmore n m" "sv_inv val cap n m"
  for cap val pmore cmore n m
  by unfold_locales (auto dest: sv_init_sim sv_step_sim)

interpretation svs: simulation "sv_init cap" "sv_step val pmore cmore n m"
    "binit cap" "bstep val pmore cmore n m" to_bsys
  for cap val pmore cmore n m
  by unfold_locales (auto dest: sv_init_sim sv_step_sim sv2.reach_inv)

lemma sv_stuck:
  assumes "sv_inv val cap n m s" "\<nexists>s'. sv_step val pmore cmore n m s s'"
  shows "\<nexists>s'. bstep val pmore cmore n m (to_bsys s) s'"
proof
  assume "\<exists>s'. bstep val pmore cmore n m (to_bsys s) s'"
  then show False
  proof (elim exE bstep.cases, goal_cases)
    case (1 s' p t t')
    then have "sv_prod_step val pmore p s \<noteq> None" using sv_prod_sim(1) [OF assms(1), of p pmore] by auto
    then show ?case using sv_produce 1 assms(2) by blast
  next
    case (2 s' c t t')
    then have "sv_cons_step cmore c s \<noteq> None" using sv_cons_sim(1) [OF assms(1), of c cmore] by auto
    then show ?case using sv_consume 2 assms(2) by blast
  qed
qed


section \<open>Properties\<close>

text \<open>The endless threads of the concurrent test, as in the POSIX version.\<close>

inductive sv_concurrent :: "nat \<Rightarrow> nat \<Rightarrow> svsys \<Rightarrow> svsys \<Rightarrow> bool" for n m where
  sv_concurrent_step:
    "\<not> sv_fault s \<Longrightarrow> sv_step producer_val can_increment always n m s s' \<Longrightarrow> sv_concurrent n m s s'"
| sv_concurrent_overflow:
    "\<not> sv_fault s \<Longrightarrow> p < n \<Longrightarrow> overflows (sv_prods s p) \<Longrightarrow> sv_concurrent n m s (s\<lparr>sv_fault := True\<rparr>)"



text \<open>
  The threads of the System V version never deadlock either, up to an overflow.\<close>

theorem sysv_no_deadlock:
  assumes "reach (sv_init cap) (sv_step producer_val can_increment always n m) s" and "0 < m"
    and "p < n" and "int (p_i (sv_prods s p)) < INT_MAX"
  shows "\<exists>s'. sv_concurrent n m s s' \<and> sv_step producer_val can_increment always n m s s'"
proof -
  have "\<not> sv_fault s" using bq.reach_inv [OF svs.sim_reach [OF assms(1)]] by (auto simp: binv_def to_bsys_def)
  moreover have "\<exists>s'. sv_step producer_val can_increment always n m s s'"
  proof (rule ccontr)
    assume stuck: "\<nexists>s'. sv_step producer_val can_increment always n m s s'"
    have inv: "binv producer_val cap n m (to_bsys s)" using bq.reach_inv [OF svs.sim_reach [OF assms(1)]] .
    note st = bq_stuck [OF inv sv_stuck [OF sv2.reach_inv [OF assms(1)] stuck]]
    have "bq_sem_space (queue (to_bsys s)) = 0" "bq_sem_element (queue (to_bsys s)) = 0"
      using st(1) [of p] st(2) [of 0] assms(2-4) by (auto simp: can_increment_def to_bsys_def)
    then show False using st(4) inv by (simp add: binv_def)
  qed
  ultimately show ?thesis using sv_concurrent_step by blast
qed

theorem sysv_no_deadlock_witness: "\<exists>s'. sv_concurrent 2 2 (svsys_init 4) s'"
proof -
  have "reach (sv_init 4) (sv_step producer_val can_increment always 2 2) (svsys_init 4)"
    by (rule reach_init) (simp add: sv_init_def SEMVMX_def)
  from sysv_no_deadlock [OF this, of 0] show ?thesis by (auto simp: svsys_init_def INT_MAX_def)
qed

end
