(* ===== verification/ShmQueue.thy ===== *)
theory ShmQueue
  imports BlockingQueue
begin

unbundle bit_operations_syntax

text \<open>
  The queue in shared memory and the two programs that stream integers through it, of
  \<open>05-operating-systems/04-virtual-memory/02-shared-memory-stream\<close>. The life of the shared object
  follows the calls of \<open>shm_blocking_queue.c\<close> with their error exits. Its put and take are those
  of the POSIX queue; the streaming system has one process that puts \<open>max\<close> random integers
  (\<open>server.c\<close>) and one that takes them (\<open>client.c\<close>). Here the two agree on \<open>max\<close> and on
  the object, and no process dies inside a call; for the whole programs see \<open>ShmStream\<close>, for deaths
  \<open>ShmRobust\<close>.
\<close>

section \<open>The shared object\<close>

text \<open>An object of the shared-memory file system: its length and, once stored, the queue in it.\<close>

record shm_obj =
  so_len :: nat
  so_queue :: "bq option"

type_synonym shm_fs = "string \<rightharpoonup> shm_obj"

definition sizeof_sbq :: nat where
  "sizeof_sbq = 168"

definition map_len :: "nat \<Rightarrow> nat" where
  "map_len capacity = sizeof_sbq + 8 * capacity"

text \<open>
  \<open>exit_err_on\<close>: a call that fails ends the process with the message of its place. \<open>ok\<close> says
  which of the calls succeed; a list of calls stops at the first that does not, with the
  effects so far.
\<close>

fun exit_err_on :: "(string \<Rightarrow> bool) \<Rightarrow> (string \<times> (shm_fs \<Rightarrow> shm_fs)) list \<Rightarrow> shm_fs \<Rightarrow>
    (string + unit) \<times> shm_fs" where
  "exit_err_on ok [] fs = (Inr (), fs)"
| "exit_err_on ok ((msg, eff) # calls) fs =
     (if ok msg then exit_err_on ok calls (eff fs) else (Inl msg, fs))"

definition set_obj :: "string \<Rightarrow> shm_obj \<Rightarrow> shm_fs \<Rightarrow> shm_fs" where
  "set_obj name ob fs = fs(name \<mapsto> ob)"

definition shm_blocking_queue_init :: "(string \<Rightarrow> bool) \<Rightarrow> string \<Rightarrow> nat \<Rightarrow> shm_fs \<Rightarrow>
    (string + unit) \<times> shm_fs" where
  "shm_blocking_queue_init ok name capacity fs =
     (let len = map_len capacity;
          q = blocking_queue_init capacity;
          blank = q\<lparr>bq_sem_space := 0\<rparr>
      in exit_err_on (\<lambda>msg. ok msg \<and> (msg = ''init 0'' \<longrightarrow> name \<notin> dom fs))
        [(''init 0'', set_obj name \<lparr>so_len = 0, so_queue = None\<rparr>),
         (''init 1'', set_obj name \<lparr>so_len = len, so_queue = None\<rparr>),
         (''init 2'', id),
         (''init 3'', set_obj name \<lparr>so_len = len, so_queue = Some blank\<rparr>),
         (''init 4'', id), (''init 5'', id), (''init 6'', id), (''init 7'', id), (''init 8'', id),
         (''init 9'', id),
         (''init 10'', set_obj name \<lparr>so_len = len, so_queue = Some q\<rparr>),
         (''init 11'', id)] fs)"

text \<open>A mapping: the object's name and the length mapped, which is the length of the object.\<close>

definition shm_blocking_queue_connect :: "(string \<Rightarrow> bool) \<Rightarrow> string \<Rightarrow> shm_fs \<Rightarrow> string + string \<times> nat" where
  "shm_blocking_queue_connect ok name fs =
     (case fs name of None \<Rightarrow> Inl ''connect 0''
      | Some ob \<Rightarrow>
          (case exit_err_on ok [(''connect 0'', id), (''connect 1'', id), (''connect 2'', id),
             (''connect 3'', id)] fs of
             (Inl msg, _) \<Rightarrow> Inl msg
           | (Inr _, _) \<Rightarrow> Inr (name, so_len ob)))"

text \<open>The length that \<open>disconnect\<close> unmaps, from the capacity in the object.\<close>

definition shm_blocking_queue_disconnect :: "(string \<Rightarrow> bool) \<Rightarrow> shm_obj \<Rightarrow> string + nat" where
  "shm_blocking_queue_disconnect ok ob =
     (if ok ''disconnect 0''
      then Inr (case so_queue ob of None \<Rightarrow> sizeof_sbq | Some q \<Rightarrow> map_len (bq_capacity q))
      else Inl ''disconnect 0'')"

definition shm_blocking_queue_destroy :: "(string \<Rightarrow> bool) \<Rightarrow> string \<Rightarrow> shm_fs \<Rightarrow> (string + unit) \<times> shm_fs" where
  "shm_blocking_queue_destroy ok name fs =
     exit_err_on (\<lambda>msg. ok msg \<and> (msg = ''destroy 0'' \<longrightarrow> name \<in> dom fs))
       [(''destroy 0'', id), (''destroy 1'', id), (''destroy 2'', id), (''destroy 3'', id),
        (''destroy 4'', id), (''destroy 5'', id), (''destroy 6'', id), (''destroy 7'', id),
        (''destroy 8'', id), (''destroy 9'', (\<lambda>fs. fs(name := None)))] fs"

section \<open>The two programs\<close>

definition SIZE :: nat where
  "SIZE = 2 ^ 20"

text \<open>The number of integers the client asks for: \<open>SIZE / sizeof(int)\<close>.\<close>

definition client_max :: nat where
  "client_max = SIZE div 4"

text \<open>The server puts \<open>(void *) n\<close>: the \<open>int\<close> is extended to a pointer.\<close>

definition server_val :: "(nat \<Rightarrow> u32) \<Rightarrow> nat \<Rightarrow> nat \<Rightarrow> ptr" where
  "server_val rnd p i = scast (rnd i)"

definition server_checksum :: "(nat \<Rightarrow> u32) \<Rightarrow> nat \<Rightarrow> u32" where
  "server_checksum rnd mx = foldl (\<lambda>checksum i. checksum XOR rnd i) 0 [0..<mx]"

text \<open>The client's \<open>n = (int) take\<close> cuts the pointer back to an \<open>int\<close>.\<close>

definition client_checksum :: "ptr list \<Rightarrow> u32" where
  "client_checksum es = foldl (\<lambda>checksum e. checksum XOR ucast e) 0 es"

definition shm_transfer :: "(nat \<Rightarrow> u32) \<Rightarrow> nat \<Rightarrow> bsys \<Rightarrow> bsys \<Rightarrow> bool" where
  "shm_transfer rnd mx = bstep (server_val rnd) (\<lambda>_ i. i < mx) (\<lambda>_ k. k < mx) 1 1"

section \<open>The transfer\<close>

text \<open>Both processes count what they have moved, and stop at \<open>max\<close>.\<close>

definition moved_ok :: "nat \<Rightarrow> bsys \<Rightarrow> bool" where
  "moved_ok mx s \<longleftrightarrow>
     length (stored s) + (if taking (prods s 0) then 1 else 0) = p_i (prods s 0) \<and> p_i (prods s 0) \<le> mx \<and>
     length (loaded s) + (if c_taking (conss s 0) then 1 else 0) = c_k (conss s 0) \<and> c_k (conss s 0) \<le> mx"

lemma moved_step: "moved_ok mx s \<Longrightarrow> shm_transfer rnd mx s s' \<Longrightarrow> fault s' \<or> moved_ok mx s'"
  unfolding shm_transfer_def
proof (elim bstep.cases, goal_cases)
  case (1 p t t')
  from 1(5) show ?case
    using 1(1-4) by (cases rule: prod_step_cases) (auto simp: moved_ok_def taking_def)
next
  case (2 c t t')
  from 2(5) show ?case
    using 2(1-4) by (cases rule: cons_step_cases) (auto simp: moved_ok_def c_taking_def)
qed

definition transfer_inv :: "(nat \<Rightarrow> u32) \<Rightarrow> nat \<Rightarrow> nat \<Rightarrow> bsys \<Rightarrow> bool" where
  "transfer_inv rnd mx cap s \<longleftrightarrow> binv (server_val rnd) cap 1 1 s \<and> moved_ok mx s"

interpretation shm: inductive_invariant "binit cap" "shm_transfer rnd mx" "transfer_inv rnd mx cap"
  for cap rnd mx
proof
  show "transfer_inv rnd mx cap s" if "binit cap s" for s
    using that binit_inv [OF that]
    by (auto simp: transfer_inv_def moved_ok_def binit_def bsys_init_def pc_defs)
  show "transfer_inv rnd mx cap s'" if "transfer_inv rnd mx cap s" "shm_transfer rnd mx s s'" for s s'
    using that moved_step [of mx s rnd s'] bstep_inv [of "server_val rnd" cap 1 1 s]
    unfolding shm_transfer_def transfer_inv_def by (auto simp: binv_def)
qed

fun p_rank :: "ppc \<Rightarrow> nat" where
  "p_rank P_wait = 0" | "p_rank P_lock = 5" | "p_rank P_store = 4" | "p_rank P_advance = 3"
| "p_rank P_unlock = 2" | "p_rank P_post = 1"

fun c_rank :: "cpc \<Rightarrow> nat" where
  "c_rank C_wait = 0" | "c_rank C_lock = 5" | "c_rank C_load = 4" | "c_rank C_advance = 3"
| "c_rank C_unlock = 2" | "c_rank C_post = 1"

text \<open>The steps still to come: each put and each take is six.\<close>

definition to_come :: "nat \<Rightarrow> bsys \<Rightarrow> nat" where
  "to_come mx s = 6 * (mx - p_i (prods s 0)) + p_rank (p_pc (prods s 0)) +
     6 * (mx - c_k (conss s 0)) + c_rank (c_pc (conss s 0))"

lemma to_come_less:
  assumes "transfer_inv rnd mx cap s" "shm_transfer rnd mx s s'"
  shows "to_come mx s' < to_come mx s"
  using assms(2) unfolding shm_transfer_def
proof (cases rule: bstep.cases)
  case (produce p)
  have ok: "\<not> fault s'" "\<not> fault s"
    using fault_prod [OF produce(2)] assms(1) by (auto simp: transfer_inv_def binv_def)
  show ?thesis using produce(2) ok produce(1) by (cases rule: prod_step_cases) (auto simp: to_come_def)
next
  case (consume c)
  have ok: "\<not> fault s'" "\<not> fault s"
    using fault_cons [OF consume(2)] consume(1) assms(1) by (auto simp: transfer_inv_def binv_def)
  show ?thesis using consume(2) ok consume(1) by (cases rule: cons_step_cases) (auto simp: to_come_def)
qed

lemma transfer_done:
  assumes inv: "transfer_inv rnd mx cap s" and stuck: "\<nexists>s'. shm_transfer rnd mx s s'"
  shows "loaded s = map (server_val rnd 0) [0..<mx]"
proof -
  have bi: "binv (server_val rnd) cap 1 1 s" and mo: "moved_ok mx s" using inv by (simp_all add: transfer_inv_def)
  note st = bq_stuck [OF bi stuck [unfolded shm_transfer_def]]
  have pw: "\<not> taking (prods s 0)" "\<not> c_taking (conss s 0)" using st(1,2) [of 0] by (auto simp: pc_defs)
  have "0 < cap" using bi by (simp add: binv_def)
  then have n: "length (stored s) = mx" "length (loaded s) = mx"
    using mo pw st(1) [of 0] st(2) [of 0] st(3,4) by (auto simp: moved_ok_def)
  have h: "history_ok (server_val rnd) 1 s" using bi by (simp add: binv_def)
  then have "filter (\<lambda>e. fst e = 0) (stored s) = stored s"
    by (intro filter_True) (auto simp: history_ok_def)
  then have "map snd (stored s) = map (server_val rnd 0) [0..<mx]"
    using h pw mo n by (auto simp: history_ok_def moved_ok_def)
  then show ?thesis using h n by (simp add: history_ok_def)
qed

lemma transfer_finish:
  "transfer_inv rnd mx cap s \<Longrightarrow>
   \<exists>s'. (shm_transfer rnd mx)\<^sup>*\<^sup>* s s' \<and> transfer_inv rnd mx cap s' \<and> (\<nexists>t. shm_transfer rnd mx s' t)"
proof (induction "to_come mx s" arbitrary: s rule: less_induct)
  case less
  show ?case
  proof (cases "\<exists>t. shm_transfer rnd mx s t")
    case True
    then obtain t where t: "shm_transfer rnd mx s t" by blast
    then obtain s' where "(shm_transfer rnd mx)\<^sup>*\<^sup>* t s'" "transfer_inv rnd mx cap s'"
        "\<nexists>t. shm_transfer rnd mx s' t"
      using less.hyps [OF to_come_less [OF less.prems t]] shm.inv_step [OF less.prems t] by blast
    then show ?thesis using converse_rtranclp_into_rtranclp [of "shm_transfer rnd mx", OF t] by blast
  qed (use less.prems in blast)
qed

lemma cut_extend: "ucast (scast (x :: u32) :: u64) = x"
  by (rule bit_word_eqI) (auto simp: bit_unsigned_iff bit_signed_iff)

lemma foldl_xor_cut:
  "foldl (\<lambda>checksum e. checksum XOR ucast e) z (map (server_val rnd 0) is) =
   foldl (\<lambda>checksum i. checksum XOR rnd i) z is"
  by (induction "is" arbitrary: z) (simp_all add: server_val_def cut_extend)


lemma exit_err_on_keeps:
  "\<forall>(msg, eff)\<in>set calls. \<forall>fs. name \<in> dom fs \<longrightarrow> name \<in> dom (eff fs) \<Longrightarrow> name \<in> dom fs \<Longrightarrow>
   name \<in> dom (snd (exit_err_on ok calls fs))"
  by (induction ok calls fs rule: exit_err_on.induct) auto

lemma init_leaves_name:
  assumes "shm_blocking_queue_init ok name cap fs = (Inl msg, fs')" "msg \<noteq> ''init 0''"
  shows "name \<in> dom fs'"
proof -
  have "ok ''init 0'' \<and> name \<notin> dom fs"
    using assms by (auto simp: shm_blocking_queue_init_def Let_def split: if_splits)
  then have "name \<in> dom (snd (shm_blocking_queue_init ok name cap fs))"
    unfolding shm_blocking_queue_init_def Let_def
    by (simp del: exit_err_on.simps(2) add: exit_err_on.simps(2) [of _ "''init 0''"])
      (rule exit_err_on_keeps, auto simp: set_obj_def)
  then show ?thesis using assms(1) by simp
qed

text \<open>The calls of each operation, by their messages, and the first of them that fails.\<close>

definition init_calls :: "string list" where
  "init_calls = [''init 0'', ''init 1'', ''init 2'', ''init 3'', ''init 4'', ''init 5'', ''init 6'', ''init 7'',
     ''init 8'', ''init 9'', ''init 10'', ''init 11'']"

definition connect_calls :: "string list" where
  "connect_calls = [''connect 0'', ''connect 1'', ''connect 2'', ''connect 3'']"

definition destroy_calls :: "string list" where
  "destroy_calls = [''destroy 0'', ''destroy 1'', ''destroy 2'', ''destroy 3'', ''destroy 4'', ''destroy 5'',
     ''destroy 6'', ''destroy 7'', ''destroy 8'', ''destroy 9'']"

definition first_failure :: "(string \<Rightarrow> bool) \<Rightarrow> string list \<Rightarrow> 'a \<Rightarrow> string + 'a" where
  "first_failure ok msgs r = (case find (\<lambda>m. \<not> ok m) msgs of None \<Rightarrow> Inr r | Some m \<Rightarrow> Inl m)"

lemma exit_err_on_first: "fst (exit_err_on ok calls fs) = first_failure ok (map fst calls) ()"
  by (induction ok calls fs rule: exit_err_on.induct) (auto simp: first_failure_def)

lemma init_first:
  assumes "name \<notin> dom fs"
  shows "fst (shm_blocking_queue_init ok name cap fs) = first_failure ok init_calls ()"
proof -
  have "(\<lambda>msg. ok msg \<and> (msg = ''init 0'' \<longrightarrow> name \<notin> dom fs)) = ok" using assms by auto
  then show ?thesis
    unfolding shm_blocking_queue_init_def Let_def exit_err_on_first by (simp add: init_calls_def)
qed

lemma connect_first:
  assumes "gs name = Some ob"
  shows "shm_blocking_queue_connect ok name gs = first_failure ok connect_calls (name, so_len ob)"
  using assms exit_err_on_first [of ok "[(''connect 0'', id), (''connect 1'', id), (''connect 2'', id), (''connect 3'', id)]" gs]
  unfolding shm_blocking_queue_connect_def connect_calls_def
  by (auto simp: first_failure_def split: prod.splits sum.splits option.splits)

text \<open>All calls of \<open>destroy\<close> but the last leave the file system as it is.\<close>

lemma exit_err_on_last:
  "exit_err_on ok (map (\<lambda>m. (m, id)) ms @ [(m', eff)]) fs =
     (first_failure ok (ms @ [m']) (), if \<forall>m\<in>set (ms @ [m']). ok m then eff fs else fs)"
  by (induction ms) (auto simp: first_failure_def)

lemma destroy_first:
  assumes "name \<in> dom gs"
  shows "shm_blocking_queue_destroy ok name gs =
    (first_failure ok destroy_calls (), if \<forall>m\<in>set destroy_calls. ok m then gs(name := None) else gs)"
proof -
  let ?ok = "\<lambda>msg. ok msg \<and> (msg = ''destroy 0'' \<longrightarrow> name \<in> dom gs)"
  have "shm_blocking_queue_destroy ok name gs =
      (first_failure ?ok destroy_calls (), if \<forall>m\<in>set destroy_calls. ?ok m then gs(name := None) else gs)"
    using exit_err_on_last [of ?ok "butlast destroy_calls" "last destroy_calls" "\<lambda>fs. fs(name := None)" gs]
    unfolding shm_blocking_queue_destroy_def destroy_calls_def by (simp only: butlast.simps last.simps) simp
  then show ?thesis using assms by simp
qed

section \<open>Properties\<close>

text \<open>
  The transfer through shared memory is complete and exact. From every state that one
  server process and one client process reach, the transfer can be brought to its end, and when
  neither can take a step the client has taken exactly the \<open>max\<close> integers the server put, in
  order, the queue is empty, no access was outside the buffer, and the two checksums agree: the
  way from \<open>int\<close> to pointer and back changes no value.\<close>

theorem shm_transfer_checksum:
  assumes "reach (binit cap) (shm_transfer rnd mx) s"
  shows "(\<exists>s'. (shm_transfer rnd mx)\<^sup>*\<^sup>* s s' \<and> (\<nexists>t. shm_transfer rnd mx s' t)) \<and>
    ((\<nexists>t. shm_transfer rnd mx s t) \<longrightarrow>
       \<not> fault s \<and> loaded s = map snd (stored s) \<and> loaded s = map (server_val rnd 0) [0..<mx] \<and>
       client_checksum (loaded s) = server_checksum rnd mx)"
proof -
  have inv: "transfer_inv rnd mx cap s" using shm.reach_inv [OF assms] .
  have bi: "binv (server_val rnd) cap 1 1 s" using inv by (simp add: transfer_inv_def)
  have "\<not> fault s \<and> loaded s = map snd (stored s) \<and> loaded s = map (server_val rnd 0) [0..<mx] \<and>
      client_checksum (loaded s) = server_checksum rnd mx"
    if stuck: "\<nexists>t. shm_transfer rnd mx s t"
  proof -
    have l: "loaded s = map (server_val rnd 0) [0..<mx]" by (rule transfer_done [OF inv stuck])
    have "length (stored s) \<le> mx" using inv by (auto simp: transfer_inv_def moved_ok_def split: if_splits)
    then have "loaded s = map snd (stored s)"
      using l bi by (simp add: binv_def history_ok_def)
    then show ?thesis using l bi foldl_xor_cut [of 0 rnd "[0..<mx]"]
      by (simp add: binv_def client_checksum_def server_checksum_def)
  qed
  then show ?thesis using transfer_finish [OF inv] by blast
qed

theorem shm_transfer_checksum_witness:
  "\<exists>s'. (shm_transfer (\<lambda>i. 3 * word_of_nat i - 5) client_max)\<^sup>*\<^sup>* (bsys_init 4096) s' \<and>
    (\<nexists>t. shm_transfer (\<lambda>i. 3 * word_of_nat i - 5) client_max s' t)"
proof -
  have "reach (binit 4096) (shm_transfer (\<lambda>i. 3 * word_of_nat i - 5) client_max) (bsys_init 4096)"
    by (rule reach_init) (simp add: binit_def)
  then show ?thesis using shm_transfer_checksum by blast
qed

text \<open>C30: The life of the shared object. Where all calls succeed and the name is free, \<open>init\<close>
  creates an object with an empty queue, \<open>connect\<close> maps all of it, \<open>disconnect\<close> unmaps exactly
  what was mapped and \<open>destroy\<close> gives back the file system as it was. Where a call fails, the
  process exits with the message of the first that does: for \<open>init\<close>, \<open>connect\<close>, \<open>destroy\<close> and
  \<open>disconnect\<close>, and with the first message of \<open>connect\<close> or \<open>destroy\<close> where there is no object of the
  name and of \<open>init\<close> where there is one. A \<open>destroy\<close> that fails leaves the name; and so does an \<open>init\<close> that fails after its first
  call, so that the next one fails at once.\<close>

theorem shm_lifecycle:
  assumes "name \<notin> dom fs"
  shows "(\<exists>fs' ob. shm_blocking_queue_init (\<lambda>_. True) name cap fs = (Inr (), fs') \<and> fs' name = Some ob \<and>
      so_queue ob = Some (blocking_queue_init cap) \<and>
      shm_blocking_queue_connect (\<lambda>_. True) name fs' = Inr (name, map_len cap) \<and>
      shm_blocking_queue_disconnect (\<lambda>_. True) ob = Inr (map_len cap) \<and>
      shm_blocking_queue_destroy (\<lambda>_. True) name fs' = (Inr (), fs)) \<and>
    (\<forall>ok. fst (shm_blocking_queue_init ok name cap fs) = first_failure ok init_calls () \<and>
      shm_blocking_queue_connect ok name fs = Inl ''connect 0'' \<and>
      shm_blocking_queue_destroy ok name fs = (Inl ''destroy 0'', fs)) \<and>
    (\<forall>ok gs ob. gs name = Some ob \<longrightarrow>
      shm_blocking_queue_init ok name cap gs = (Inl ''init 0'', gs) \<and>
      shm_blocking_queue_connect ok name gs = first_failure ok connect_calls (name, so_len ob) \<and>
      (\<not> ok ''disconnect 0'' \<longrightarrow> shm_blocking_queue_disconnect ok ob = Inl ''disconnect 0'') \<and>
      shm_blocking_queue_destroy ok name gs =
        (first_failure ok destroy_calls (), if \<forall>m\<in>set destroy_calls. ok m then gs(name := None) else gs)) \<and>
    (\<forall>ok msg fs'. shm_blocking_queue_init ok name cap fs = (Inl msg, fs') \<and> msg \<noteq> ''init 0'' \<longrightarrow>
      (\<forall>ok'. fst (shm_blocking_queue_init ok' name cap fs') = Inl ''init 0''))"
proof (intro conjI allI impI)
  let ?ob = "\<lparr>so_len = map_len cap, so_queue = Some (blocking_queue_init cap)\<rparr>"
  have "fs(name := None) = fs" using assms by (auto simp: fun_eq_iff domIff)
  then show "\<exists>fs' ob. shm_blocking_queue_init (\<lambda>_. True) name cap fs = (Inr (), fs') \<and> fs' name = Some ob \<and>
      so_queue ob = Some (blocking_queue_init cap) \<and>
      shm_blocking_queue_connect (\<lambda>_. True) name fs' = Inr (name, map_len cap) \<and>
      shm_blocking_queue_disconnect (\<lambda>_. True) ob = Inr (map_len cap) \<and>
      shm_blocking_queue_destroy (\<lambda>_. True) name fs' = (Inr (), fs)"
    using assms
    by (intro exI [of _ "fs(name \<mapsto> ?ob)"] exI [of _ ?ob])
      (simp add: shm_blocking_queue_init_def shm_blocking_queue_connect_def
        shm_blocking_queue_disconnect_def shm_blocking_queue_destroy_def set_obj_def Let_def
        blocking_queue_init_def)
  show "fst (shm_blocking_queue_init ok name cap fs) = first_failure ok init_calls ()" for ok
    by (rule init_first [OF assms])
  show "shm_blocking_queue_connect ok name fs = Inl ''connect 0''" for ok
    using assms by (simp add: shm_blocking_queue_connect_def domIff)
  show "shm_blocking_queue_destroy ok name fs = (Inl ''destroy 0'', fs)" for ok
    using assms by (simp add: shm_blocking_queue_destroy_def)
  show "shm_blocking_queue_init ok name cap gs = (Inl ''init 0'', gs)" if "gs name = Some ob" for ok gs ob
    using that by (simp add: shm_blocking_queue_init_def Let_def domIff)
  show "shm_blocking_queue_connect ok name gs = first_failure ok connect_calls (name, so_len ob)"
    if "gs name = Some ob" for ok gs ob using that by (rule connect_first)
  show "shm_blocking_queue_disconnect ok ob = Inl ''disconnect 0''" if "\<not> ok ''disconnect 0''" for ok ob
    using that by (simp add: shm_blocking_queue_disconnect_def)
  show "shm_blocking_queue_destroy ok name gs =
      (first_failure ok destroy_calls (), if \<forall>m\<in>set destroy_calls. ok m then gs(name := None) else gs)"
    if "gs name = Some ob" for ok gs ob by (rule destroy_first) (use that in blast)
  show "fst (shm_blocking_queue_init ok' name cap fs') = Inl ''init 0''"
    if "shm_blocking_queue_init ok name cap fs = (Inl msg, fs') \<and> msg \<noteq> ''init 0''" for ok msg fs' ok'
  proof -
    have "name \<in> dom fs'" using init_leaves_name that by blast
    then show ?thesis by (simp add: shm_blocking_queue_init_def Let_def)
  qed
qed

theorem shm_lifecycle_witness:
  "fst (shm_blocking_queue_init (\<lambda>_. True) ''q'' 4 [''q'' \<mapsto> \<lparr>so_len = 0, so_queue = None\<rparr>]) = Inl ''init 0'' \<and>
   (\<exists>fs' ob. shm_blocking_queue_init (\<lambda>_. True) ''q'' 4 Map.empty = (Inr (), fs') \<and>
     fs' ''q'' = Some ob \<and> so_queue ob = Some (blocking_queue_init 4)) \<and>
   shm_blocking_queue_connect (\<lambda>msg. msg \<noteq> ''connect 2'') ''q'' [''q'' \<mapsto> \<lparr>so_len = 7, so_queue = None\<rparr>] =
     Inl ''connect 2''"
proof -
  let ?fs = "[''q'' \<mapsto> \<lparr>so_len = 7, so_queue = None\<rparr>] :: shm_fs"
  note life = shm_lifecycle [of "''q''" Map.empty 4]
  have "shm_blocking_queue_init (\<lambda>msg. msg = ''init 0'') ''q'' 4 Map.empty =
      (Inl ''init 1'', [''q'' \<mapsto> \<lparr>so_len = 0, so_queue = None\<rparr>])"
    by (simp add: shm_blocking_queue_init_def Let_def set_obj_def)
  then have "fst (shm_blocking_queue_init (\<lambda>_. True) ''q'' 4 [''q'' \<mapsto> \<lparr>so_len = 0, so_queue = None\<rparr>]) = Inl ''init 0''"
    using life by fastforce
  moreover have "shm_blocking_queue_connect (\<lambda>msg. msg \<noteq> ''connect 2'') ''q'' ?fs =
      first_failure (\<lambda>msg. msg \<noteq> ''connect 2'') connect_calls (''q'', 7)"
    using life by simp
  then have "shm_blocking_queue_connect (\<lambda>msg. msg \<noteq> ''connect 2'') ''q'' ?fs = Inl ''connect 2''"
    by (simp add: first_failure_def connect_calls_def)
  moreover have "\<exists>fs' ob. shm_blocking_queue_init (\<lambda>_. True) ''q'' 4 Map.empty = (Inr (), fs') \<and>
     fs' ''q'' = Some ob \<and> so_queue ob = Some (blocking_queue_init 4)"
    using conjunct1 [OF life] by fastforce
  ultimately show ?thesis by (intro conjI)
qed

end
