(* ===== verification/ShmRobust.thy ===== *)
theory ShmRobust
  imports ShmQueue
begin

text \<open>
  \<open>shm_blocking_queue_put\<close> and \<open>shm_blocking_queue_take\<close> of
  \<open>05-operating-systems/04-virtual-memory/02-shared-memory-stream/shm_blocking_queue.c\<close> between
  processes that may die at any point, by \<open>exit_err_on\<close> or from outside. The mutexes are robust: when
  their owner dies they are given up, and the next one to lock gets \<open>EOWNERDEAD\<close> and calls
  \<open>pthread_mutex_consistent\<close>. A process that is started again is another process.
\<close>

section \<open>Robust mutexes\<close>

record mtx =
  owner :: "nat option"
  dead :: bool

text \<open>Where a process is in its current call; \<open>R_gone\<close> is a process that has died.\<close>

datatype rpc = R_wait | R_lock | R_consistent | R_access | R_advance | R_unlock | R_post | R_gone

definition robust_lock :: "nat \<Rightarrow> mtx \<Rightarrow> (mtx \<times> rpc) option" where
  "robust_lock p m =
     (if owner m = None then Some (m\<lparr>owner := Some p\<rparr>, if dead m then R_consistent else R_access) else None)"

text \<open>To unlock a mutex that has not been made consistent makes it unusable for ever.\<close>

definition robust_unlock :: "mtx \<Rightarrow> mtx option" where
  "robust_unlock m = (if dead m then None else Some (m\<lparr>owner := None\<rparr>))"

definition robust_die :: "nat \<Rightarrow> mtx \<Rightarrow> mtx" where
  "robust_die p m = (if owner m = Some p then \<lparr>owner = None, dead = True\<rparr> else m)"

section \<open>The system\<close>

record sbq =
  sb_cells :: "ptr option list"
  sb_capacity :: nat
  sb_head :: nat
  sb_tail :: nat
  sb_mutex_head :: mtx
  sb_mutex_tail :: mtx
  sb_element :: nat
  sb_space :: nat

record rproc =
  r_pc :: rpc
  r_n :: nat
  r_e :: ptr

text \<open>
  \<open>entered\<close> and \<open>left\<close> are histories that no process reads: which element the tail has moved over
  and who put it there, which one the head has moved over and who took it.
\<close>

record rsys =
  sb :: sbq
  puts :: "nat \<Rightarrow> rproc"
  takes :: "nat \<Rightarrow> rproc"
  entered :: "(nat \<times> ptr) list"
  left :: "(nat \<times> ptr) list"
  crashes :: nat
  broken :: bool

definition sput :: "nat \<Rightarrow> sbq \<Rightarrow> rproc \<Rightarrow> rsys \<Rightarrow> rsys" where
  "sput p b t s = s\<lparr>sb := b, puts := (puts s)(p := t)\<rparr>"

definition stake :: "nat \<Rightarrow> sbq \<Rightarrow> rproc \<Rightarrow> rsys \<Rightarrow> rsys" where
  "stake c b t s = s\<lparr>sb := b, takes := (takes s)(c := t)\<rparr>"

text \<open>A step of \<open>shm_blocking_queue_put\<close>; the calls of process \<open>p\<close> put \<open>val p 0\<close>, \<open>val p 1\<close>, ...\<close>

definition put_step :: "(nat \<Rightarrow> nat \<Rightarrow> ptr) \<Rightarrow> nat \<Rightarrow> rsys \<Rightarrow> rsys option" where
  "put_step val p s =
     (let b = sb s; t = puts s p
      in case r_pc t of
        R_wait \<Rightarrow>
          (if 0 < sb_space b
           then Some (sput p (b\<lparr>sb_space := sb_space b - 1\<rparr>) \<lparr>r_pc = R_lock, r_n = Suc (r_n t), r_e = val p (r_n t)\<rparr> s)
           else None)
      | R_lock \<Rightarrow> map_option (\<lambda>(m, pc). sput p (b\<lparr>sb_mutex_tail := m\<rparr>) (t\<lparr>r_pc := pc\<rparr>) s) (robust_lock p (sb_mutex_tail b))
      | R_consistent \<Rightarrow>
          Some (sput p (b\<lparr>sb_mutex_tail := (sb_mutex_tail b)\<lparr>dead := False\<rparr>\<rparr>) (t\<lparr>r_pc := R_access\<rparr>) s)
      | R_access \<Rightarrow>
          (case wr (sb_cells b) (sb_tail b) (Some (r_e t)) of
             Inl _ \<Rightarrow> Some (s\<lparr>broken := True\<rparr>)
           | Inr cells \<Rightarrow> Some (sput p (b\<lparr>sb_cells := cells\<rparr>) (t\<lparr>r_pc := R_advance\<rparr>) s))
      | R_advance \<Rightarrow>
          Some ((sput p (b\<lparr>sb_tail := (sb_tail b + 1) mod sb_capacity b\<rparr>) (t\<lparr>r_pc := R_unlock\<rparr>) s)
            \<lparr>entered := entered s @ [(p, r_e t)]\<rparr>)
      | R_unlock \<Rightarrow>
          (case robust_unlock (sb_mutex_tail b) of
             None \<Rightarrow> Some (s\<lparr>broken := True\<rparr>)
           | Some m \<Rightarrow> Some (sput p (b\<lparr>sb_mutex_tail := m\<rparr>) (t\<lparr>r_pc := R_post\<rparr>) s))
      | R_post \<Rightarrow> Some (sput p (b\<lparr>sb_element := sb_element b + 1\<rparr>) (t\<lparr>r_pc := R_wait\<rparr>) s)
      | R_gone \<Rightarrow> None)"

text \<open>A step of \<open>shm_blocking_queue_take\<close>.\<close>

definition take_step :: "nat \<Rightarrow> rsys \<Rightarrow> rsys option" where
  "take_step c s =
     (let b = sb s; t = takes s c
      in case r_pc t of
        R_wait \<Rightarrow>
          (if 0 < sb_element b
           then Some (stake c (b\<lparr>sb_element := sb_element b - 1\<rparr>) (t\<lparr>r_pc := R_lock, r_n := Suc (r_n t)\<rparr>) s)
           else None)
      | R_lock \<Rightarrow> map_option (\<lambda>(m, pc). stake c (b\<lparr>sb_mutex_head := m\<rparr>) (t\<lparr>r_pc := pc\<rparr>) s) (robust_lock c (sb_mutex_head b))
      | R_consistent \<Rightarrow>
          Some (stake c (b\<lparr>sb_mutex_head := (sb_mutex_head b)\<lparr>dead := False\<rparr>\<rparr>) (t\<lparr>r_pc := R_access\<rparr>) s)
      | R_access \<Rightarrow>
          (case rd (sb_cells b) (sb_head b) of
             Inr (Some e) \<Rightarrow> Some (stake c b (t\<lparr>r_pc := R_advance, r_e := e\<rparr>) s)
           | _ \<Rightarrow> Some (s\<lparr>broken := True\<rparr>))
      | R_advance \<Rightarrow>
          Some ((stake c (b\<lparr>sb_head := (sb_head b + 1) mod sb_capacity b\<rparr>) (t\<lparr>r_pc := R_unlock\<rparr>) s)
            \<lparr>left := left s @ [(c, r_e t)]\<rparr>)
      | R_unlock \<Rightarrow>
          (case robust_unlock (sb_mutex_head b) of
             None \<Rightarrow> Some (s\<lparr>broken := True\<rparr>)
           | Some m \<Rightarrow> Some (stake c (b\<lparr>sb_mutex_head := m\<rparr>) (t\<lparr>r_pc := R_post\<rparr>) s))
      | R_post \<Rightarrow> Some (stake c (b\<lparr>sb_space := sb_space b + 1\<rparr>) (t\<lparr>r_pc := R_wait\<rparr>) s)
      | R_gone \<Rightarrow> None)"

definition put_dies :: "nat \<Rightarrow> rsys \<Rightarrow> rsys" where
  "put_dies p s =
     (sput p ((sb s)\<lparr>sb_mutex_tail := robust_die p (sb_mutex_tail (sb s))\<rparr>) ((puts s p)\<lparr>r_pc := R_gone\<rparr>) s)
       \<lparr>crashes := Suc (crashes s)\<rparr>"

definition take_dies :: "nat \<Rightarrow> rsys \<Rightarrow> rsys" where
  "take_dies c s =
     (stake c ((sb s)\<lparr>sb_mutex_head := robust_die c (sb_mutex_head (sb s))\<rparr>) ((takes s c)\<lparr>r_pc := R_gone\<rparr>) s)
       \<lparr>crashes := Suc (crashes s)\<rparr>"

text \<open>The processes at work, and all that can happen.\<close>

inductive works :: "(nat \<Rightarrow> nat \<Rightarrow> ptr) \<Rightarrow> nat \<Rightarrow> nat \<Rightarrow> rsys \<Rightarrow> rsys \<Rightarrow> bool" for val n m where
  put: "p < n \<Longrightarrow> put_step val p s = Some s' \<Longrightarrow> works val n m s s'"
| take: "c < m \<Longrightarrow> take_step c s = Some s' \<Longrightarrow> works val n m s s'"

inductive rstep :: "(nat \<Rightarrow> nat \<Rightarrow> ptr) \<Rightarrow> nat \<Rightarrow> nat \<Rightarrow> rsys \<Rightarrow> rsys \<Rightarrow> bool" for val n m where
  work: "works val n m s s' \<Longrightarrow> rstep val n m s s'"
| put_dies: "p < n \<Longrightarrow> r_pc (puts s p) \<noteq> R_gone \<Longrightarrow> rstep val n m s (put_dies p s)"
| take_dies: "c < m \<Longrightarrow> r_pc (takes s c) \<noteq> R_gone \<Longrightarrow> rstep val n m s (take_dies c s)"

definition rsys_init :: "nat \<Rightarrow> rsys" where
  "rsys_init cap =
     \<lparr>sb = \<lparr>sb_cells = replicate cap None, sb_capacity = cap, sb_head = 0, sb_tail = 0,
        sb_mutex_head = \<lparr>owner = None, dead = False\<rparr>, sb_mutex_tail = \<lparr>owner = None, dead = False\<rparr>,
        sb_element = 0, sb_space = cap\<rparr>,
      puts = (\<lambda>_. \<lparr>r_pc = R_wait, r_n = 0, r_e = NULL\<rparr>), takes = (\<lambda>_. \<lparr>r_pc = R_wait, r_n = 0, r_e = NULL\<rparr>),
      entered = [], left = [], crashes = 0, broken = False\<rparr>"

definition rinit :: "nat \<Rightarrow> rsys \<Rightarrow> bool" where
  "rinit cap s \<longleftrightarrow> 0 < cap \<and> s = rsys_init cap"

section \<open>Mutual exclusion\<close>

definition holds :: "rproc \<Rightarrow> bool" where
  "holds t \<longleftrightarrow> r_pc t \<in> {R_consistent, R_access, R_advance, R_unlock}"

definition inside :: "rproc \<Rightarrow> bool" where
  "inside t \<longleftrightarrow> r_pc t \<in> {R_access, R_advance, R_unlock}"

text \<open>One process at most is inside, and the mutex is consistent then.\<close>

definition lock_ok :: "nat \<Rightarrow> (nat \<Rightarrow> rproc) \<Rightarrow> mtx \<Rightarrow> bool" where
  "lock_ok n f m \<longleftrightarrow> (\<forall>p<n. holds (f p) \<longleftrightarrow> owner m = Some p) \<and> (\<forall>p. owner m = Some p \<longrightarrow> p < n) \<and>
     (\<forall>p<n. inside (f p) \<longrightarrow> \<not> dead m)"

lemma inside_holds: "inside t \<Longrightarrow> holds t"
  by (auto simp: inside_def holds_def)

lemma lock_ok_owner: "lock_ok n f m \<Longrightarrow> p < n \<Longrightarrow> inside (f p) \<Longrightarrow> owner m = Some p \<and> \<not> dead m"
  using inside_holds by (auto simp: lock_ok_def)

lemma lock_ok_lock:
  "lock_ok n f m \<Longrightarrow> p < n \<Longrightarrow> robust_lock p m = Some (m', pc) \<Longrightarrow> lock_ok n (f(p := (f p)\<lparr>r_pc := pc\<rparr>)) m'"
  by (auto simp: lock_ok_def robust_lock_def holds_def inside_def split: if_splits)

lemma lock_ok_consistent:
  "lock_ok n f m \<Longrightarrow> p < n \<Longrightarrow> r_pc (f p) = R_consistent \<Longrightarrow>
   lock_ok n (f(p := (f p)\<lparr>r_pc := R_access\<rparr>)) (m\<lparr>dead := False\<rparr>)"
  by (auto simp: lock_ok_def holds_def)

lemma lock_ok_same:
  "lock_ok n f m \<Longrightarrow> holds t = holds (f p) \<Longrightarrow> inside t = inside (f p) \<Longrightarrow> lock_ok n (f(p := t)) m"
  by (auto simp: lock_ok_def)

lemma lock_ok_unlock:
  "lock_ok n f m \<Longrightarrow> p < n \<Longrightarrow> inside (f p) \<Longrightarrow> \<not> holds t \<Longrightarrow> \<not> inside t \<Longrightarrow> robust_unlock m = Some m' \<Longrightarrow>
   lock_ok n (f(p := t)) m'"
  by (auto simp: lock_ok_def robust_unlock_def holds_def inside_def split: if_splits)

lemma lock_ok_die:
  "lock_ok n f m \<Longrightarrow> p < n \<Longrightarrow> lock_ok n (f(p := t\<lparr>r_pc := R_gone\<rparr>)) (robust_die p m)"
  by (auto simp: lock_ok_def robust_die_def holds_def inside_def)

lemma inside_unlocks: "lock_ok n f m \<Longrightarrow> p < n \<Longrightarrow> inside (f p) \<Longrightarrow> robust_unlock m = Some (m\<lparr>owner := None\<rparr>)"
  by (simp add: lock_ok_def robust_unlock_def)

lemma inside_alone: "lock_ok n f m \<Longrightarrow> p < n \<Longrightarrow> q < n \<Longrightarrow> inside (f p) \<Longrightarrow> inside (f q) \<Longrightarrow> p = q"
  using lock_ok_owner [of n f m p] lock_ok_owner [of n f m q] by simp

section \<open>The cases of a step\<close>

lemma put_step_cases [consumes 1, case_names wait lock consistent fault store advance stuck unlock post]:
  assumes "put_step val p s = Some s'"
  obtains "r_pc (puts s p) = R_wait" "0 < sb_space (sb s)"
      "s' = sput p ((sb s)\<lparr>sb_space := sb_space (sb s) - 1\<rparr>)
        \<lparr>r_pc = R_lock, r_n = Suc (r_n (puts s p)), r_e = val p (r_n (puts s p))\<rparr> s"
  | m pc where "r_pc (puts s p) = R_lock" "robust_lock p (sb_mutex_tail (sb s)) = Some (m, pc)"
      "s' = sput p ((sb s)\<lparr>sb_mutex_tail := m\<rparr>) ((puts s p)\<lparr>r_pc := pc\<rparr>) s"
  | "r_pc (puts s p) = R_consistent"
      "s' = sput p ((sb s)\<lparr>sb_mutex_tail := (sb_mutex_tail (sb s))\<lparr>dead := False\<rparr>\<rparr>) ((puts s p)\<lparr>r_pc := R_access\<rparr>) s"
  | "r_pc (puts s p) = R_access" "length (sb_cells (sb s)) \<le> sb_tail (sb s)" "s' = s\<lparr>broken := True\<rparr>"
  | "r_pc (puts s p) = R_access" "sb_tail (sb s) < length (sb_cells (sb s))"
      "s' = sput p ((sb s)\<lparr>sb_cells := (sb_cells (sb s))[sb_tail (sb s) := Some (r_e (puts s p))]\<rparr>)
        ((puts s p)\<lparr>r_pc := R_advance\<rparr>) s"
  | "r_pc (puts s p) = R_advance"
      "s' = (sput p ((sb s)\<lparr>sb_tail := (sb_tail (sb s) + 1) mod sb_capacity (sb s)\<rparr>) ((puts s p)\<lparr>r_pc := R_unlock\<rparr>) s)
        \<lparr>entered := entered s @ [(p, r_e (puts s p))]\<rparr>"
  | "r_pc (puts s p) = R_unlock" "robust_unlock (sb_mutex_tail (sb s)) = None" "s' = s\<lparr>broken := True\<rparr>"
  | m where "r_pc (puts s p) = R_unlock" "robust_unlock (sb_mutex_tail (sb s)) = Some m"
      "s' = sput p ((sb s)\<lparr>sb_mutex_tail := m\<rparr>) ((puts s p)\<lparr>r_pc := R_post\<rparr>) s"
  | "r_pc (puts s p) = R_post"
      "s' = sput p ((sb s)\<lparr>sb_element := sb_element (sb s) + 1\<rparr>) ((puts s p)\<lparr>r_pc := R_wait\<rparr>) s"
  using assms
  by (cases "r_pc (puts s p)")
    (auto simp: put_step_def Let_def wr_def split: if_splits option.splits)

lemma take_step_cases [consumes 1, case_names wait lock consistent fault load advance stuck unlock post]:
  assumes "take_step c s = Some s'"
  obtains "r_pc (takes s c) = R_wait" "0 < sb_element (sb s)"
      "s' = stake c ((sb s)\<lparr>sb_element := sb_element (sb s) - 1\<rparr>)
        ((takes s c)\<lparr>r_pc := R_lock, r_n := Suc (r_n (takes s c))\<rparr>) s"
  | m pc where "r_pc (takes s c) = R_lock" "robust_lock c (sb_mutex_head (sb s)) = Some (m, pc)"
      "s' = stake c ((sb s)\<lparr>sb_mutex_head := m\<rparr>) ((takes s c)\<lparr>r_pc := pc\<rparr>) s"
  | "r_pc (takes s c) = R_consistent"
      "s' = stake c ((sb s)\<lparr>sb_mutex_head := (sb_mutex_head (sb s))\<lparr>dead := False\<rparr>\<rparr>) ((takes s c)\<lparr>r_pc := R_access\<rparr>) s"
  | "r_pc (takes s c) = R_access"
      "length (sb_cells (sb s)) \<le> sb_head (sb s) \<or> sb_cells (sb s) ! sb_head (sb s) = None" "s' = s\<lparr>broken := True\<rparr>"
  | e where "r_pc (takes s c) = R_access" "sb_head (sb s) < length (sb_cells (sb s))"
      "sb_cells (sb s) ! sb_head (sb s) = Some e"
      "s' = stake c (sb s) ((takes s c)\<lparr>r_pc := R_advance, r_e := e\<rparr>) s"
  | "r_pc (takes s c) = R_advance"
      "s' = (stake c ((sb s)\<lparr>sb_head := (sb_head (sb s) + 1) mod sb_capacity (sb s)\<rparr>) ((takes s c)\<lparr>r_pc := R_unlock\<rparr>) s)
        \<lparr>left := left s @ [(c, r_e (takes s c))]\<rparr>"
  | "r_pc (takes s c) = R_unlock" "robust_unlock (sb_mutex_head (sb s)) = None" "s' = s\<lparr>broken := True\<rparr>"
  | m where "r_pc (takes s c) = R_unlock" "robust_unlock (sb_mutex_head (sb s)) = Some m"
      "s' = stake c ((sb s)\<lparr>sb_mutex_head := m\<rparr>) ((takes s c)\<lparr>r_pc := R_post\<rparr>) s"
  | "r_pc (takes s c) = R_post"
      "s' = stake c ((sb s)\<lparr>sb_space := sb_space (sb s) + 1\<rparr>) ((takes s c)\<lparr>r_pc := R_wait\<rparr>) s"
  using assms
  by (cases "r_pc (takes s c)")
    (auto simp: take_step_def Let_def rd_def split: if_splits option.splits)

lemma sput_simps [simp]:
  "sb (sput p b t s) = b" "puts (sput p b t s) = (puts s)(p := t)" "takes (sput p b t s) = takes s"
  "entered (sput p b t s) = entered s" "left (sput p b t s) = left s" "crashes (sput p b t s) = crashes s"
  "broken (sput p b t s) = broken s"
  by (simp_all add: sput_def)

lemma stake_simps [simp]:
  "sb (stake c b t s) = b" "takes (stake c b t s) = (takes s)(c := t)" "puts (stake c b t s) = puts s"
  "entered (stake c b t s) = entered s" "left (stake c b t s) = left s" "crashes (stake c b t s) = crashes s"
  "broken (stake c b t s) = broken s"
  by (simp_all add: stake_def)

lemma robust_lock_pc: "robust_lock p m = Some (m', pc) \<Longrightarrow> pc = R_consistent \<or> pc = R_access"
  by (auto simp: robust_lock_def split: if_splits)

section \<open>The invariant\<close>

definition locks_ok :: "nat \<Rightarrow> nat \<Rightarrow> rsys \<Rightarrow> bool" where
  "locks_ok n m s \<longleftrightarrow> lock_ok n (puts s) (sb_mutex_tail (sb s)) \<and> lock_ok m (takes s) (sb_mutex_head (sb s))"

lemma locks_put:
  assumes "put_step val p s = Some s'" "locks_ok n m s" "p < n"
  shows "locks_ok n m s'"
  using assms(1)
proof (cases rule: put_step_cases)
  case (lock m' pc)
  then show ?thesis using assms(2,3) lock_ok_lock by (auto simp: locks_ok_def)
next
  case consistent
  then show ?thesis using assms(2,3) lock_ok_consistent by (auto simp: locks_ok_def)
next
  case (unlock m')
  then show ?thesis
    using assms(2,3) lock_ok_unlock [of n "puts s" _ p "(puts s p)\<lparr>r_pc := R_post\<rparr>" m']
    by (auto simp: locks_ok_def holds_def inside_def)
qed (use assms(2) in \<open>auto simp: locks_ok_def holds_def inside_def intro!: lock_ok_same\<close>)

lemma locks_take:
  assumes "take_step c s = Some s'" "locks_ok n m s" "c < m"
  shows "locks_ok n m s'"
  using assms(1)
proof (cases rule: take_step_cases)
  case (lock m' pc)
  then show ?thesis using assms(2,3) lock_ok_lock by (auto simp: locks_ok_def)
next
  case consistent
  then show ?thesis using assms(2,3) lock_ok_consistent by (auto simp: locks_ok_def)
next
  case (unlock m')
  then show ?thesis
    using assms(2,3) lock_ok_unlock [of m "takes s" _ c "(takes s c)\<lparr>r_pc := R_post\<rparr>" m']
    by (auto simp: locks_ok_def holds_def inside_def)
qed (use assms(2) in \<open>auto simp: locks_ok_def holds_def inside_def intro!: lock_ok_same\<close>)

text \<open>Between the wait and the move of the index, and between that and the post.\<close>

definition before :: "rproc \<Rightarrow> bool" where
  "before t \<longleftrightarrow> r_pc t \<in> {R_lock, R_consistent, R_access, R_advance}"

definition after :: "rproc \<Rightarrow> bool" where
  "after t \<longleftrightarrow> r_pc t \<in> {R_unlock, R_post}"

text \<open>The semaphores never promise too much, and a death costs one unit at most.\<close>

definition counts_ok :: "nat \<Rightarrow> nat \<Rightarrow> nat \<Rightarrow> rsys \<Rightarrow> bool" where
  "counts_ok cap n m s \<longleftrightarrow>
     length (left s) + sb_element (sb s) + count_of n after (puts s) + count_of m before (takes s) \<le> length (entered s) \<and>
     length (entered s) + sb_space (sb s) + count_of n before (puts s) + count_of m after (takes s) \<le> cap + length (left s) \<and>
     cap \<le> sb_element (sb s) + sb_space (sb s) + count_of n before (puts s) + count_of n after (puts s) +
       count_of m before (takes s) + count_of m after (takes s) + crashes s"

lemma counts_put:
  assumes "put_step val p s = Some s'" "counts_ok cap n m s" "p < n"
  shows "counts_ok cap n m s'"
  using assms(1)
proof (cases rule: put_step_cases)
  case wait
  then show ?thesis using assms(2,3) count_of_enter [OF assms(3), of before "puts s"]
    by (simp add: counts_ok_def before_def after_def)
next
  case (lock m' pc)
  then show ?thesis using assms(2,3) robust_lock_pc [OF lock(2)]
    by (elim disjE) (simp_all add: counts_ok_def before_def after_def)
next
  case advance
  then show ?thesis
    using assms(2,3) count_of_leave [OF assms(3), of before "puts s" "(puts s p)\<lparr>r_pc := R_unlock\<rparr>"]
      count_of_enter [OF assms(3), of after "puts s"]
    by (simp add: counts_ok_def before_def after_def)
next
  case post
  then show ?thesis
    using assms(2,3) count_of_leave [OF assms(3), of after "puts s" "(puts s p)\<lparr>r_pc := R_wait\<rparr>"]
    by (simp add: counts_ok_def before_def after_def)
qed (use assms(2,3) in \<open>simp_all add: counts_ok_def before_def after_def\<close>)

lemma counts_take:
  assumes "take_step c s = Some s'" "counts_ok cap n m s" "c < m"
  shows "counts_ok cap n m s'"
  using assms(1)
proof (cases rule: take_step_cases)
  case wait
  then show ?thesis using assms(2,3) count_of_enter [OF assms(3), of before "takes s"]
    by (simp add: counts_ok_def before_def after_def)
next
  case (lock m' pc)
  then show ?thesis using assms(2,3) robust_lock_pc [OF lock(2)]
    by (elim disjE) (simp_all add: counts_ok_def before_def after_def)
next
  case advance
  then show ?thesis
    using assms(2,3) count_of_leave [OF assms(3), of before "takes s" "(takes s c)\<lparr>r_pc := R_unlock\<rparr>"]
      count_of_enter [OF assms(3), of after "takes s"]
    by (simp add: counts_ok_def before_def after_def)
next
  case post
  then show ?thesis
    using assms(2,3) count_of_leave [OF assms(3), of after "takes s" "(takes s c)\<lparr>r_pc := R_wait\<rparr>"]
    by (simp add: counts_ok_def before_def after_def)
qed (use assms(2,3) in \<open>simp_all add: counts_ok_def before_def after_def\<close>)

lemma count_of_gone:
  assumes "i < n" "\<not> P x"
  shows "count_of n P (f(i := x)) = count_of n P f - (if P (f i) then 1 else 0)" "P (f i) \<Longrightarrow> 1 \<le> count_of n P f"
  using count_of_update [OF assms(1), of P f x] count_of_pos [of i n P f] assms by auto

lemma counts_dies:
  assumes "counts_ok cap n m s"
  shows "p < n \<Longrightarrow> counts_ok cap n m (put_dies p s)" "c < m \<Longrightarrow> counts_ok cap n m (take_dies c s)"
  using assms
    count_of_gone [of p n before "(puts s p)\<lparr>r_pc := R_gone\<rparr>" "puts s"]
    count_of_gone [of p n after "(puts s p)\<lparr>r_pc := R_gone\<rparr>" "puts s"]
    count_of_gone [of c m before "(takes s c)\<lparr>r_pc := R_gone\<rparr>" "takes s"]
    count_of_gone [of c m after "(takes s c)\<lparr>r_pc := R_gone\<rparr>" "takes s"]
  by (auto simp: counts_ok_def put_dies_def take_dies_def before_def after_def)

lemma locks_dies:
  assumes "locks_ok n m s"
  shows "p < n \<Longrightarrow> locks_ok n m (put_dies p s)" "c < m \<Longrightarrow> locks_ok n m (take_dies c s)"
  using assms lock_ok_die by (auto simp: locks_ok_def put_dies_def take_dies_def)

lemma put_room:
  assumes "counts_ok cap n m s" "p < n" "before (puts s p)"
  shows "length (entered s) < cap + length (left s)" "length (left s) \<le> length (entered s)"
  using assms(1) count_of_pos [of p n before "puts s"] assms(2,3) by (auto simp: counts_ok_def)

lemma take_room:
  assumes "counts_ok cap n m s" "c < m" "before (takes s c)"
  shows "length (left s) < length (entered s)"
  using assms(1) count_of_pos [of c m before "takes s"] assms(2,3) by (auto simp: counts_ok_def)

text \<open>
  The cells between head and tail hold what was entered and has not left; a process between its
  access and the move of the index has written, or read, the element that the move stands for.
\<close>

definition cells_ok :: "nat \<Rightarrow> nat \<Rightarrow> nat \<Rightarrow> rsys \<Rightarrow> bool" where
  "cells_ok cap n m s \<longleftrightarrow>
     sb_capacity (sb s) = cap \<and> length (sb_cells (sb s)) = cap \<and>
     sb_tail (sb s) = length (entered s) mod cap \<and> sb_head (sb s) = length (left s) mod cap \<and>
     (\<forall>j. length (left s) \<le> j \<and> j < length (entered s) \<longrightarrow>
        sb_cells (sb s) ! (j mod cap) = Some (snd (entered s ! j))) \<and>
     (\<forall>p<n. r_pc (puts s p) = R_advance \<longrightarrow>
        sb_cells (sb s) ! (length (entered s) mod cap) = Some (r_e (puts s p))) \<and>
     (\<forall>c<m. r_pc (takes s c) = R_advance \<longrightarrow> r_e (takes s c) = snd (entered s ! length (left s)))"

lemma cells_put:
  assumes "put_step val p s = Some s'" "cells_ok cap n m s" "locks_ok n m s" "counts_ok cap n m s"
    "p < n" "0 < cap"
  shows "cells_ok cap n m s'"
  using assms(1)
proof (cases rule: put_step_cases)
  case (lock m' pc)
  then show ?thesis using assms(2) robust_lock_pc [OF lock(2)] by (auto simp: cells_ok_def)
next
  case store
  have room: "length (entered s) < cap + length (left s)" "length (left s) \<le> length (entered s)"
    using put_room [OF assms(4,5)] store(1) by (simp_all add: before_def)
  have "r_pc (puts s q) \<noteq> R_advance" if "q < n" "q \<noteq> p" for q
    using inside_alone [of n "puts s" _ q p] assms(3,5) that store(1) by (auto simp: locks_ok_def inside_def)
  moreover have "length (entered s) mod cap \<noteq> j mod cap" if "length (left s) \<le> j" "j < length (entered s)" for j
    using that room slot_neq [of j "length (entered s)" cap] by auto
  ultimately show ?thesis using store assms(2,6) by (auto simp: cells_ok_def)
next
  case advance
  have "length (left s) \<le> length (entered s)" and b: "before (puts s p)"
    using put_room [OF assms(4,5)] advance(1) by (simp_all add: before_def)
  have "r_pc (puts s q) \<noteq> R_advance" if "q < n" "q \<noteq> p" for q
    using inside_alone [of n "puts s" _ q p] assms(3,5) that advance(1) by (auto simp: locks_ok_def inside_def)
  moreover have "length (left s) < length (entered s)" if "c < m" "r_pc (takes s c) = R_advance" for c
    using take_room [OF assms(4) that(1)] that(2) by (simp add: before_def)
  ultimately show ?thesis using advance assms(2,5) by (auto simp: cells_ok_def nth_append mod_Suc_eq less_Suc_eq)
qed (use assms(2) in \<open>auto simp: cells_ok_def\<close>)

lemma cells_take:
  assumes "take_step c s = Some s'" "cells_ok cap n m s" "locks_ok n m s" "counts_ok cap n m s" "c < m"
  shows "cells_ok cap n m s'"
  using assms(1)
proof (cases rule: take_step_cases)
  case (lock m' pc)
  then show ?thesis using assms(2) robust_lock_pc [OF lock(2)] by (auto simp: cells_ok_def)
next
  case (load e)
  have "length (left s) < length (entered s)"
    using take_room [OF assms(4,5)] load(1) by (simp add: before_def)
  then have "e = snd (entered s ! length (left s))" using load(3) assms(2) by (simp add: cells_ok_def)
  then show ?thesis using load assms(2) by (auto simp: cells_ok_def)
next
  case advance
  have "r_pc (takes s q) \<noteq> R_advance" if "q < m" "q \<noteq> c" for q
    using inside_alone [of m "takes s" _ q c] assms(3,5) that advance(1) by (auto simp: locks_ok_def inside_def)
  then show ?thesis using advance assms(2) by (auto simp: cells_ok_def mod_Suc_eq)
qed (use assms(2) in \<open>auto simp: cells_ok_def\<close>)

lemma cells_dies:
  assumes "cells_ok cap n m s"
  shows "cells_ok cap n m (put_dies p s)" "cells_ok cap n m (take_dies c s)"
  using assms by (auto simp: cells_ok_def put_dies_def take_dies_def)

text \<open>
  Elements leave in the order in which they entered, and those of one process entered in the order
  of its calls: all of its calls, but for the one in which it is, or died.
\<close>

definition puts_in_order :: "(nat \<Rightarrow> nat \<Rightarrow> ptr) \<Rightarrow> nat \<Rightarrow> rproc \<Rightarrow> (nat \<times> ptr) list \<Rightarrow> bool" where
  "puts_in_order val p t es \<longleftrightarrow> (\<exists>k. map snd (filter (\<lambda>e. fst e = p) es) = map (val p) [0..<k] \<and>
     (if before t then r_n t = Suc k \<and> r_e t = val p k
      else if r_pc t = R_gone then r_n t = k \<or> r_n t = Suc k else r_n t = k))"

definition order_ok :: "(nat \<Rightarrow> nat \<Rightarrow> ptr) \<Rightarrow> nat \<Rightarrow> rsys \<Rightarrow> bool" where
  "order_ok val n s \<longleftrightarrow> map snd (left s) = take (length (left s)) (map snd (entered s)) \<and>
     set (map fst (entered s)) \<subseteq> {..<n} \<and> (\<forall>p<n. puts_in_order val p (puts s p) (entered s))"

lemma order_put:
  assumes "put_step val p s = Some s'" "order_ok val n s" "counts_ok cap n m s" "p < n"
  shows "order_ok val n s'"
  using assms(1)
proof (cases rule: put_step_cases)
  case (lock m' pc)
  then show ?thesis using assms(2) robust_lock_pc [OF lock(2)]
    by (auto simp: order_ok_def puts_in_order_def before_def)
next
  case advance
  have "length (left s) \<le> length (entered s)" and b: "before (puts s p)"
    using put_room [OF assms(3,4)] advance(1) by (simp_all add: before_def)
  moreover have "puts_in_order val p ((puts s p)\<lparr>r_pc := R_unlock\<rparr>) (entered s @ [(p, r_e (puts s p))])"
  proof -
    obtain k where k: "map snd (filter (\<lambda>e. fst e = p) (entered s)) = map (val p) [0..<k]"
      "r_n (puts s p) = Suc k" "r_e (puts s p) = val p k"
      using assms(2,4) b by (auto simp: order_ok_def puts_in_order_def)
    then show ?thesis unfolding puts_in_order_def by (intro exI [of _ "Suc k"]) (simp add: before_def)
  qed
  ultimately show ?thesis
    using advance(2) assms(2,4) by (auto simp: order_ok_def puts_in_order_def)
qed (use assms(2) in \<open>auto simp: order_ok_def puts_in_order_def before_def\<close>)

lemma order_take:
  assumes "take_step c s = Some s'" "order_ok val n s" "cells_ok cap n m s" "counts_ok cap n m s" "c < m"
  shows "order_ok val n s'"
  using assms(1)
proof (cases rule: take_step_cases)
  case advance
  have lt: "length (left s) < length (entered s)"
    using take_room [OF assms(4,5)] advance(1) by (simp add: before_def)
  moreover have "r_e (takes s c) = snd (entered s ! length (left s))"
    using assms(3,5) advance(1) by (simp add: cells_ok_def)
  ultimately show ?thesis using advance(2) assms(2) by (simp add: order_ok_def take_Suc_conv_app_nth)
qed (use assms(2) in \<open>simp_all add: order_ok_def\<close>)

lemma order_dies:
  assumes "order_ok val n s"
  shows "order_ok val n (put_dies p s)" "order_ok val n (take_dies c s)"
  using assms by (auto simp: order_ok_def puts_in_order_def before_def put_dies_def take_dies_def split: if_splits)

lemma broken_put:
  assumes "put_step val p s = Some s'" "cells_ok cap n m s" "locks_ok n m s" "p < n" "0 < cap" "\<not> broken s"
  shows "\<not> broken s'"
  using assms(1)
proof (cases rule: put_step_cases)
  case fault
  then show ?thesis using assms(2) mod_less_divisor [OF assms(5), of "length (entered s)"]
    by (simp add: cells_ok_def)
next
  case stuck
  then show ?thesis using inside_unlocks [of n "puts s" _ p] assms(3,4) by (auto simp: locks_ok_def inside_def)
qed (use assms(6) in simp_all)

lemma broken_take:
  assumes "take_step c s = Some s'" "cells_ok cap n m s" "locks_ok n m s" "counts_ok cap n m s" "c < m" "0 < cap"
    "\<not> broken s"
  shows "\<not> broken s'"
  using assms(1)
proof (cases rule: take_step_cases)
  case fault
  then show ?thesis using take_room [OF assms(4,5)] assms(2) mod_less_divisor [OF assms(6), of "length (left s)"]
    by (auto simp: cells_ok_def before_def)
next
  case stuck
  then show ?thesis using inside_unlocks [of m "takes s" _ c] assms(3,5) by (auto simp: locks_ok_def inside_def)
qed (use assms(7) in simp_all)

definition rinv :: "(nat \<Rightarrow> nat \<Rightarrow> ptr) \<Rightarrow> nat \<Rightarrow> nat \<Rightarrow> nat \<Rightarrow> rsys \<Rightarrow> bool" where
  "rinv val cap n m s \<longleftrightarrow> 0 < cap \<and> \<not> broken s \<and> locks_ok n m s \<and> counts_ok cap n m s \<and> cells_ok cap n m s \<and>
     order_ok val n s"

lemma works_inv: "works val n m s s' \<Longrightarrow> rinv val cap n m s \<Longrightarrow> rinv val cap n m s'"
  unfolding rinv_def
  by (erule works.cases)
    (auto intro: locks_put locks_take counts_put counts_take cells_put cells_take order_put order_take
      dest: broken_put broken_take)

lemma dies_broken: "broken (put_dies p s) = broken s" "broken (take_dies c s) = broken s"
  by (simp_all add: put_dies_def take_dies_def)

lemma rstep_inv:
  assumes "rinv val cap n m s" "rstep val n m s s'"
  shows "rinv val cap n m s'"
  using assms(2)
proof (cases rule: rstep.cases)
  case work
  then show ?thesis using works_inv assms(1) by blast
qed (use assms(1) in \<open>simp_all add: rinv_def locks_dies counts_dies cells_dies order_dies dies_broken\<close>)

lemma rinit_inv: "rinit cap s \<Longrightarrow> rinv val cap n m s"
  by (auto simp: rinit_def rsys_init_def rinv_def locks_ok_def lock_ok_def holds_def inside_def counts_ok_def
      before_def after_def count_of_def cells_ok_def order_ok_def puts_in_order_def)

interpretation rb: inductive_invariant "rinit cap" "rstep val n m" "rinv val cap n m"
  for cap val n m
  by unfold_locales (auto intro: rinit_inv rstep_inv)

section \<open>When nobody can move\<close>

lemma put_blocked:
  "put_step val p s = None \<longleftrightarrow> r_pc (puts s p) = R_gone \<or> r_pc (puts s p) = R_wait \<and> sb_space (sb s) = 0 \<or>
     r_pc (puts s p) = R_lock \<and> owner (sb_mutex_tail (sb s)) \<noteq> None"
  by (cases "r_pc (puts s p)") (auto simp: put_step_def Let_def robust_lock_def split: sum.splits option.splits)

lemma take_blocked:
  "take_step c s = None \<longleftrightarrow> r_pc (takes s c) = R_gone \<or> r_pc (takes s c) = R_wait \<and> sb_element (sb s) = 0 \<or>
     r_pc (takes s c) = R_lock \<and> owner (sb_mutex_head (sb s)) \<noteq> None"
  by (cases "r_pc (takes s c)") (auto simp: take_step_def Let_def robust_lock_def split: sum.splits option.splits)

text \<open>A mutex that is held is held by a process that can move.\<close>

lemma owner_moves:
  assumes "lock_ok n f m" "owner m = Some p"
  shows "p < n \<and> r_pc (f p) \<noteq> R_gone \<and> r_pc (f p) \<noteq> R_wait \<and> r_pc (f p) \<noteq> R_lock"
  using assms by (auto simp: lock_ok_def holds_def)

lemma stuck_none:
  "\<nexists>s'. works val n m s s' \<Longrightarrow> p < n \<Longrightarrow> put_step val p s = None"
  "\<nexists>s'. works val n m s s' \<Longrightarrow> c < m \<Longrightarrow> take_step c s = None"
  by (cases "put_step val p s"; cases "take_step c s"; auto intro: works.intros)+

lemma stuck_counts:
  assumes inv: "rinv val cap n m s" and stuck: "\<nexists>s'. works val n m s s'"
  shows "count_of n before (puts s) = 0 \<and> count_of n after (puts s) = 0 \<and>
    count_of m before (takes s) = 0 \<and> count_of m after (takes s) = 0"
proof -
  have lo: "lock_ok n (puts s) (sb_mutex_tail (sb s))" "lock_ok m (takes s) (sb_mutex_head (sb s))"
    using inv by (simp_all add: rinv_def locks_ok_def)
  have pb: "put_step val p s = None" if "p < n" for p using stuck_none(1) [OF stuck that] .
  have tb: "take_step c s = None" if "c < m" for c using stuck_none(2) [OF stuck that] .
  have "owner (sb_mutex_tail (sb s)) = None"
    using owner_moves [OF lo(1)] pb unfolding put_blocked by (metis not_None_eq)
  then have p: "r_pc (puts s p) = R_gone \<or> r_pc (puts s p) = R_wait" if "p < n" for p
    using pb [OF that] by (auto simp: put_blocked)
  have "owner (sb_mutex_head (sb s)) = None"
    using owner_moves [OF lo(2)] tb unfolding take_blocked by (metis not_None_eq)
  then have c: "r_pc (takes s c) = R_gone \<or> r_pc (takes s c) = R_wait" if "c < m" for c
    using tb [OF that] by (auto simp: take_blocked)
  show ?thesis using p c by (fastforce simp: count_of_zero before_def after_def)
qed

section \<open>Runs\<close>

datatype act = Put nat | Take nat | Put_dies nat | Take_dies nat

fun does :: "(nat \<Rightarrow> nat \<Rightarrow> ptr) \<Rightarrow> nat \<Rightarrow> nat \<Rightarrow> act list \<Rightarrow> rsys \<Rightarrow> rsys option" where
  "does val n m [] s = Some s"
| "does val n m (Put p # as) s =
     (if p < n then (case put_step val p s of None \<Rightarrow> None | Some s' \<Rightarrow> does val n m as s') else None)"
| "does val n m (Take c # as) s =
     (if c < m then (case take_step c s of None \<Rightarrow> None | Some s' \<Rightarrow> does val n m as s') else None)"
| "does val n m (Put_dies p # as) s =
     (if p < n \<and> r_pc (puts s p) \<noteq> R_gone then does val n m as (put_dies p s) else None)"
| "does val n m (Take_dies c # as) s =
     (if c < m \<and> r_pc (takes s c) \<noteq> R_gone then does val n m as (take_dies c s) else None)"

lemma does_reach:
  "does val n m as s = Some s' \<Longrightarrow> reach I (rstep val n m) s \<Longrightarrow> reach I (rstep val n m) s'"
  by (induction val n m as s rule: does.induct)
    (auto split: if_splits option.splits intro: reach_step rstep.intros works.intros)

text \<open>A first process dies before it has moved the tail; a second puts, and an element is taken.\<close>

definition a_death :: "act list" where
  "a_death = replicate 3 (Put 0) @ [Put_dies 0] @ replicate 7 (Put 1) @ replicate 6 (Take 0)"

definition a_val :: "nat \<Rightarrow> nat \<Rightarrow> ptr" where
  "a_val p i = word_of_nat (10 * p + i)"

lemma a_death_runs:
  "map_option (\<lambda>s. (entered s, left s, crashes s, r_pc (puts s 1), r_pc (takes s 0)))
     (does a_val 2 1 a_death (rsys_init 2)) = Some ([(1, 10)], [(0, 10)], 1, R_wait, R_wait)"
  by code_simp

lemma a_death_reach:
  "\<exists>s. reach (rinit 2) (rstep a_val 2 1) s \<and> entered s = [(1, 10)] \<and> left s = [(0, 10)] \<and> crashes s = 1 \<and>
     r_pc (puts s 1) = R_wait \<and> r_pc (takes s 0) = R_wait"
proof -
  obtain s where s: "does a_val 2 1 a_death (rsys_init 2) = Some s" "entered s = [(1, 10)]" "left s = [(0, 10)]"
      "crashes s = 1" "r_pc (puts s 1) = R_wait" "r_pc (takes s 0) = R_wait"
    using a_death_runs by (auto simp del: does.simps)
  have "reach (rinit 2) (rstep a_val 2 1) (rsys_init 2)" by (rule reach_init) (simp add: rinit_def)
  then show ?thesis using does_reach [OF s(1)] s by blast
qed

text \<open>
  A death between the wait and the post loses its unit for good, since only the mutex is recovered:
  with one place, one death leaves the processes that are left waiting for ever.
\<close>

lemma death_loses_place:
  "map_option (\<lambda>s. (crashes s, put_step val 1 s, take_step 0 s))
     (does val 2 1 [Put 0, Put_dies 0] (rsys_init 1)) = Some (1, None, None)"
  by (simp add: rsys_init_def put_dies_def put_step_def take_step_def robust_die_def Let_def)

section \<open>Properties\<close>

text \<open>
  C12: The queue survives the death of its users. Whatever the processes do and wherever any of them
  die, nothing is read that was not written, nothing is written outside the buffer and no mutex is
  lost; elements leave in the order in which they entered, each once; there are never more than
  the capacity of them inside; and what a process put entered in the order of its calls, with
  nothing missing but what it had in hand when it died.
\<close>

theorem shm_queue_survives:
  assumes "reach (rinit cap) (rstep val n m) s"
  shows "\<not> broken s \<and> map snd (left s) = take (length (left s)) (map snd (entered s)) \<and>
    length (left s) \<le> length (entered s) \<and> length (entered s) \<le> cap + length (left s) \<and>
    (\<forall>p<n. puts_in_order val p (puts s p) (entered s))"
  using rb.reach_inv [OF assms] by (simp add: rinv_def order_ok_def counts_ok_def)

text \<open>
  C13: As long as fewer processes have died than the queue has places, and at least one process that
  puts and one that takes are still alive, some process can go on: each death costs one place at
  most, and a mutex never stays with a dead owner.
\<close>

theorem shm_queue_moves:
  assumes "reach (rinit cap) (rstep val n m) s" and "crashes s < cap"
    and "p < n" "r_pc (puts s p) \<noteq> R_gone" and "c < m" "r_pc (takes s c) \<noteq> R_gone"
  shows "\<exists>s'. works val n m s s'"
proof (rule ccontr)
  assume stuck: "\<nexists>s'. works val n m s s'"
  have inv: "rinv val cap n m s" by (rule rb.reach_inv [OF assms(1)])
  note z = stuck_counts [OF inv stuck]
  have "r_pc (puts s p) = R_wait \<and> r_pc (takes s c) = R_wait"
    using z assms(3-6) by (cases "r_pc (puts s p)"; cases "r_pc (takes s c)")
      (auto simp: count_of_zero before_def after_def)
  moreover have "put_step val p s = None" "take_step c s = None"
    by (rule stuck_none(1) [OF stuck assms(3)], rule stuck_none(2) [OF stuck assms(5)])
  ultimately have "sb_space (sb s) = 0" "sb_element (sb s) = 0" by (simp_all add: put_blocked take_blocked)
  then show False using inv z assms(2) by (simp add: rinv_def counts_ok_def)
qed


lemma shm_queue_survives_witness:
  "\<exists>s :: rsys. crashes s = 1 \<and> left s = [(0, 10)] \<and> \<not> broken s \<and> length (entered s) \<le> 2 + length (left s)"
proof -
  obtain s where "reach (rinit 2) (rstep a_val 2 1) s" "left s = [(0, 10)]" "crashes s = 1"
    using a_death_reach by blast
  then show ?thesis using shm_queue_survives [of 2 a_val 2 1 s] by (intro exI [of _ s]) simp
qed

lemma shm_queue_moves_witness: "\<exists>s s'. crashes s = 1 \<and> works a_val 2 1 s s'"
proof -
  obtain s where s: "reach (rinit 2) (rstep a_val 2 1) s" "crashes s = 1"
      "r_pc (puts s 1) = R_wait" "r_pc (takes s 0) = R_wait"
    using a_death_reach by blast
  have "\<exists>s'. works a_val 2 1 s s'" by (rule shm_queue_moves [OF s(1), of 1 0]) (use s in simp_all)
  then show ?thesis using s(2) by blast
qed

end
