(* ===== verification/ShmStream.thy ===== *)
theory ShmStream
  imports ShmQueue
begin

text \<open>
  \<open>server.c\<close> and \<open>client.c\<close> of \<open>05-operating-systems/04-virtual-memory/02-shared-memory-stream\<close>
  as a system of two processes, one session long: the client creates the queue, tells the
  server its name over a socket, takes the integers that the server puts, and removes the queue
  when the server has said that it is through. The calls on the socket succeed, as the code does
  not look at their results, and what one \<open>send\<close> sends arrives as a whole.
\<close>

section \<open>Messages\<close>

definition SHM_FNAME :: string where
  "SHM_FNAME = ''mmap-stream''"

definition to_bytes :: "string \<Rightarrow> bytes" where
  "to_bytes cs = map (\<lambda>c. word_of_nat (of_char c)) cs"

text \<open>The four bytes of an \<open>int\<close>, and an \<open>int\<close> from the first four bytes.\<close>

definition int_bytes :: "u32 \<Rightarrow> bytes" where
  "int_bytes w = [ucast w, ucast (drop_bit 8 w), ucast (drop_bit 16 w), ucast (drop_bit 24 w)]"

definition bytes_int :: "bytes \<Rightarrow> u32" where
  "bytes_int bs = foldr (\<lambda>b w. push_bit 8 w OR ucast b) (take 4 bs) 0"

text \<open>The string in an array of which the first bytes were received over its old content.\<close>

definition received_name :: "bytes \<Rightarrow> bytes \<Rightarrow> string" where
  "received_name bs old = map (\<lambda>b. char_of (unat b)) (takeWhile (\<lambda>b. b \<noteq> 0) (bs @ drop (length bs) old))"

section \<open>The two programs\<close>

datatype kphase = K_init | K_connect | K_dial | K_send_max | K_send_name | K_takes | K_recv | K_disconnect
  | K_destroy | K_end | K_exit string

datatype vphase = V_accept | V_recv_max | V_recv_name | V_connect | V_puts | V_disconnect | V_send_end
  | V_exit string

text \<open>
  \<open>ss_mem\<close> is the queue in the shared object with the two processes at it; \<open>ss_served\<close> counts the
  sessions of the server; \<open>ss_torn\<close> says that the queue was destroyed while the server had it mapped.
\<close>

record ssys =
  ss_fs :: shm_fs
  ss_mem :: bsys
  ss_client :: kphase
  ss_server :: vphase
  ss_pending :: bool
  ss_c2s :: bytes
  ss_s2c :: bytes
  ss_max :: u32
  ss_name :: string
  ss_served :: nat
  ss_torn :: bool

definition client_more :: "nat \<Rightarrow> nat \<Rightarrow> bool" where
  "client_more c k \<longleftrightarrow> k < client_max"

text \<open>The loop condition of the server, on its signed \<open>max\<close>.\<close>

definition server_more :: "u32 \<Rightarrow> nat \<Rightarrow> nat \<Rightarrow> bool" where
  "server_more mx p i \<longleftrightarrow> int i < sint mx"

definition server_maps :: "vphase \<Rightarrow> bool" where
  "server_maps v \<longleftrightarrow> v = V_puts \<or> v = V_disconnect"

definition client_step :: "(string \<Rightarrow> bool) \<Rightarrow> ssys \<Rightarrow> ssys option" where
  "client_step ok s =
     (let goto = (\<lambda>k. s\<lparr>ss_client := k\<rparr>); m = ss_mem s
      in case ss_client s of
        K_init \<Rightarrow>
          (case shm_blocking_queue_init ok SHM_FNAME 4096 (ss_fs s) of
             (Inl msg, fs) \<Rightarrow> Some ((goto (K_exit msg))\<lparr>ss_fs := fs\<rparr>)
           | (Inr _, fs) \<Rightarrow> Some ((goto K_connect)\<lparr>ss_fs := fs, ss_mem := bsys_init 4096\<rparr>))
      | K_connect \<Rightarrow>
          (case shm_blocking_queue_connect ok SHM_FNAME (ss_fs s) of
             Inl msg \<Rightarrow> Some (goto (K_exit msg)) | Inr _ \<Rightarrow> Some (goto K_dial))
      | K_dial \<Rightarrow> Some ((goto K_send_max)\<lparr>ss_pending := True\<rparr>)
      | K_send_max \<Rightarrow> Some ((goto K_send_name)\<lparr>ss_c2s := ss_c2s s @ int_bytes (word_of_nat client_max)\<rparr>)
      | K_send_name \<Rightarrow> Some ((goto K_takes)\<lparr>ss_c2s := ss_c2s s @ to_bytes SHM_FNAME\<rparr>)
      | K_takes \<Rightarrow>
          (if c_pc (conss m 0) = C_wait \<and> \<not> client_more 0 (c_k (conss m 0)) then Some (goto K_recv)
           else map_option (\<lambda>m'. s\<lparr>ss_mem := m'\<rparr>) (cons_step client_more 0 m))
      | K_recv \<Rightarrow> (if ss_s2c s = [] then None else Some ((goto K_disconnect)\<lparr>ss_s2c := []\<rparr>))
      | K_disconnect \<Rightarrow> (if ok ''disconnect 0'' then Some (goto K_destroy) else Some (goto (K_exit ''disconnect 0'')))
      | K_destroy \<Rightarrow>
          (case shm_blocking_queue_destroy ok SHM_FNAME (ss_fs s) of
             (Inl msg, fs) \<Rightarrow> Some ((goto (K_exit msg))\<lparr>ss_fs := fs\<rparr>)
           | (Inr _, fs) \<Rightarrow> Some ((goto K_end)\<lparr>ss_fs := fs, ss_torn := server_maps (ss_server s)\<rparr>))
      | _ \<Rightarrow> None)"

text \<open>\<open>old\<close> is what the array \<open>shm_fname\<close> holds before it is received into.\<close>

definition server_step :: "(nat \<Rightarrow> u32) \<Rightarrow> bytes \<Rightarrow> (string \<Rightarrow> bool) \<Rightarrow> ssys \<Rightarrow> ssys option" where
  "server_step rnd old ok s =
     (let goto = (\<lambda>v. s\<lparr>ss_server := v\<rparr>); m = ss_mem s
      in case ss_server s of
        V_accept \<Rightarrow> (if ss_pending s then Some ((goto V_recv_max)\<lparr>ss_pending := False\<rparr>) else None)
      | V_recv_max \<Rightarrow>
          (if ss_c2s s = [] then None
           else Some ((goto V_recv_name)\<lparr>ss_max := bytes_int (ss_c2s s), ss_c2s := drop 4 (ss_c2s s)\<rparr>))
      | V_recv_name \<Rightarrow>
          (if ss_c2s s = [] then None
           else Some ((goto V_connect)\<lparr>ss_name := received_name (take 4096 (ss_c2s s)) old, ss_c2s := drop 4096 (ss_c2s s)\<rparr>))
      | V_connect \<Rightarrow>
          (case shm_blocking_queue_connect ok (ss_name s) (ss_fs s) of
             Inl msg \<Rightarrow> Some (goto (V_exit msg)) | Inr _ \<Rightarrow> Some (goto V_puts))
      | V_puts \<Rightarrow>
          (if p_pc (prods m 0) = P_wait \<and> \<not> server_more (ss_max s) 0 (p_i (prods m 0)) then Some (goto V_disconnect)
           else map_option (\<lambda>m'. s\<lparr>ss_mem := m'\<rparr>) (prod_step (server_val rnd) (server_more (ss_max s)) 0 m))
      | V_disconnect \<Rightarrow> (if ok ''disconnect 0'' then Some (goto V_send_end) else Some (goto (V_exit ''disconnect 0'')))
      | V_send_end \<Rightarrow>
          Some ((goto V_accept)\<lparr>ss_s2c := ss_s2c s @ to_bytes ''end'', ss_served := Suc (ss_served s)\<rparr>)
      | V_exit _ \<Rightarrow> None)"

definition stream_step :: "(nat \<Rightarrow> u32) \<Rightarrow> bytes \<Rightarrow> (string \<Rightarrow> bool) \<Rightarrow> ssys \<Rightarrow> ssys \<Rightarrow> bool" where
  "stream_step rnd old ok s s' \<longleftrightarrow> client_step ok s = Some s' \<or> server_step rnd old ok s = Some s'"

definition stream_init :: "shm_fs \<Rightarrow> ssys" where
  "stream_init fs =
     \<lparr>ss_fs = fs, ss_mem = bsys_init 4096, ss_client = K_init, ss_server = V_accept, ss_pending = False,
      ss_c2s = [], ss_s2c = [], ss_max = 0, ss_name = [], ss_served = 0, ss_torn = False\<rparr>"

section \<open>What is sent is what is received\<close>

lemma client_max_bytes: "bytes_int (int_bytes (word_of_nat client_max) @ bs) = word_of_nat client_max"
  by (simp add: bytes_int_def int_bytes_def client_max_def SIZE_def)

lemma client_max_int: "sint (word_of_nat client_max :: u32) = int client_max"
  by (rule sint_word_of_nat32) (simp add: client_max_def SIZE_def)

lemma int_bytes_length [simp]: "length (int_bytes w) = 4"
  by (simp add: int_bytes_def)

text \<open>The byte behind the name decides.\<close>

definition terminated :: "bytes \<Rightarrow> bool" where
  "terminated old \<longleftrightarrow> length SHM_FNAME < length old \<and> old ! length SHM_FNAME = 0"

lemma name_received:
  assumes "terminated old"
  shows "received_name (to_bytes SHM_FNAME) old = SHM_FNAME"
proof -
  have "drop (length SHM_FNAME) old = 0 # drop (Suc (length SHM_FNAME)) old"
    using assms by (metis Cons_nth_drop_Suc terminated_def)
  moreover have "\<forall>b\<in>set (to_bytes SHM_FNAME). b \<noteq> 0" "map (\<lambda>b. char_of (unat b)) (to_bytes SHM_FNAME) = SHM_FNAME"
    "length (to_bytes SHM_FNAME) = length SHM_FNAME"
    by code_simp+
  ultimately show ?thesis by (simp add: received_name_def takeWhile_append2)
qed

section \<open>The invariant of a session\<close>

abbreviation all_ok :: "string \<Rightarrow> bool" where
  "all_ok \<equiv> \<lambda>_. True"

fun krank :: "kphase \<Rightarrow> nat" where
  "krank K_init = 0" | "krank K_connect = 1" | "krank K_dial = 2" | "krank K_send_max = 3"
| "krank K_send_name = 4" | "krank K_takes = 5" | "krank K_recv = 6" | "krank K_disconnect = 7"
| "krank K_destroy = 8" | "krank K_end = 9" | "krank (K_exit _) = 10"

fun vrank :: "vphase \<Rightarrow> nat" where
  "vrank V_accept = 0" | "vrank V_recv_max = 1" | "vrank V_recv_name = 2" | "vrank V_connect = 3"
| "vrank V_puts = 4" | "vrank V_disconnect = 5" | "vrank V_send_end = 6" | "vrank (V_exit _) = 7"

definition the_max :: u32 where
  "the_max = word_of_nat client_max"

text \<open>What the client has sent when it is in a phase.\<close>

definition so_far :: "kphase \<Rightarrow> bytes" where
  "so_far k = (if krank k \<le> 3 then [] else if krank k = 4 then int_bytes the_max
     else int_bytes the_max @ to_bytes SHM_FNAME)"

text \<open>How far each of the two can be ahead, and what is on its way between them.\<close>

definition before_end :: "kphase \<Rightarrow> ssys \<Rightarrow> bool" where
  "before_end k s \<longleftrightarrow> ss_s2c s = [] \<and> krank k \<le> 6 \<and> (ss_pending s \<longleftrightarrow> 3 \<le> krank k \<and> ss_server s = V_accept) \<and>
     (case ss_server s of
        V_accept \<Rightarrow> ss_c2s s = so_far k
      | V_recv_max \<Rightarrow> 3 \<le> krank k \<and> ss_c2s s = so_far k
      | V_recv_name \<Rightarrow> 4 \<le> krank k \<and> ss_max s = the_max \<and> ss_c2s s = drop 4 (so_far k)
      | V_exit _ \<Rightarrow> False
      | _ \<Rightarrow> 5 \<le> krank k \<and> ss_max s = the_max \<and> ss_c2s s = [] \<and> ss_name s = SHM_FNAME)"

definition after_end :: "kphase \<Rightarrow> ssys \<Rightarrow> bool" where
  "after_end k s \<longleftrightarrow> ss_server s = V_accept \<and> 5 \<le> krank k \<and> krank k \<le> 9 \<and> \<not> ss_pending s \<and> ss_c2s s = [] \<and>
     ss_s2c s = (if krank k \<le> 6 then to_bytes ''end'' else [])"

definition link_ok :: "ssys \<Rightarrow> bool" where
  "link_ok s \<longleftrightarrow> \<not> ss_torn s \<and>
     (if ss_served s = 0 then before_end (ss_client s) s else ss_served s = 1 \<and> after_end (ss_client s) s)"

definition all_put :: "ssys \<Rightarrow> bool" where
  "all_put s \<longleftrightarrow> p_pc (prods (ss_mem s) 0) = P_wait \<and> p_i (prods (ss_mem s) 0) = client_max"

definition all_taken :: "ssys \<Rightarrow> bool" where
  "all_taken s \<longleftrightarrow> c_pc (conss (ss_mem s) 0) = C_wait \<and> c_k (conss (ss_mem s) 0) = client_max"

definition mem_ok :: "(nat \<Rightarrow> u32) \<Rightarrow> ssys \<Rightarrow> bool" where
  "mem_ok rnd s \<longleftrightarrow> transfer_inv rnd client_max 4096 (ss_mem s) \<and>
     (krank (ss_client s) \<le> 4 \<longrightarrow> ss_mem s = bsys_init 4096) \<and>
     (ss_served s = 1 \<or> 5 \<le> vrank (ss_server s) \<longrightarrow> all_put s) \<and> (6 \<le> krank (ss_client s) \<longrightarrow> all_taken s)"

definition the_obj :: shm_obj where
  "the_obj = \<lparr>so_len = map_len 4096, so_queue = Some (blocking_queue_init 4096)\<rparr>"

definition files_ok :: "shm_fs \<Rightarrow> ssys \<Rightarrow> bool" where
  "files_ok fs s \<longleftrightarrow>
     ss_fs s = (if krank (ss_client s) \<in> {0, 9} then fs else fs(SHM_FNAME \<mapsto> the_obj))"

definition sinv :: "(nat \<Rightarrow> u32) \<Rightarrow> shm_fs \<Rightarrow> ssys \<Rightarrow> bool" where
  "sinv rnd fs s \<longleftrightarrow> link_ok s \<and> mem_ok rnd s \<and> files_ok fs s"

lemma init_ok: "name \<notin> dom fs \<Longrightarrow> shm_blocking_queue_init all_ok name 4096 fs =
    (Inr (), fs(name \<mapsto> \<lparr>so_len = map_len 4096, so_queue = Some (blocking_queue_init 4096)\<rparr>))"
  by (simp add: shm_blocking_queue_init_def set_obj_def Let_def blocking_queue_init_def)

lemma connect_ok: "shm_blocking_queue_connect all_ok name (fs(name \<mapsto> ob)) = Inr (name, so_len ob)"
  by (simp add: shm_blocking_queue_connect_def)

lemma destroy_ok: "name \<notin> dom fs \<Longrightarrow> shm_blocking_queue_destroy all_ok name (fs(name \<mapsto> ob)) = (Inr (), fs)"
  by (auto simp: shm_blocking_queue_destroy_def fun_eq_iff domIff)

lemma server_more_max: "server_more the_max = (\<lambda>_ i. i < client_max)"
  by (intro ext) (simp add: server_more_def the_max_def client_max_int)

lemma client_more_max: "client_more = (\<lambda>_ k. k < client_max)"
  by (intro ext) (simp add: client_more_def)

lemma put_transfers:
  assumes "prod_step (server_val rnd) (server_more the_max) 0 m = Some m'"
  shows "shm_transfer rnd client_max m m'" "conss m' = conss m"
proof -
  show "shm_transfer rnd client_max m m'"
    using assms unfolding shm_transfer_def server_more_max by (auto intro: produce)
  show "conss m' = conss m" using assms by (cases rule: prod_step_cases) simp_all
qed

lemma take_transfers:
  assumes "cons_step client_more 0 m = Some m'"
  shows "shm_transfer rnd client_max m m'" "prods m' = prods m"
proof -
  show "shm_transfer rnd client_max m m'"
    using assms unfolding shm_transfer_def client_more_max by (auto intro: consume)
  show "prods m' = prods m" using assms by (cases rule: cons_step_cases) simp_all
qed

lemma transfer_counts:
  "transfer_inv rnd client_max 4096 m \<Longrightarrow> p_i (prods m 0) \<le> client_max \<and> c_k (conss m 0) \<le> client_max"
  by (auto simp: transfer_inv_def moved_ok_def)

lemma files_at: "files_ok fs s \<Longrightarrow> ss_fs s = (if krank (ss_client s) \<in> {0, 9} then fs else fs(SHM_FNAME \<mapsto> the_obj))"
  by (simp add: files_ok_def)

text \<open>The cases of a step of the client, when all calls succeed.\<close>

lemma client_step_cases [consumes 3, case_names init connect dial send_max send_name taken take recv disconnect destroy]:
  assumes "client_step all_ok s = Some s'" "files_ok fs s" "SHM_FNAME \<notin> dom fs"
  obtains "ss_client s = K_init"
      "s' = s\<lparr>ss_client := K_connect, ss_fs := fs(SHM_FNAME \<mapsto> the_obj), ss_mem := bsys_init 4096\<rparr>"
  | "ss_client s = K_connect" "s' = s\<lparr>ss_client := K_dial\<rparr>"
  | "ss_client s = K_dial" "s' = s\<lparr>ss_client := K_send_max, ss_pending := True\<rparr>"
  | "ss_client s = K_send_max" "s' = s\<lparr>ss_client := K_send_name, ss_c2s := ss_c2s s @ int_bytes the_max\<rparr>"
  | "ss_client s = K_send_name" "s' = s\<lparr>ss_client := K_takes, ss_c2s := ss_c2s s @ to_bytes SHM_FNAME\<rparr>"
  | "ss_client s = K_takes" "c_pc (conss (ss_mem s) 0) = C_wait" "\<not> c_k (conss (ss_mem s) 0) < client_max"
      "s' = s\<lparr>ss_client := K_recv\<rparr>"
  | m' where "ss_client s = K_takes" "cons_step client_more 0 (ss_mem s) = Some m'" "s' = s\<lparr>ss_mem := m'\<rparr>"
  | "ss_client s = K_recv" "ss_s2c s \<noteq> []" "s' = s\<lparr>ss_client := K_disconnect, ss_s2c := []\<rparr>"
  | "ss_client s = K_disconnect" "s' = s\<lparr>ss_client := K_destroy\<rparr>"
  | "ss_client s = K_destroy" "s' = s\<lparr>ss_client := K_end, ss_fs := fs, ss_torn := server_maps (ss_server s)\<rparr>"
proof (cases "ss_client s")
  case K_init
  then have f: "ss_fs s = fs" using files_at [OF assms(2)] by simp
  show thesis using that(1) [OF K_init] assms(1) K_init f init_ok [OF assms(3)]
    by (simp add: client_step_def the_obj_def)
next
  case K_connect
  then have f: "ss_fs s = fs(SHM_FNAME \<mapsto> the_obj)" using files_at [OF assms(2)] by simp
  show thesis using that(2) [OF K_connect] assms(1) K_connect f connect_ok by (simp add: client_step_def)
next
  case K_destroy
  then have f: "ss_fs s = fs(SHM_FNAME \<mapsto> the_obj)" using files_at [OF assms(2)] by simp
  show thesis using that(10) [OF K_destroy] assms(1) K_destroy f destroy_ok [OF assms(3)]
    by (simp add: client_step_def)
next
  case K_takes
  show thesis
  proof (cases "c_pc (conss (ss_mem s) 0) = C_wait \<and> \<not> client_more 0 (c_k (conss (ss_mem s) 0))")
    case True
    then show thesis using that(6) [OF K_takes] assms(1) K_takes by (simp add: client_step_def client_more_def)
  next
    case False
    then show thesis using that(7) [OF K_takes] assms(1) K_takes by (auto simp: client_step_def)
  qed
next
  case K_dial
  then show thesis using that(3) [OF K_dial] assms(1) by (simp add: client_step_def the_max_def split: if_splits)
next
  case K_send_max
  then show thesis using that(4) [OF K_send_max] assms(1) by (simp add: client_step_def the_max_def split: if_splits)
next
  case K_send_name
  then show thesis using that(5) [OF K_send_name] assms(1) by (simp add: client_step_def the_max_def split: if_splits)
next
  case K_recv
  then show thesis using that(8) [OF K_recv] assms(1) by (simp add: client_step_def the_max_def split: if_splits)
next
  case K_disconnect
  then show thesis using that(9) [OF K_disconnect] assms(1) by (simp add: client_step_def the_max_def split: if_splits)
qed (use assms(1) in \<open>simp_all add: client_step_def\<close>)

text \<open>The cases of a step of the server: what the phase says about the client's messages is a hypothesis.\<close>

definition heard :: "bytes \<Rightarrow> ssys \<Rightarrow> bool" where
  "heard old s \<longleftrightarrow> terminated old \<and>
     (ss_server s = V_recv_max \<and> ss_c2s s \<noteq> [] \<longrightarrow> bytes_int (ss_c2s s) = the_max) \<and>
     (ss_server s = V_recv_name \<and> ss_c2s s \<noteq> [] \<longrightarrow> ss_c2s s = to_bytes SHM_FNAME) \<and>
     (ss_server s = V_connect \<longrightarrow> ss_name s = SHM_FNAME \<and> ss_fs s SHM_FNAME = Some the_obj) \<and>
     (ss_server s = V_puts \<longrightarrow> ss_max s = the_max)"

lemma server_step_cases [consumes 2, case_names accept recv_max recv_name connect all_put put disconnect send_end]:
  assumes "server_step rnd old all_ok s = Some s'" "heard old s"
  obtains "ss_server s = V_accept" "ss_pending s" "s' = s\<lparr>ss_server := V_recv_max, ss_pending := False\<rparr>"
  | "ss_server s = V_recv_max" "ss_c2s s \<noteq> []"
      "s' = s\<lparr>ss_server := V_recv_name, ss_max := the_max, ss_c2s := drop 4 (ss_c2s s)\<rparr>"
  | "ss_server s = V_recv_name" "ss_c2s s \<noteq> []" "s' = s\<lparr>ss_server := V_connect, ss_name := SHM_FNAME, ss_c2s := []\<rparr>"
  | "ss_server s = V_connect" "s' = s\<lparr>ss_server := V_puts\<rparr>"
  | "ss_server s = V_puts" "p_pc (prods (ss_mem s) 0) = P_wait" "\<not> p_i (prods (ss_mem s) 0) < client_max"
      "s' = s\<lparr>ss_server := V_disconnect\<rparr>"
  | m' where "ss_server s = V_puts" "prod_step (server_val rnd) (server_more the_max) 0 (ss_mem s) = Some m'"
      "s' = s\<lparr>ss_mem := m'\<rparr>"
  | "ss_server s = V_disconnect" "s' = s\<lparr>ss_server := V_send_end\<rparr>"
  | "ss_server s = V_send_end"
      "s' = s\<lparr>ss_server := V_accept, ss_s2c := ss_s2c s @ to_bytes ''end'', ss_served := Suc (ss_served s)\<rparr>"
proof (cases "ss_server s")
  case V_recv_max
  then show thesis using that(2) [OF V_recv_max] assms by (simp add: server_step_def heard_def split: if_splits)
next
  case V_recv_name
  have "length (to_bytes SHM_FNAME) < 4096" by (simp add: to_bytes_def SHM_FNAME_def)
  then show thesis using that(3) [OF V_recv_name] V_recv_name assms name_received
    by (simp add: server_step_def heard_def split: if_splits)
next
  case V_connect
  then have "ss_name s = SHM_FNAME" "ss_fs s SHM_FNAME = Some the_obj" using assms(2) by (simp_all add: heard_def)
  then show thesis using that(4) [OF V_connect] V_connect assms(1)
    by (simp add: server_step_def shm_blocking_queue_connect_def)
next
  case V_puts
  then have mx: "ss_max s = the_max" using assms(2) by (simp add: heard_def)
  show thesis
  proof (cases "p_pc (prods (ss_mem s) 0) = P_wait \<and> \<not> server_more the_max 0 (p_i (prods (ss_mem s) 0))")
    case True
    then show thesis using that(5) [OF V_puts] assms(1) V_puts mx by (simp add: server_step_def server_more_max)
  next
    case False
    then show thesis using that(6) [OF V_puts] assms(1) V_puts mx by (auto simp: server_step_def)
  qed
next
  case V_accept
  then show thesis using that(1) [OF V_accept] assms(1) by (simp add: server_step_def split: if_splits)
next
  case V_disconnect
  then show thesis using that(7) [OF V_disconnect] assms(1) by (simp add: server_step_def split: if_splits)
next
  case V_send_end
  then show thesis using that(8) [OF V_send_end] assms(1) by (simp add: server_step_def split: if_splits)
next
  case (V_exit msg)
  then show thesis using assms(1) by (simp add: server_step_def)
qed

lemma session_heard:
  assumes "sinv rnd fs s" "terminated old"
  shows "heard old s"
proof -
  have "bytes_int (int_bytes the_max @ bs) = the_max" for bs unfolding the_max_def by (rule client_max_bytes)
  from this [of "[]"] this [of "to_bytes SHM_FNAME"] show ?thesis
    using assms by (auto simp: heard_def sinv_def link_ok_def before_end_def after_end_def so_far_def files_ok_def
      split: if_splits)
qed

lemmas session_defs = sinv_def link_ok_def before_end_def after_end_def mem_ok_def files_ok_def so_far_def
  all_taken_def all_put_def

lemma transfer_inv_init [simp]: "transfer_inv rnd client_max 4096 (bsys_init 4096)"
  by (rule shm.inv_init) (simp add: binit_def)

lemma client_inv:
  assumes step: "client_step all_ok s = Some s'" and inv: "sinv rnd fs s" and "SHM_FNAME \<notin> dom fs"
  shows "sinv rnd fs s'"
proof -
  have files: "files_ok fs s" and ti: "transfer_inv rnd client_max 4096 (ss_mem s)"
    using inv by (simp_all add: sinv_def mem_ok_def)
  note counts = transfer_counts [OF ti]
  from step files assms(3) show ?thesis
  proof (cases rule: client_step_cases)
    case init
    show ?thesis using inv init(1) unfolding init(2)
      by (cases "ss_server s") (simp_all add: session_defs split: if_splits)
  next
    case connect
    show ?thesis using inv connect(1) unfolding connect(2)
      by (cases "ss_server s") (simp_all add: session_defs split: if_splits)
  next
    case dial
    show ?thesis using inv dial(1) unfolding dial(2)
      by (cases "ss_server s") (simp_all add: session_defs split: if_splits)
  next
    case send_max
    show ?thesis using inv send_max(1) unfolding send_max(2)
      by (cases "ss_server s") (simp_all add: session_defs split: if_splits)
  next
    case send_name
    show ?thesis using inv send_name(1) unfolding send_name(2)
      by (cases "ss_server s") (simp_all add: session_defs split: if_splits)
  next
    case taken
    then have "all_taken s" using counts by (simp add: all_taken_def)
    then show ?thesis using inv taken(1) unfolding taken(4)
      by (cases "ss_server s") (simp_all add: session_defs split: if_splits)
  next
    case (take m')
    note m = take_transfers [OF take(2)]
    have "transfer_inv rnd client_max 4096 m'" using shm.inv_step [OF ti m(1)] .
    then show ?thesis using inv take(1) m(2) unfolding take(3)
      by (cases "ss_server s") (simp_all add: session_defs split: if_splits)
  next
    case recv
    show ?thesis using inv recv(1,2) unfolding recv(3)
      by (cases "ss_server s") (simp_all add: session_defs split: if_splits)
  next
    case disconnect
    show ?thesis using inv disconnect(1) unfolding disconnect(2)
      by (cases "ss_server s") (simp_all add: session_defs split: if_splits)
  next
    case destroy
    show ?thesis using inv destroy(1) unfolding destroy(2)
      by (cases "ss_server s") (simp_all add: session_defs server_maps_def split: if_splits)
  qed
qed

lemma server_inv:
  assumes step: "server_step rnd old all_ok s = Some s'" and inv: "sinv rnd fs s" and "terminated old"
  shows "sinv rnd fs s'"
proof -
  have ti: "transfer_inv rnd client_max 4096 (ss_mem s)" using inv by (simp add: sinv_def mem_ok_def)
  note counts = transfer_counts [OF ti]
  from step session_heard [OF inv assms(3)] show ?thesis
  proof (cases rule: server_step_cases)
    case accept
    show ?thesis using inv accept(1,2) unfolding accept(3) by (simp add: session_defs split: if_splits)
  next
    case recv_max
    show ?thesis using inv recv_max(1,2) unfolding recv_max(3)
      by (cases "krank (ss_client s) = 3") (simp_all add: session_defs split: if_splits)
  next
    case recv_name
    then have "krank (ss_client s) \<noteq> 4" using inv by (auto simp: session_defs split: if_splits)
    then show ?thesis using inv recv_name(1,2) unfolding recv_name(3) by (simp add: session_defs split: if_splits)
  next
    case connect
    show ?thesis using inv connect(1) unfolding connect(2) by (simp add: session_defs split: if_splits)
  next
    case all_put
    then have "all_put s" using counts by (simp add: all_put_def)
    then show ?thesis using inv all_put(1) unfolding all_put(4)
      by (simp add: session_defs split: if_splits)
  next
    case (put m')
    note m = put_transfers [OF put(2)]
    have "transfer_inv rnd client_max 4096 m'" using shm.inv_step [OF ti m(1)] .
    then show ?thesis using inv put(1) m(2) unfolding put(3)
      by (simp add: session_defs split: if_splits)
  next
    case disconnect
    show ?thesis using inv disconnect(1) unfolding disconnect(2)
      by (simp add: session_defs split: if_splits)
  next
    case send_end
    show ?thesis using inv send_end(1) unfolding send_end(2)
      by (simp add: session_defs split: if_splits)
  qed
qed

lemma stream_init_inv: "sinv rnd fs (stream_init fs)"
  by (simp add: stream_init_def session_defs)

section \<open>The session comes to its end\<close>

text \<open>A step of the client is one of the queue, or leads to its next phase; so is one of the server.\<close>

lemma client_moves:
  assumes "client_step all_ok s = Some s'" "sinv rnd fs s" "SHM_FNAME \<notin> dom fs"
  shows "ss_server s' = ss_server s \<and> ss_served s' = ss_served s \<and>
    (ss_mem s' = ss_mem s \<and> krank (ss_client s') = Suc (krank (ss_client s)) \<or>
     shm_transfer rnd client_max (ss_mem s) (ss_mem s') \<and> ss_client s' = ss_client s)"
proof -
  have m: "krank (ss_client s) = 0 \<Longrightarrow> ss_mem s = bsys_init 4096" and f: "files_ok fs s"
    using assms(2) by (simp_all add: sinv_def mem_ok_def)
  from assms(1) f assms(3) show ?thesis
    using m by (cases rule: client_step_cases) (simp_all add: take_transfers(1))
qed

definition vplace :: "ssys \<Rightarrow> nat" where
  "vplace s = (if ss_served s = 0 then vrank (ss_server s) else 7)"

lemma server_moves:
  assumes "server_step rnd old all_ok s = Some s'" "sinv rnd fs s" "terminated old"
  shows "ss_client s' = ss_client s \<and>
    (ss_mem s' = ss_mem s \<and> vplace s' = Suc (vplace s) \<or>
     shm_transfer rnd client_max (ss_mem s) (ss_mem s') \<and> vplace s' = vplace s)"
proof -
  have z: "ss_server s \<noteq> V_accept \<or> ss_pending s \<Longrightarrow> ss_served s = 0"
    using assms(2) by (auto simp: sinv_def link_ok_def after_end_def split: if_splits)
  from assms(1) session_heard [OF assms(2,3)] show ?thesis
    using z by (cases rule: server_step_cases) (simp_all add: vplace_def put_transfers(1))
qed

definition steps_left :: "ssys \<Rightarrow> nat" where
  "steps_left s = to_come client_max (ss_mem s) + (9 - krank (ss_client s)) + (7 - vplace s)"

lemma stream_inv:
  assumes "stream_step rnd old all_ok s s'" "sinv rnd fs s" "SHM_FNAME \<notin> dom fs" "terminated old"
  shows "sinv rnd fs s'"
  using assms client_inv server_inv unfolding stream_step_def by blast

lemma ranks:
  assumes "sinv rnd fs s"
  shows "krank (ss_client s) \<le> 9 \<and> vplace s \<le> 7"
  using assms by (cases "ss_server s") (auto simp: sinv_def link_ok_def before_end_def after_end_def vplace_def split: if_splits)

lemma steps_left_less:
  assumes "stream_step rnd old all_ok s s'" "sinv rnd fs s" "SHM_FNAME \<notin> dom fs" "terminated old"
  shows "steps_left s' < steps_left s"
proof -
  have r: "krank (ss_client s') \<le> 9" "vplace s' \<le> 7"
    using ranks [OF stream_inv [OF assms]] by simp_all
  have ti: "transfer_inv rnd client_max 4096 (ss_mem s)" using assms(2) by (simp add: sinv_def mem_ok_def)
  consider "client_step all_ok s = Some s'" | "server_step rnd old all_ok s = Some s'"
    using assms(1) unfolding stream_step_def by blast
  then show ?thesis
  proof cases
    case 1
    have "vplace s' = vplace s" using client_moves [OF 1 assms(2,3)] by (simp add: vplace_def)
    then show ?thesis using client_moves [OF 1 assms(2,3)] r to_come_less [OF ti, of "ss_mem s'"]
      by (auto simp: steps_left_def)
  next
    case 2
    then show ?thesis using server_moves [OF 2 assms(2,4)] r to_come_less [OF ti, of "ss_mem s'"]
      by (auto simp: steps_left_def)
  qed
qed

text \<open>When neither process can move at the queue, everything has been put and taken.\<close>

lemma transfer_stuck:
  assumes inv: "transfer_inv rnd client_max 4096 m" and stuck: "\<nexists>m'. shm_transfer rnd client_max m m'"
  shows "p_pc (prods m 0) = P_wait \<and> p_i (prods m 0) = client_max \<and>
    c_pc (conss m 0) = C_wait \<and> c_k (conss m 0) = client_max"
proof -
  have bi: "binv (server_val rnd) 4096 1 1 m" and mo: "moved_ok client_max m"
    using inv by (simp_all add: transfer_inv_def)
  note st = bq_stuck [OF bi stuck [unfolded shm_transfer_def]]
  have "\<not> taking (prods m 0)" "\<not> c_taking (conss m 0)" using st(1,2) [of 0] by (auto simp: pc_defs)
  then show ?thesis using mo st(1) [of 0] st(2) [of 0] st(3,4) by (auto simp: moved_ok_def)
qed

lemma queue_moves:
  assumes "transfer_inv rnd client_max 4096 m"
  shows "prod_step (server_val rnd) (server_more the_max) 0 m \<noteq> None \<or> cons_step client_more 0 m \<noteq> None \<or>
    p_pc (prods m 0) = P_wait \<and> p_i (prods m 0) = client_max \<and>
    c_pc (conss m 0) = C_wait \<and> c_k (conss m 0) = client_max"
proof (cases "\<exists>m'. shm_transfer rnd client_max m m'")
  case True
  then obtain m' where "shm_transfer rnd client_max m m'" by blast
  then show ?thesis unfolding shm_transfer_def server_more_max client_more_max by (cases rule: bstep.cases) auto
qed (use transfer_stuck [OF assms] in blast)

lemma all_put_blocked: "all_put s \<Longrightarrow> prod_step (server_val rnd) (server_more the_max) 0 (ss_mem s) = None"
  by (simp add: all_put_def prod_blocked server_more_max)

lemma all_taken_blocked: "all_taken s \<Longrightarrow> cons_step client_more 0 (ss_mem s) = None"
  by (simp add: all_taken_def cons_blocked client_more_max)

lemma client_ready:
  assumes "sinv rnd fs s" "SHM_FNAME \<notin> dom fs" "ss_client s \<notin> {K_takes, K_recv, K_end}"
  shows "\<exists>s'. client_step all_ok s = Some s'"
proof -
  have r: "krank (ss_client s) \<le> 9" using ranks [OF assms(1)] by simp
  have f: "ss_fs s = (if krank (ss_client s) \<in> {0, 9} then fs else fs(SHM_FNAME \<mapsto> the_obj))"
    using assms(1) by (simp add: sinv_def files_ok_def)
  show ?thesis
    using r assms(3) by (cases "ss_client s") (simp_all add: client_step_def split: sum.splits prod.splits)
qed

lemma server_ready:
  assumes "sinv rnd fs s" "5 \<le> krank (ss_client s)" "ss_server s \<noteq> V_puts" "ss_served s = 0"
  shows "\<exists>s'. server_step rnd old all_ok s = Some s'"
  using assms
  by (cases "ss_server s")
    (auto simp: server_step_def sinv_def link_ok_def before_end_def so_far_def int_bytes_def to_bytes_def SHM_FNAME_def
      split: sum.splits)

text \<open>As long as the client has not come to its end, one of the two can move.\<close>

lemma stream_moves:
  assumes inv: "sinv rnd fs s" and "SHM_FNAME \<notin> dom fs" "terminated old" "ss_client s \<noteq> K_end"
  shows "\<exists>s'. stream_step rnd old all_ok s s'"
proof (cases "ss_client s \<in> {K_takes, K_recv}")
  case False
  then show ?thesis using client_ready [OF inv assms(2)] assms(4) unfolding stream_step_def by blast
next
  case cl: True
  then have five: "5 \<le> krank (ss_client s)" by auto
  have ti: "transfer_inv rnd client_max 4096 (ss_mem s)" using inv by (simp add: sinv_def mem_ok_def)
  show ?thesis
  proof (cases "ss_served s = 0 \<and> ss_server s \<noteq> V_puts")
    case True
    then show ?thesis using server_ready [OF inv five] unfolding stream_step_def by blast
  next
    case False
    have sv: "ss_server s = V_puts \<and> ss_max s = the_max \<and> ss_served s = 0 \<or> all_put s \<and> (ss_client s = K_recv \<longrightarrow> ss_s2c s \<noteq> [])"
      using inv False by (auto simp: session_defs to_bytes_def split: if_splits)
    have put: "\<exists>s'. stream_step rnd old all_ok s s'"
      if "ss_server s = V_puts" "ss_max s = the_max" "prod_step (server_val rnd) (server_more the_max) 0 (ss_mem s) \<noteq> None
        \<or> p_pc (prods (ss_mem s) 0) = P_wait \<and> p_i (prods (ss_mem s) 0) = client_max"
      using that by (auto simp: stream_step_def server_step_def server_more_max Let_def split: if_splits)
    have take: "\<exists>s'. stream_step rnd old all_ok s s'"
      if "ss_client s = K_takes" "cons_step client_more 0 (ss_mem s) \<noteq> None
        \<or> c_pc (conss (ss_mem s) 0) = C_wait \<and> c_k (conss (ss_mem s) 0) = client_max"
      using that by (auto simp: stream_step_def client_step_def client_more_max Let_def split: if_splits)
    note q = queue_moves [OF ti]
    show ?thesis
    proof (cases "ss_client s = K_takes")
      case True
      then show ?thesis using put take q sv all_put_blocked [of s rnd] by metis
    next
      case False
      then have rc: "ss_client s = K_recv" "all_taken s" using cl inv by (auto simp: sinv_def mem_ok_def)
      then have "cons_step client_more 0 (ss_mem s) = None" by (simp add: all_taken_blocked)
      moreover have "\<exists>s'. stream_step rnd old all_ok s s'" if "ss_s2c s \<noteq> []"
        using that rc(1) by (auto simp: stream_step_def client_step_def)
      ultimately show ?thesis using put q sv rc(1) by metis
    qed
  qed
qed

lemma session_ends:
  "sinv rnd fs s \<Longrightarrow> SHM_FNAME \<notin> dom fs \<Longrightarrow> terminated old \<Longrightarrow>
   \<exists>s'. (stream_step rnd old all_ok)\<^sup>*\<^sup>* s s' \<and> ss_client s' = K_end"
proof (induction "steps_left s" arbitrary: s rule: less_induct)
  case less
  show ?case
  proof (cases "ss_client s = K_end")
    case False
    then obtain t where t: "stream_step rnd old all_ok s t" using stream_moves less.prems by blast
    then obtain s' where "(stream_step rnd old all_ok)\<^sup>*\<^sup>* t s'" "ss_client s' = K_end"
      using less.hyps [OF steps_left_less [OF t less.prems] stream_inv [OF t less.prems] less.prems(2,3)] by blast
    then show ?thesis using converse_rtranclp_into_rtranclp [of "stream_step rnd old all_ok", OF t] by blast
  qed blast
qed

text \<open>What the client has at its end.\<close>

lemma session_result:
  assumes "sinv rnd fs s" "ss_client s = K_end"
  shows "loaded (ss_mem s) = map (server_val rnd 0) [0..<client_max] \<and> ss_fs s = fs \<and> ss_server s = V_accept"
proof -
  have sv: "ss_served s = 1" "ss_server s = V_accept" "ss_fs s = fs"
    using assms by (auto simp: sinv_def link_ok_def before_end_def after_end_def files_ok_def split: if_splits)
  have ti: "transfer_inv rnd client_max 4096 (ss_mem s)" and ap: "all_put s" "all_taken s"
    using assms sv(1) by (simp_all add: sinv_def mem_ok_def)
  have "\<nexists>m'. shm_transfer rnd client_max (ss_mem s) m'"
  proof
    assume "\<exists>m'. shm_transfer rnd client_max (ss_mem s) m'"
    then show False unfolding shm_transfer_def
      using all_put_blocked [OF ap(1), of rnd] all_taken_blocked [OF ap(2)]
      unfolding server_more_max client_more_max by (auto elim: bstep.cases)
  qed
  then show ?thesis using transfer_done [OF ti] sv by blast
qed

definition sstart :: "shm_fs \<Rightarrow> ssys \<Rightarrow> bool" where
  "sstart fs s \<longleftrightarrow> s = stream_init fs"

interpretation session: inductive_invariant "sstart fs" "\<lambda>s s'. stream_step rnd old all_ok s s' \<and> SHM_FNAME \<notin> dom fs \<and> terminated old"
    "sinv rnd fs"
  for fs rnd old
  by unfold_locales (auto simp: sstart_def stream_init_inv intro: stream_inv)

lemma reach_session:
  assumes "reach (sstart fs) (stream_step rnd old all_ok) s" "SHM_FNAME \<notin> dom fs" "terminated old"
  shows "sinv rnd fs s"
proof -
  have "(\<lambda>s s'. stream_step rnd old all_ok s s' \<and> SHM_FNAME \<notin> dom fs \<and> terminated old) = stream_step rnd old all_ok"
    using assms(2,3) by (simp add: fun_eq_iff)
  then show ?thesis using session.reach_inv [of fs rnd old s] assms(1) by simp
qed

section \<open>A name that is not terminated\<close>

text \<open>A run in which it is said whose step each one is, the client's or the server's.\<close>

fun session_run :: "(nat \<Rightarrow> u32) \<Rightarrow> bytes \<Rightarrow> bool list \<Rightarrow> ssys \<Rightarrow> ssys option" where
  "session_run rnd old [] s = Some s"
| "session_run rnd old (c # cs) s =
     (case (if c then client_step all_ok s else server_step rnd old all_ok s) of
        None \<Rightarrow> None | Some s' \<Rightarrow> session_run rnd old cs s')"

lemma session_run_steps: "session_run rnd old cs s = Some s' \<Longrightarrow> (stream_step rnd old all_ok)\<^sup>*\<^sup>* s s'"
proof (induction cs arbitrary: s)
  case (Cons c cs)
  then obtain t where "(if c then client_step all_ok s else server_step rnd old all_ok s) = Some t"
      "session_run rnd old cs t = Some s'"
    by (auto split: option.splits)
  then have "stream_step rnd old all_ok s t" by (auto simp: stream_step_def split: if_splits)
  moreover have "(stream_step rnd old all_ok)\<^sup>*\<^sup>* t s'"
    using Cons.IH \<open>session_run rnd old cs t = Some s'\<close> .
  ultimately show ?case by (rule converse_rtranclp_into_rtranclp)
qed simp

lemma name_longer:
  assumes "length SHM_FNAME < length old" "old ! length SHM_FNAME \<noteq> 0"
  shows "received_name (to_bytes SHM_FNAME) old \<noteq> SHM_FNAME"
proof -
  have d: "drop (length SHM_FNAME) old = old ! length SHM_FNAME # drop (Suc (length SHM_FNAME)) old"
    using assms(1) by (metis Cons_nth_drop_Suc)
  have "\<forall>b\<in>set (to_bytes SHM_FNAME). b \<noteq> 0" "length (to_bytes SHM_FNAME) = length SHM_FNAME"
    by code_simp+
  then have "length SHM_FNAME < length (received_name (to_bytes SHM_FNAME) old)"
    using assms(2) d by (simp add: received_name_def takeWhile_append2)
  then show ?thesis by auto
qed

text \<open>The states of a session before anything is put.\<close>

definition early :: "shm_fs \<Rightarrow> kphase \<Rightarrow> vphase \<Rightarrow> bool \<Rightarrow> bytes \<Rightarrow> u32 \<Rightarrow> string \<Rightarrow> ssys" where
  "early fs k v pend c2s mx name =
     \<lparr>ss_fs = fs, ss_mem = bsys_init 4096, ss_client = k, ss_server = v, ss_pending = pend, ss_c2s = c2s,
      ss_s2c = [], ss_max = mx, ss_name = name, ss_served = 0, ss_torn = False\<rparr>"

lemma early_client:
  "client_step all_ok (early Map.empty K_init v pend c2s mx nm) =
     Some (early [SHM_FNAME \<mapsto> the_obj] K_connect v pend c2s mx nm)"
  "client_step all_ok (early [SHM_FNAME \<mapsto> the_obj] K_connect v pend c2s mx nm) =
     Some (early [SHM_FNAME \<mapsto> the_obj] K_dial v pend c2s mx nm)"
  "client_step all_ok (early fs K_dial v pend c2s mx nm) = Some (early fs K_send_max v True c2s mx nm)"
  "client_step all_ok (early fs K_send_max v pend c2s mx nm) =
     Some (early fs K_send_name v pend (c2s @ int_bytes the_max) mx nm)"
  "client_step all_ok (early fs K_send_name v pend c2s mx nm) =
     Some (early fs K_takes v pend (c2s @ to_bytes SHM_FNAME) mx nm)"
  by (simp_all add: client_step_def early_def init_ok connect_ok the_obj_def the_max_def)

lemma early_server:
  "server_step rnd old all_ok (early fs k V_accept True c2s mx nm) = Some (early fs k V_recv_max False c2s mx nm)"
  "server_step rnd old all_ok (early fs k V_recv_max pend (int_bytes the_max @ bs) mx nm) =
     Some (early fs k V_recv_name pend bs the_max nm)"
  "server_step rnd old all_ok (early fs k V_recv_name pend (to_bytes SHM_FNAME) mx nm) =
     Some (early fs k V_connect pend [] mx (received_name (to_bytes SHM_FNAME) old))"
  "fs nm = None \<Longrightarrow> server_step rnd old all_ok (early fs k V_connect pend c2s mx nm) =
     Some (early fs k (V_exit ''connect 0'') pend c2s mx nm)"
proof -
  have n: "to_bytes SHM_FNAME \<noteq> []" "length (to_bytes SHM_FNAME) \<le> 4096" by code_simp+
  have m: "int_bytes the_max @ bs \<noteq> []" by (simp add: int_bytes_def)
  have "bytes_int (int_bytes the_max @ bs) = the_max" unfolding the_max_def by (rule client_max_bytes)
  then show "server_step rnd old all_ok (early fs k V_recv_max pend (int_bytes the_max @ bs) mx nm) =
      Some (early fs k V_recv_name pend bs the_max nm)"
    using m by (simp add: server_step_def early_def)
  show "server_step rnd old all_ok (early fs k V_recv_name pend (to_bytes SHM_FNAME) mx nm) =
      Some (early fs k V_connect pend [] mx (received_name (to_bytes SHM_FNAME) old))"
    using n by (simp add: server_step_def early_def)
qed (simp_all add: server_step_def early_def shm_blocking_queue_connect_def)

lemma stream_init_early: "stream_init fs = early fs K_init V_accept False [] 0 []"
  by (simp add: stream_init_def early_def)

lemma early_run:
  assumes "received_name (to_bytes SHM_FNAME) old \<noteq> SHM_FNAME"
  shows "session_run rnd old [True, True, True, True, True, False, False, False, False] (stream_init Map.empty) =
    Some (early [SHM_FNAME \<mapsto> the_obj] K_takes (V_exit ''connect 0'') False [] the_max
      (received_name (to_bytes SHM_FNAME) old))"
  using assms by (simp add: stream_init_early early_client early_server)

section \<open>Properties\<close>

text \<open>
  C11: A session of the two programs is right from end to end. When the calls succeed, the name of the
  object is free and the byte behind the name in the server's array is zero, every state that
  client and server reach together has no access outside the queue and no queue destroyed while
  the server has it mapped; the client can always be brought to its end; and at its end it has
  taken the numbers of the server in order, with the same checksum, the object is gone, and the
  server waits for the next client.
\<close>

theorem shm_session:
  assumes "reach (sstart fs) (stream_step rnd old all_ok) s" and "SHM_FNAME \<notin> dom fs" and "terminated old"
  shows "\<not> fault (ss_mem s) \<and> \<not> ss_torn s \<and>
    (\<exists>s'. (stream_step rnd old all_ok)\<^sup>*\<^sup>* s s' \<and> ss_client s' = K_end) \<and>
    (ss_client s = K_end \<longrightarrow>
       loaded (ss_mem s) = map (server_val rnd 0) [0..<client_max] \<and>
       client_checksum (loaded (ss_mem s)) = server_checksum rnd client_max \<and>
       ss_fs s = fs \<and> ss_server s = V_accept)"
proof -
  have inv: "sinv rnd fs s" by (rule reach_session [OF assms])
  then have "\<not> fault (ss_mem s)" "\<not> ss_torn s"
    by (simp_all add: sinv_def mem_ok_def transfer_inv_def binv_def link_ok_def)
  moreover have "client_checksum (map (server_val rnd 0) [0..<client_max]) = server_checksum rnd client_max"
    using foldl_xor_cut [of 0 rnd "[0..<client_max]"] by (simp add: client_checksum_def server_checksum_def)
  ultimately show ?thesis
    using session_ends [OF inv assms(2,3)] session_result [OF inv] by auto
qed

lemma shm_session_witness:
  "\<exists>s'. (stream_step (\<lambda>i. word_of_nat i) (replicate 4096 0) all_ok)\<^sup>*\<^sup>* (stream_init Map.empty) s' \<and> ss_client s' = K_end"
proof -
  have "terminated (replicate 4096 0)" by (simp add: terminated_def SHM_FNAME_def)
  moreover have "reach (sstart Map.empty) (stream_step (\<lambda>i. word_of_nat i) (replicate 4096 0) all_ok) (stream_init Map.empty)"
    by (rule reach_init) (simp add: sstart_def)
  ultimately show ?thesis using shm_session by blast
qed

text \<open>
  C31: The client sends the name of the object without its terminator. If the byte behind it in the
  server's array, which nobody has initialised, is not zero, the server looks for an object of
  another name and exits, and the client waits at the empty queue for ever.
\<close>

theorem shm_name_unterminated:
  assumes "length SHM_FNAME < length old" and "old ! length SHM_FNAME \<noteq> 0"
  shows "\<exists>s. (stream_step rnd old all_ok)\<^sup>*\<^sup>* (stream_init Map.empty) s \<and> ss_server s = V_exit ''connect 0'' \<and>
    ss_client s = K_takes \<and> (\<nexists>s'. stream_step rnd old all_ok s s')"
proof -
  note run = early_run [OF name_longer [OF assms], of rnd]
  let ?s = "early [SHM_FNAME \<mapsto> the_obj] K_takes (V_exit ''connect 0'') False [] the_max
      (received_name (to_bytes SHM_FNAME) old)"
  have "\<nexists>s'. stream_step rnd old all_ok ?s s'"
    by (simp add: stream_step_def client_step_def server_step_def bsys_init_def cons_step_def early_def
        blocking_queue_init_def client_more_def client_max_def SIZE_def)
  then show ?thesis using session_run_steps [OF run] by (intro exI [of _ ?s]) (simp add: early_def)
qed

lemma shm_name_unterminated_witness:
  "\<exists>s. (stream_step (\<lambda>i. word_of_nat i) (replicate 4096 46) all_ok)\<^sup>*\<^sup>* (stream_init Map.empty) s \<and>
     ss_server s = V_exit ''connect 0''"
proof -
  have "length SHM_FNAME < length (replicate 4096 (46 :: u8))" "replicate 4096 (46 :: u8) ! length SHM_FNAME \<noteq> 0"
    by (simp_all add: SHM_FNAME_def)
  from shm_name_unterminated [OF this, of "\<lambda>i. word_of_nat i"] show ?thesis by blast
qed

end
