(* ===== verification/FizzBuzz.thy ===== *)
theory FizzBuzz
  imports Prelude
begin

unbundle bit_operations_syntax

text \<open>
  The threaded fizz-buzz of
  \<open>05-operating-systems/03-threads-concurrency-and-scheduling/03-multi-threaded-fizzbuzz/fizzbuzz.c\<close>:
  \<open>main\<close> draws a number, \<open>fizz\<close> and \<open>buzz\<close> comment on it, in a ring of condition variables under
  one mutex. A step is one statement of one thread; a thread that waits on a condition is woken
  by a signal, or at any time without one. The results of the pthread calls are not looked at by
  the code and are taken to be success; \<open>rand\<close> is a parameter.
\<close>

section \<open>State\<close>

datatype who = Main | Fizz | Buzz

text \<open>
  Where a thread is: before the lock, at the loop condition, in \<open>pthread_cond_wait\<close>, woken and
  about to lock again, before clearing its flag, printing, setting the next flag, signalling,
  unlocking, and (\<open>main\<close> only) in \<open>usleep\<close>.
\<close>

datatype fpc = F_lock | F_test | F_wait | F_wake | F_clear | F_print | F_set | F_signal | F_unlock | F_sleep

datatype event = Num int | Fizzed | Buzzed

text \<open>
  \<open>fb_flag t\<close> is the flag thread \<open>t\<close> waits for: \<open>new_numb\<close> for \<open>fizz\<close>, \<open>fizz_done\<close> for
  \<open>buzz\<close>, \<open>buzz_done\<close> for \<open>main\<close>. \<open>fb_k\<close> counts the calls of \<open>rand\<close>.
\<close>

record fb =
  fb_mutex :: "who option"
  fb_flag :: "who \<Rightarrow> bool"
  fb_n :: int
  fb_pc :: "who \<Rightarrow> fpc"
  fb_out :: "event list"
  fb_k :: nat

fun next_who :: "who \<Rightarrow> who" where
  "next_who Main = Fizz"
| "next_who Fizz = Buzz"
| "next_who Buzz = Main"

definition fb_init :: "fb \<Rightarrow> bool" where
  "fb_init s \<longleftrightarrow> s = \<lparr>fb_mutex = None, fb_flag = (\<lambda>_. False), fb_n = -1, fb_pc = (\<lambda>_. F_lock),
     fb_out = [], fb_k = 0\<rparr>"

section \<open>Steps\<close>

text \<open>The number drawn: \<open>rand() & 0xf\<close>.\<close>

definition draw :: "(nat \<Rightarrow> int) \<Rightarrow> nat \<Rightarrow> int" where
  "draw rnd k = rnd k AND 15"

definition may_go :: "who \<Rightarrow> fb \<Rightarrow> bool" where
  "may_go t s \<longleftrightarrow> (if t = Main then \<not> (fb_n s \<noteq> -1 \<and> \<not> fb_flag s Main) else fb_flag s t)"

definition fb_print :: "(nat \<Rightarrow> int) \<Rightarrow> who \<Rightarrow> fb \<Rightarrow> fb" where
  "fb_print rnd t s = (case t of
     Main \<Rightarrow> s\<lparr>fb_n := draw rnd (fb_k s), fb_k := Suc (fb_k s), fb_out := fb_out s @ [Num (draw rnd (fb_k s))]\<rparr>
   | Fizz \<Rightarrow> s\<lparr>fb_out := fb_out s @ (if fb_n s mod 3 = 0 then [Fizzed] else [])\<rparr>
   | Buzz \<Rightarrow> s\<lparr>fb_out := fb_out s @ (if fb_n s mod 5 = 0 then [Buzzed] else [])\<rparr>)"

definition goto :: "who \<Rightarrow> fpc \<Rightarrow> fb \<Rightarrow> fb" where
  "goto t c s = s\<lparr>fb_pc := (fb_pc s)(t := c)\<rparr>"

text \<open>One step of thread \<open>t\<close>, \<open>None\<close> where it is blocked.\<close>

definition fb_step :: "(nat \<Rightarrow> int) \<Rightarrow> who \<Rightarrow> fb \<Rightarrow> fb option" where
  "fb_step rnd t s = (case fb_pc s t of
     F_lock \<Rightarrow> if fb_mutex s = None then Some (goto t F_test (s\<lparr>fb_mutex := Some t\<rparr>)) else None
   | F_test \<Rightarrow> Some (if may_go t s then goto t F_clear s else goto t F_wait (s\<lparr>fb_mutex := None\<rparr>))
   | F_wait \<Rightarrow> None
   | F_wake \<Rightarrow> if fb_mutex s = None then Some (goto t F_test (s\<lparr>fb_mutex := Some t\<rparr>)) else None
   | F_clear \<Rightarrow> Some (goto t F_print (s\<lparr>fb_flag := (fb_flag s)(t := False)\<rparr>))
   | F_print \<Rightarrow> Some (goto t F_set (fb_print rnd t s))
   | F_set \<Rightarrow> Some (goto t F_signal (s\<lparr>fb_flag := (fb_flag s)(next_who t := True)\<rparr>))
   | F_signal \<Rightarrow>
       Some (goto t F_unlock (if fb_pc s (next_who t) = F_wait then goto (next_who t) F_wake s else s))
   | F_unlock \<Rightarrow> Some (goto t (if t = Main then F_sleep else F_lock) (s\<lparr>fb_mutex := None\<rparr>))
   | F_sleep \<Rightarrow> Some (goto t F_lock s))"

inductive fb_run :: "(nat \<Rightarrow> int) \<Rightarrow> fb \<Rightarrow> fb \<Rightarrow> bool" for rnd where
  fb_thread: "fb_step rnd t s = Some s' \<Longrightarrow> fb_run rnd s s'"
| fb_spurious: "fb_pc s t = F_wait \<Longrightarrow> fb_run rnd s (goto t F_wake s)"

section \<open>The invariant\<close>

definition in_cs :: "fpc \<Rightarrow> bool" where
  "in_cs c \<longleftrightarrow> c \<in> {F_test, F_clear, F_print, F_set, F_signal, F_unlock}"

definition cs_ok :: "fb \<Rightarrow> bool" where
  "cs_ok s \<longleftrightarrow> (\<forall>t. in_cs (fb_pc s t) \<longleftrightarrow> fb_mutex s = Some t)"

text \<open>Whose turn it is: by its flag, by the first number still to be drawn, or by being at it.\<close>

definition turn :: "fb \<Rightarrow> who \<Rightarrow> bool" where
  "turn s t \<longleftrightarrow> fb_flag s t \<or> (t = Main \<and> fb_n s = -1) \<or> fb_pc s t \<in> {F_print, F_set}"

definition turn_ok :: "fb \<Rightarrow> bool" where
  "turn_ok s \<longleftrightarrow> (\<exists>t. \<forall>t'. turn s t' \<longleftrightarrow> t' = t) \<and> (\<forall>t. fb_pc s t = F_clear \<longrightarrow> turn s t) \<and>
     (\<forall>t. fb_pc s t \<in> {F_print, F_set} \<longrightarrow> \<not> fb_flag s t) \<and>
     (fb_n s = -1 \<longleftrightarrow> fb_k s = 0) \<and> (fb_pc s Main = F_set \<longrightarrow> fb_k s \<noteq> 0) \<and> (fb_n s = -1 \<longrightarrow> \<not> fb_flag s Main)"

text \<open>No wake-up is lost: a thread that waits on its turn is about to be signalled.\<close>

definition wake_ok :: "fb \<Rightarrow> bool" where
  "wake_ok s \<longleftrightarrow> (\<forall>t. fb_pc s (next_who t) = F_wait \<and> turn s (next_who t) \<longrightarrow> fb_pc s t = F_signal)"

definition num_events :: "(nat \<Rightarrow> int) \<Rightarrow> nat \<Rightarrow> event list" where
  "num_events rnd i = [Num (draw rnd i)] @ (if draw rnd i mod 3 = 0 then [Fizzed] else []) @
     (if draw rnd i mod 5 = 0 then [Buzzed] else [])"

definition rounds :: "(nat \<Rightarrow> int) \<Rightarrow> nat \<Rightarrow> event list" where
  "rounds rnd k = concat (map (num_events rnd) [0..<k])"

text \<open>What has been printed, by whose turn it is and whether it has printed already.\<close>

definition out_ok :: "(nat \<Rightarrow> int) \<Rightarrow> fb \<Rightarrow> bool" where
  "out_ok rnd s \<longleftrightarrow> (0 < fb_k s \<longrightarrow> fb_n s = draw rnd (fb_k s - 1)) \<and>
     (let d = draw rnd (fb_k s - 1); begun = rounds rnd (fb_k s - 1) @ [Num d];
          fizzed = begun @ (if d mod 3 = 0 then [Fizzed] else []);
          buzzed = fizzed @ (if d mod 5 = 0 then [Buzzed] else [])
      in (turn s Main \<longrightarrow> fb_out s = (if fb_pc s Main = F_set then begun else rounds rnd (fb_k s))) \<and>
         (turn s Fizz \<longrightarrow> fb_out s = (if fb_pc s Fizz = F_set then fizzed else begun)) \<and>
         (turn s Buzz \<longrightarrow> fb_out s = (if fb_pc s Buzz = F_set then buzzed else fizzed)))"

lemma rounds_Suc: "rounds rnd (Suc k) = rounds rnd k @ num_events rnd k"
  by (simp add: rounds_def)

lemma draw_range: "0 \<le> draw rnd k \<and> draw rnd k < 16"
proof -
  have "draw rnd k = rnd k mod 16"
    using take_bit_eq_mask [of 4 "rnd k"] by (simp add: draw_def take_bit_eq_mod mask_eq_exp_minus_1)
  then show ?thesis by simp
qed

lemma ex_who: "(\<exists>t. P t) \<longleftrightarrow> P Main \<or> P Fizz \<or> P Buzz"
  by (metis who.exhaust)

lemma all_who: "(\<forall>t. P t) \<longleftrightarrow> P Main \<and> P Fizz \<and> P Buzz"
  by (metis who.exhaust)

lemma fb_print_simps [simp]:
  "fb_mutex (fb_print rnd t s) = fb_mutex s" "fb_flag (fb_print rnd t s) = fb_flag s"
  "fb_pc (fb_print rnd t s) = fb_pc s"
  by (simp_all add: fb_print_def split: who.split)

lemma goto_simps [simp]:
  "fb_mutex (goto t c s) = fb_mutex s" "fb_flag (goto t c s) = fb_flag s" "fb_n (goto t c s) = fb_n s"
  "fb_pc (goto t c s) = (fb_pc s)(t := c)" "fb_out (goto t c s) = fb_out s" "fb_k (goto t c s) = fb_k s"
  by (simp_all add: goto_def)

lemma next_who_neq [simp]: "next_who t \<noteq> t" "t \<noteq> next_who t"
  by (cases t; simp)+

lemma fb_step_cases [consumes 1, case_names lock go wait clear print set signal wakeup unlock sleep]:
  assumes "fb_step rnd t s = Some s'"
  obtains "fb_pc s t \<in> {F_lock, F_wake}" "fb_mutex s = None" "s' = goto t F_test (s\<lparr>fb_mutex := Some t\<rparr>)"
  | "fb_pc s t = F_test" "may_go t s" "s' = goto t F_clear s"
  | "fb_pc s t = F_test" "\<not> may_go t s" "s' = goto t F_wait (s\<lparr>fb_mutex := None\<rparr>)"
  | "fb_pc s t = F_clear" "s' = goto t F_print (s\<lparr>fb_flag := (fb_flag s)(t := False)\<rparr>)"
  | "fb_pc s t = F_print" "s' = goto t F_set (fb_print rnd t s)"
  | "fb_pc s t = F_set" "s' = goto t F_signal (s\<lparr>fb_flag := (fb_flag s)(next_who t := True)\<rparr>)"
  | "fb_pc s t = F_signal" "fb_pc s (next_who t) \<noteq> F_wait" "s' = goto t F_unlock s"
  | "fb_pc s t = F_signal" "fb_pc s (next_who t) = F_wait" "s' = goto t F_unlock (goto (next_who t) F_wake s)"
  | "fb_pc s t = F_unlock" "s' = goto t (if t = Main then F_sleep else F_lock) (s\<lparr>fb_mutex := None\<rparr>)"
  | "fb_pc s t = F_sleep" "s' = goto t F_lock s"
proof (cases "fb_pc s t")
  case F_lock
  then show ?thesis using assms by (intro that(1)) (simp_all add: fb_step_def split: if_splits)
next
  case F_wake
  then show ?thesis using assms by (intro that(1)) (simp_all add: fb_step_def split: if_splits)
next
  case F_clear
  then show ?thesis using assms by (intro that(4)) (simp_all add: fb_step_def split: if_splits)
next
  case F_print
  then show ?thesis using assms by (intro that(5)) (simp_all add: fb_step_def split: if_splits)
next
  case F_set
  then show ?thesis using assms by (intro that(6)) (simp_all add: fb_step_def split: if_splits)
next
  case F_unlock
  then show ?thesis using assms by (intro that(9)) (simp_all add: fb_step_def split: if_splits)
next
  case F_sleep
  then show ?thesis using assms by (intro that(10)) (simp_all add: fb_step_def split: if_splits)
next
  case F_test
  then show ?thesis using assms that(2,3) by (cases "may_go t s") (simp_all add: fb_step_def)
next
  case F_signal
  then show ?thesis using assms that(7,8)
    by (cases "fb_pc s (next_who t) = F_wait") (simp_all add: fb_step_def)
next
  case F_wait
  then show ?thesis using assms by (simp add: fb_step_def)
qed

lemma in_cs_simps [simp]:
  "\<not> in_cs F_lock" "in_cs F_test" "\<not> in_cs F_wait" "\<not> in_cs F_wake" "in_cs F_clear" "in_cs F_print"
  "in_cs F_set" "in_cs F_signal" "in_cs F_unlock" "\<not> in_cs F_sleep"
  by (simp_all add: in_cs_def)

lemma cs_iff: "cs_ok s \<Longrightarrow> in_cs (fb_pc s t) \<longleftrightarrow> fb_mutex s = Some t"
  by (simp add: cs_ok_def)

lemma cs_alone: "cs_ok s \<Longrightarrow> in_cs (fb_pc s t) \<Longrightarrow> u \<noteq> t \<Longrightarrow> \<not> in_cs (fb_pc s u)"
  by (simp add: cs_iff)

lemma cs_step:
  assumes "cs_ok s" "fb_step rnd t s = Some s'"
  shows "cs_ok s'"
proof -
  note o = cs_iff [OF assms(1)]
  show ?thesis
    using assms(2) o [of t] unfolding cs_ok_def
    by (cases rule: fb_step_cases) (auto simp: o)
qed

text \<open>The turn passes on when the next flag is set, and only then.\<close>

lemma turn_same:
  "fb_flag s' = fb_flag s \<Longrightarrow> fb_n s' = fb_n s \<Longrightarrow>
   (\<And>u. fb_pc s' u \<in> {F_print, F_set} \<longleftrightarrow> fb_pc s u \<in> {F_print, F_set}) \<Longrightarrow> turn s' = turn s"
  by (auto simp: turn_def fun_eq_iff)

definition turn_of :: "fb \<Rightarrow> who \<Rightarrow> bool" where
  "turn_of s t \<longleftrightarrow> turn s t \<and> (\<forall>u. turn s u \<longrightarrow> u = t)"

lemma turn_of_ex: "(\<exists>t. \<forall>t'. turn s t' \<longleftrightarrow> t' = t) \<longleftrightarrow> (\<exists>t. turn_of s t)"
  by (auto simp: turn_of_def)

lemma turn_okD:
  assumes "turn_ok s"
  shows "fb_pc s v = F_clear \<Longrightarrow> turn s v" "fb_pc s v \<in> {F_print, F_set} \<Longrightarrow> \<not> fb_flag s v"
    "fb_n s = -1 \<longleftrightarrow> fb_k s = 0" "fb_pc s Main = F_set \<Longrightarrow> fb_k s \<noteq> 0" "fb_n s = -1 \<Longrightarrow> \<not> fb_flag s Main"
    "\<exists>u. turn_of s u"
  using assms unfolding turn_ok_def turn_of_ex by blast+

lemma turn_effect:
  assumes ok: "turn_ok s" "cs_ok s" and st: "fb_step rnd t s = Some s'" and of: "turn_of s u"
  shows "turn_of s' (if fb_pc s t = F_set then next_who t else u)"
  using st
proof (cases rule: fb_step_cases)
  case clear
  have "turn s t" using clear(1) turn_okD(1) [OF ok(1)] by blast
  then have "u = t" using of by (simp add: turn_of_def)
  then show ?thesis using clear of by (auto simp: turn_of_def turn_def split: if_splits)
next
  case print
  have "turn s t" using print(1) by (simp add: turn_def)
  then have u: "u = t" using of by (simp add: turn_of_def)
  have pc: "fb_pc s' = (fb_pc s)(t := F_set)" "fb_flag s' = fb_flag s" using print(2) by simp_all
  have n: "v \<noteq> t \<Longrightarrow> v = Main \<Longrightarrow> fb_n s' = fb_n s" for v
    using print(2) by (simp add: fb_print_def split: who.split)
  have "turn s' v \<longleftrightarrow> v = t" for v
  proof (cases "v = t")
    case False
    then have "\<not> turn s v" using of u by (auto simp: turn_of_def)
    then show ?thesis using False n [of v] by (auto simp: turn_def pc)
  qed (simp add: turn_def pc)
  then show ?thesis using print(1) u by (simp add: turn_of_def)
next
  case set
  have "turn s t" using set(1) by (simp add: turn_def)
  then have u: "u = t" using of by (simp add: turn_of_def)
  have no: "\<not> fb_flag s t" "t = Main \<Longrightarrow> fb_n s \<noteq> -1"
    using turn_okD [OF ok(1)] set(1) by auto
  have pc: "fb_pc s' = (fb_pc s)(t := F_signal)" "fb_flag s' = (fb_flag s)(next_who t := True)" "fb_n s' = fb_n s"
    using set(2) by simp_all
  have "turn s' v \<longleftrightarrow> v = next_who t" for v
  proof (cases "v = t")
    case True
    then show ?thesis using no by (simp add: turn_def pc)
  next
    case False
    then have "\<not> turn s v" using of u by (auto simp: turn_of_def)
    then show ?thesis using False by (auto simp: turn_def pc)
  qed
  then show ?thesis using set by (simp add: turn_of_def)
next
  case lock
  then have "turn s' = turn s" by (intro turn_same) (auto split: if_splits)
  then show ?thesis using lock of by (auto simp: turn_of_def)
next
  case go
  then have "turn s' = turn s" by (intro turn_same) (auto split: if_splits)
  then show ?thesis using go of by (auto simp: turn_of_def)
next
  case wait
  then have "turn s' = turn s" by (intro turn_same) (auto split: if_splits)
  then show ?thesis using wait of by (auto simp: turn_of_def)
next
  case signal
  then have "turn s' = turn s" by (intro turn_same) (auto split: if_splits)
  then show ?thesis using signal of by (auto simp: turn_of_def)
next
  case wakeup
  then have "turn s' = turn s" by (intro turn_same) (auto split: if_splits)
  then show ?thesis using wakeup of by (auto simp: turn_of_def)
next
  case unlock
  then have "turn s' = turn s" by (intro turn_same) (auto split: if_splits)
  then show ?thesis using unlock of by (auto simp: turn_of_def)
next
  case sleep
  then have "turn s' = turn s" by (intro turn_same) (auto split: if_splits)
  then show ?thesis using sleep of by (auto simp: turn_of_def)
qed

lemma turn_step:
  assumes ok: "turn_ok s" "cs_ok s" and st: "fb_step rnd t s = Some s'"
  shows "turn_ok s'"
proof -
  note d = turn_okD [OF ok(1)]
  obtain u where u: "turn_of s u" using d(6) by blast
  note eff = turn_effect [OF ok st u] and cl = d(1) and fl = d(2) and nk = d(3-5)
  note alone = cs_alone [OF ok(2), of t]
  have "turn s' v" if "fb_pc s' v = F_clear" for v
    using st
  proof (cases rule: fb_step_cases)
    case go
    then show ?thesis using that cl [of v] by (cases "v = t") (auto simp: turn_def may_go_def split: if_splits)
  next
    case clear
    then show ?thesis using that alone [of v] by (cases "v = t") auto
  next
    case print
    then show ?thesis using that alone [of v] by (cases "v = t") auto
  next
    case set
    then show ?thesis using that alone [of v] by (cases "v = t") auto
  qed (use that cl [of v] in \<open>cases "v = t"; auto simp: turn_def split: if_splits\<close>)+
  moreover have "\<not> fb_flag s' v" if "fb_pc s' v \<in> {F_print, F_set}" for v
    using st
  proof (cases rule: fb_step_cases)
    case set
    then show ?thesis using that alone [of v] by (cases "v = t") auto
  qed (use that fl [of v] in \<open>cases "v = t"; auto split: if_splits\<close>)+
  moreover have "fb_n s' = -1 \<longleftrightarrow> fb_k s' = 0" 
    using st
  proof (cases rule: fb_step_cases)
    case print
    then show ?thesis using nk(1) draw_range [of rnd "fb_k s"] by (auto simp: fb_print_def split: who.splits)
  qed (use nk(1) in simp_all)
  moreover have "fb_k s' \<noteq> 0" if "fb_pc s' Main = F_set"
    using st
  proof (cases rule: fb_step_cases)
    case print
    then show ?thesis using nk(2) that by (auto simp: fb_print_def split: who.splits)
  qed (use nk(2) that in \<open>auto split: if_splits\<close>)
  moreover have "\<not> fb_flag s' Main" if "fb_n s' = -1"
    using st
  proof (cases rule: fb_step_cases)
    case print
    then show ?thesis using nk(3) that draw_range [of rnd "fb_k s"]
      by (auto simp: fb_print_def split: who.splits)
  next
    case set
    have "next_who t \<noteq> Main"
    proof
      assume "next_who t = Main"
      then have t: "t = Buzz" by (cases t) auto
      have "turn s Buzz" "turn s Main" using set that t by (auto simp: turn_def)
      then show False using u by (auto simp: turn_of_def)
    qed
    then show ?thesis using set nk(3) that by simp
  qed (use nk(3) that in auto)
  ultimately show ?thesis using eff turn_of_ex unfolding turn_ok_def by blast
qed


lemma wake_of:
  "turn_of s u \<Longrightarrow> wake_ok s \<longleftrightarrow> (fb_pc s u = F_wait \<longrightarrow> (\<forall>t. next_who t = u \<longrightarrow> fb_pc s t = F_signal))"
  unfolding wake_ok_def turn_of_def by blast

lemma wake_step:
  assumes ok: "turn_ok s" "cs_ok s" "wake_ok s" and st: "fb_step rnd t s = Some s'"
  shows "wake_ok s'"
proof -
  obtain u where u: "turn_of s u" using turn_okD(6) [OF ok(1)] by blast
  note eff = turn_effect [OF ok(1,2) st u]
  have w: "fb_pc s u = F_wait \<Longrightarrow> next_who v = u \<Longrightarrow> fb_pc s v = F_signal" for v
    using ok(3) wake_of [OF u] by blast
  have inj: "next_who v = next_who x \<Longrightarrow> v = x" for v x by (cases v; cases x) auto
  show ?thesis
    using st
  proof (cases rule: fb_step_cases)
    case set
    then have t': "turn_of s' (next_who t)" using eff by simp
    have "fb_pc s' v = F_signal" if "next_who v = next_who t" for v
      using inj [OF that] set(2) by simp
    then show ?thesis unfolding wake_of [OF t'] by blast
  next
    case wait
    then have "\<not> turn s t" by (auto simp: turn_def may_go_def split: if_splits)
    then have "t \<noteq> u" using u by (auto simp: turn_of_def)
    then show ?thesis using wait eff w by (subst wake_of [where u = u]) auto
  next
    case signal
    then show ?thesis using eff w by (subst wake_of [where u = u]) auto
  next
    case wakeup
    then show ?thesis using eff w by (subst wake_of [where u = u]) auto
  qed (use eff w in \<open>subst wake_of [where u = u]; auto split: if_splits\<close>)+
qed

text \<open>The output as a function of whose turn it is.\<close>

definition out_by :: "(nat \<Rightarrow> int) \<Rightarrow> nat \<Rightarrow> who \<Rightarrow> bool \<Rightarrow> event list" where
  "out_by rnd k u printed =
     (let d = draw rnd (k - 1); begun = rounds rnd (k - 1) @ [Num d];
          fizzed = begun @ (if d mod 3 = 0 then [Fizzed] else [])
      in case u of
           Main \<Rightarrow> if printed then begun else rounds rnd k
         | Fizz \<Rightarrow> if printed then fizzed else begun
         | Buzz \<Rightarrow> if printed then fizzed @ (if d mod 5 = 0 then [Buzzed] else []) else fizzed)"

lemma out_of:
  "turn_of s u \<Longrightarrow> out_ok rnd s \<longleftrightarrow> (0 < fb_k s \<longrightarrow> fb_n s = draw rnd (fb_k s - 1)) \<and>
     fb_out s = out_by rnd (fb_k s) u (fb_pc s u = F_set)"
proof -
  assume "turn_of s u"
  then have t: "turn s v \<longleftrightarrow> v = u" for v by (auto simp: turn_of_def)
  show ?thesis by (cases u) (simp_all add: out_ok_def out_by_def t Let_def)
qed

lemma out_by_next:
  "0 < k \<Longrightarrow> out_by rnd k (next_who t) False = out_by rnd k t True"
  by (cases t; cases k) (auto simp: out_by_def Let_def rounds_Suc num_events_def)

lemma out_by_print:
  "fb_out s = out_by rnd (fb_k s) t False \<Longrightarrow> t = Main \<or> fb_n s = draw rnd (fb_k s - 1) \<Longrightarrow>
   fb_out (fb_print rnd t s) = out_by rnd (fb_k (fb_print rnd t s)) t True \<and>
   (t \<noteq> Main \<longrightarrow> fb_n (fb_print rnd t s) = fb_n s \<and> fb_k (fb_print rnd t s) = fb_k s) \<and>
   (t = Main \<longrightarrow> fb_n (fb_print rnd t s) = draw rnd (fb_k s) \<and> fb_k (fb_print rnd t s) = Suc (fb_k s))"
  by (cases t) (simp_all add: fb_print_def out_by_def Let_def)

lemma out_step:
  assumes ok: "turn_ok s" "cs_ok s" "out_ok rnd s" and st: "fb_step rnd t s = Some s'"
  shows "out_ok rnd s'"
proof -
  note d = turn_okD [OF ok(1)]
  obtain u where u: "turn_of s u" using d(6) by blast
  note eff = turn_effect [OF ok(1,2) st u]
  have o: "0 < fb_k s \<Longrightarrow> fb_n s = draw rnd (fb_k s - 1)" "fb_out s = out_by rnd (fb_k s) u (fb_pc s u = F_set)"
    using ok(3) out_of [OF u] by blast+
  have k: "u \<noteq> Main \<Longrightarrow> 0 < fb_k s"
  proof -
    assume "u \<noteq> Main"
    then have "\<not> turn s Main" using u by (auto simp: turn_of_def)
    then show "0 < fb_k s" using d(3) by (simp add: turn_def)
  qed
  show ?thesis
    using st
  proof (cases rule: fb_step_cases)
    case print
    have "turn s t" using print(1) by (simp add: turn_def)
    then have ut: "u = t" using u by (simp add: turn_of_def)
    have n: "t = Main \<or> fb_n s = draw rnd (fb_k s - 1)" using k o(1) ut by blast
    have "fb_out s = out_by rnd (fb_k s) t False" using o(2) print(1) ut by simp
    note p = out_by_print [OF this n]
    have t': "turn_of s' t" using eff print(1) ut by simp
    show ?thesis
      unfolding out_of [OF t'] using p n print(2) k o(1) ut by (cases "t = Main") simp_all
  next
    case set
    have "turn s t" using set(1) by (simp add: turn_def)
    then have ut: "u = t" using u by (simp add: turn_of_def)
    have "0 < fb_k s" using k d(4) set(1) ut by (cases "t = Main") auto
    moreover have "fb_pc s (next_who t) \<noteq> F_set"
      using cs_alone [OF ok(2), of t "next_who t"] set(1) by auto
    ultimately show ?thesis
      using set eff o ut out_by_next [of "fb_k s" rnd t]
      by (subst out_of [where u = "next_who t"]) auto
  qed (use eff o in \<open>subst out_of [where u = u]; auto split: if_splits\<close>)+
qed

definition fb_inv :: "(nat \<Rightarrow> int) \<Rightarrow> fb \<Rightarrow> bool" where
  "fb_inv rnd s \<longleftrightarrow> cs_ok s \<and> turn_ok s \<and> wake_ok s \<and> out_ok rnd s"

lemma spurious_inv:
  assumes "fb_inv rnd s" "fb_pc s t = F_wait"
  shows "fb_inv rnd (goto t F_wake s)"
proof -
  have ok: "cs_ok s" "turn_ok s" "wake_ok s" "out_ok rnd s" using assms(1) by (auto simp: fb_inv_def)
  have same: "turn (goto t F_wake s) = turn s" using assms(2) by (intro turn_same) auto
  obtain u where u: "turn_of s u" using turn_okD(6) [OF ok(2)] by blast
  have u': "turn_of (goto t F_wake s) u" using u by (simp add: turn_of_def same)
  have "fb_mutex s \<noteq> Some t" using cs_iff [OF ok(1), of t] assms(2) by simp
  then have "cs_ok (goto t F_wake s)" using cs_iff [OF ok(1)] by (simp add: cs_ok_def)
  moreover have "turn_ok (goto t F_wake s)"
    using ok(2) assms(2) unfolding turn_ok_def same by (auto split: if_splits)
  moreover have "wake_ok (goto t F_wake s)"
    using ok(3) wake_of [OF u] assms(2) by (subst wake_of [OF u']) auto
  moreover have "out_ok rnd (goto t F_wake s)"
    using ok(4) out_of [OF u] assms(2) by (subst out_of [OF u']) auto
  ultimately show ?thesis by (simp add: fb_inv_def)
qed

lemma fb_init_inv:
  assumes "fb_init s"
  shows "fb_inv rnd s"
proof -
  have s: "fb_mutex s = None" "fb_flag s = (\<lambda>_. False)" "fb_n s = -1" "fb_pc s = (\<lambda>_. F_lock)" "fb_out s = []"
    "fb_k s = 0" using assms by (simp_all add: fb_init_def)
  have u: "turn_of s Main" by (simp add: turn_of_def turn_def s)
  have "\<exists>t. \<forall>t'. turn s t' \<longleftrightarrow> t' = t" using u turn_of_ex by blast
  then show ?thesis using u
    by (simp add: fb_inv_def cs_ok_def turn_ok_def wake_of out_of s out_by_def rounds_def)
qed

interpretation fzb: inductive_invariant fb_init "fb_run rnd" "fb_inv rnd" for rnd
proof
  show "fb_inv rnd s" if "fb_init s" for s using fb_init_inv that .
  show "fb_inv rnd s'" if inv: "fb_inv rnd s" and "fb_run rnd s s'" for s s'
    using that(2)
  proof cases
    case (fb_thread t)
    then show ?thesis using inv cs_step turn_step wake_step out_step unfolding fb_inv_def by blast
  next
    case (fb_spurious t)
    then show ?thesis using spurious_inv inv by blast
  qed
qed


section \<open>Properties\<close>

lemma fb_moves:
  assumes inv: "fb_inv rnd s"
  shows "\<exists>t s'. fb_step rnd t s = Some s'"
proof -
  have ok: "cs_ok s" "turn_ok s" "wake_ok s" using inv by (auto simp: fb_inv_def)
  show ?thesis
  proof (cases "fb_mutex s")
    case (Some t)
    then have "in_cs (fb_pc s t)" by (simp add: cs_iff [OF ok(1)])
    then show ?thesis by (intro exI [of _ t]) (auto simp: fb_step_def in_cs_def)
  next
    case None
    then have out: "\<not> in_cs (fb_pc s t)" for t by (simp add: cs_iff [OF ok(1)])
    obtain u where u: "turn_of s u" using turn_okD(6) [OF ok(2)] by blast
    obtain t where t: "u = next_who t" by (cases u) (metis next_who.simps)+
    have "fb_pc s u \<noteq> F_wait"
      using ok(3) wake_of [OF u] out [of t] t by auto
    then show ?thesis using out [of u] None
      by (intro exI [of _ u]) (cases "fb_pc s u"; simp add: fb_step_def)
  qed
qed

text \<open>C15: The output of the threaded fizz-buzz is right under every interleaving and with any
  spurious wake-ups: it is always a beginning of the rounds for the numbers drawn, each number
  followed by a fizz exactly when 3 divides it and a buzz exactly when 5 does, in this order; all
  rounds but the last are complete, and each number is between 0 and 15.\<close>

theorem fizzbuzz_output:
  assumes "reach fb_init (fb_run rnd) s"
  shows "(\<exists>rest. rounds rnd (fb_k s) = fb_out s @ rest \<and> length rest \<le> 2) \<and>
    (\<forall>i. 0 \<le> draw rnd i \<and> draw rnd i < 16)"
proof -
  have inv: "fb_inv rnd s" using fzb.reach_inv [OF assms] .
  then have ok: "turn_ok s" "out_ok rnd s" by (auto simp: fb_inv_def)
  obtain u where u: "turn_of s u" using turn_okD(6) [OF ok(1)] by blast
  have o: "fb_out s = out_by rnd (fb_k s) u (fb_pc s u = F_set)" using ok(2) out_of [OF u] by blast
  have k: "0 < fb_k s \<or> (u = Main \<and> fb_pc s Main \<noteq> F_set)"
  proof (cases "0 < fb_k s")
    case False
    then have "turn s Main" using turn_okD(3) [OF ok(1)] by (simp add: turn_def)
    then show ?thesis using u turn_okD(4) [OF ok(1)] False by (auto simp: turn_of_def)
  qed simp
  have "\<exists>rest. rounds rnd (fb_k s) = fb_out s @ rest \<and> length rest \<le> 2"
    using k unfolding o
    by (cases "fb_k s"; cases u) (auto simp: out_by_def Let_def rounds_Suc num_events_def)
  then show ?thesis using draw_range by blast
qed

theorem fizzbuzz_output_witness:
  "\<exists>s. reach fb_init (fb_run (\<lambda>i. 15)) s \<and> fb_out s = [] \<and> (\<exists>rest. rounds (\<lambda>i. 15) (fb_k s) = fb_out s @ rest)"
proof -
  let ?s = "\<lparr>fb_mutex = None, fb_flag = (\<lambda>_. False), fb_n = -1, fb_pc = (\<lambda>_. F_lock), fb_out = [], fb_k = 0\<rparr>"
  have r: "reach fb_init (fb_run (\<lambda>i. 15)) ?s" by (rule reach_init) (simp add: fb_init_def)
  then show ?thesis using fizzbuzz_output [OF r] by (intro exI [of _ ?s]) simp
qed

text \<open>C16: The threads of fizz-buzz neither deadlock nor lose a wake-up: in every reachable state
  some thread can take a step without being woken by chance, at most one thread is between lock
  and unlock, and a thread that sleeps although it is its turn is about to be signalled.\<close>

theorem fizzbuzz_no_deadlock:
  assumes "reach fb_init (fb_run rnd) s"
  shows "(\<exists>t s'. fb_step rnd t s = Some s') \<and>
    (\<forall>t u. in_cs (fb_pc s t) \<and> in_cs (fb_pc s u) \<longrightarrow> t = u) \<and>
    (\<forall>t. fb_pc s (next_who t) = F_wait \<and> turn s (next_who t) \<longrightarrow> fb_pc s t = F_signal)"
proof -
  have inv: "fb_inv rnd s" using fzb.reach_inv [OF assms] .
  then have "cs_ok s" "wake_ok s" by (auto simp: fb_inv_def)
  then show ?thesis using fb_moves [OF inv] cs_alone unfolding wake_ok_def by blast
qed

theorem fizzbuzz_no_deadlock_witness:
  "\<exists>s t s'. reach fb_init (fb_run (\<lambda>i. 7)) s \<and> fb_step (\<lambda>i. 7) t s = Some s'"
proof -
  let ?s = "\<lparr>fb_mutex = None, fb_flag = (\<lambda>_. False), fb_n = -1, fb_pc = (\<lambda>_. F_lock), fb_out = [], fb_k = 0\<rparr>"
  have r: "reach fb_init (fb_run (\<lambda>i. 7)) ?s" by (rule reach_init) (simp add: fb_init_def)
  then show ?thesis using fizzbuzz_no_deadlock [OF r] by blast
qed

end
