(* ===== verification/Counter.thy ===== *)
theory Counter
  imports Prelude
begin

text \<open>
  The threaded counter of
  \<open>05-operating-systems/03-threads-concurrency-and-scheduling/01-threaded-counter/counter.c\<close>: any
  number of threads that each run \<open>routine\<close>, with \<open>counter++\<close> as a load and a store, and
  \<open>main\<close>, which joins them. \<open>pthread_create\<close> is taken to succeed.
\<close>

definition EACH_COUNT :: nat where
  "EACH_COUNT = 1000000000"

text \<open>In \<open>routine\<close>: at the loop condition, before lock, load, store, unlock, and at the end.\<close>

datatype kpc = K_test | K_lock | K_load | K_store | K_unlock | K_end

record kthread =
  k_pc :: kpc
  k_i :: nat
  k_reg :: int

record counter =
  ct_counter :: int
  ct_lock :: "nat option"
  ct_thread :: "nat \<Rightarrow> kthread"
  ct_overflow :: bool

text \<open>One step of thread \<open>t\<close>; an increment of \<open>INT_MAX\<close> is undefined and is recorded.\<close>

definition routine_step :: "nat \<Rightarrow> nat \<Rightarrow> counter \<Rightarrow> counter option" where
  "routine_step each t s =
     (let th = ct_thread s t; go = (\<lambda>s' th'. s'\<lparr>ct_thread := (ct_thread s')(t := th')\<rparr>)
      in case k_pc th of
        K_test \<Rightarrow> Some (go s (th\<lparr>k_pc := (if k_i th < each then K_lock else K_end)\<rparr>))
      | K_lock \<Rightarrow>
          if ct_lock s = None then Some (go (s\<lparr>ct_lock := Some t\<rparr>) (th\<lparr>k_pc := K_load\<rparr>)) else None
      | K_load \<Rightarrow> Some (go s (th\<lparr>k_pc := K_store, k_reg := ct_counter s\<rparr>))
      | K_store \<Rightarrow>
          Some (go (s\<lparr>ct_counter := k_reg th + 1, ct_overflow := ct_overflow s \<or> INT_MAX \<le> k_reg th\<rparr>)
                 (th\<lparr>k_pc := K_unlock\<rparr>))
      | K_unlock \<Rightarrow> Some (go (s\<lparr>ct_lock := None\<rparr>) (th\<lparr>k_pc := K_test, k_i := Suc (k_i th)\<rparr>))
      | K_end \<Rightarrow> None)"

inductive counter_step :: "nat \<Rightarrow> nat \<Rightarrow> counter \<Rightarrow> counter \<Rightarrow> bool" for n each where
  "t < n \<Longrightarrow> routine_step each t s = Some s' \<Longrightarrow> counter_step n each s s'"

definition counter_start :: counter where
  "counter_start = \<lparr>ct_counter = 0, ct_lock = None,
     ct_thread = (\<lambda>_. \<lparr>k_pc = K_test, k_i = 0, k_reg = 0\<rparr>), ct_overflow = False\<rparr>"

text \<open>What \<open>main\<close> prints after both joins: the count and the expected one.\<close>

definition counter_report :: "nat \<Rightarrow> nat \<Rightarrow> counter \<Rightarrow> (int \<times> int) option" where
  "counter_report n each s =
     (if \<forall>t<n. k_pc (ct_thread s t) = K_end then Some (ct_counter s, int (n * each)) else None)"

section \<open>The invariant\<close>

text \<open>The increments thread \<open>t\<close> has stored, and the steps it still has to take.\<close>

definition k_done :: "kthread \<Rightarrow> nat" where
  "k_done th = k_i th + (if k_pc th = K_unlock then 1 else 0)"

definition k_left :: "nat \<Rightarrow> kthread \<Rightarrow> nat" where
  "k_left each th =
     (case k_pc th of
        K_test \<Rightarrow> 5 * (each - k_i th) + 1
      | K_lock \<Rightarrow> 5 * (each - k_i th)
      | K_load \<Rightarrow> 5 * (each - k_i th) - 1
      | K_store \<Rightarrow> 5 * (each - k_i th) - 2
      | K_unlock \<Rightarrow> 5 * (each - k_i th) - 3
      | K_end \<Rightarrow> 0)"

definition k_holds :: "kthread \<Rightarrow> bool" where
  "k_holds th \<longleftrightarrow> k_pc th \<in> {K_load, K_store, K_unlock}"

definition k_bound :: "nat \<Rightarrow> kthread \<Rightarrow> bool" where
  "k_bound each th \<longleftrightarrow> k_i th \<le> each \<and> (k_pc th \<in> {K_lock, K_load, K_store, K_unlock} \<longrightarrow> k_i th < each) \<and>
     (k_pc th = K_end \<longrightarrow> k_i th = each)"

definition counter_inv :: "nat \<Rightarrow> nat \<Rightarrow> counter \<Rightarrow> bool" where
  "counter_inv n each s \<longleftrightarrow> int (n * each) \<le> INT_MAX \<and> \<not> ct_overflow s \<and>
     (\<forall>t<n. k_bound each (ct_thread s t)) \<and>
     (\<forall>t<n. k_holds (ct_thread s t) \<longleftrightarrow> ct_lock s = Some t) \<and> (\<forall>t. ct_lock s = Some t \<longrightarrow> t < n) \<and>
     (\<forall>t<n. k_pc (ct_thread s t) = K_store \<longrightarrow> k_reg (ct_thread s t) = ct_counter s) \<and>
     ct_counter s = int (\<Sum>t<n. k_done (ct_thread s t))"

lemma routine_step_cases:
  assumes "routine_step each t s = Some s'"
  obtains
    (test) "k_pc (ct_thread s t) = K_test"
      "s' = s\<lparr>ct_thread := (ct_thread s)(t := (ct_thread s t)
         \<lparr>k_pc := if k_i (ct_thread s t) < each then K_lock else K_end\<rparr>)\<rparr>"
  | (lock) "k_pc (ct_thread s t) = K_lock" "ct_lock s = None"
      "s' = s\<lparr>ct_lock := Some t, ct_thread := (ct_thread s)(t := (ct_thread s t)\<lparr>k_pc := K_load\<rparr>)\<rparr>"
  | (load) "k_pc (ct_thread s t) = K_load"
      "s' = s\<lparr>ct_thread := (ct_thread s)(t := (ct_thread s t)
         \<lparr>k_pc := K_store, k_reg := ct_counter s\<rparr>)\<rparr>"
  | (store) "k_pc (ct_thread s t) = K_store"
      "s' = s\<lparr>ct_counter := k_reg (ct_thread s t) + 1,
         ct_overflow := ct_overflow s \<or> INT_MAX \<le> k_reg (ct_thread s t),
         ct_thread := (ct_thread s)(t := (ct_thread s t)\<lparr>k_pc := K_unlock\<rparr>)\<rparr>"
  | (unlock) "k_pc (ct_thread s t) = K_unlock"
      "s' = s\<lparr>ct_lock := None, ct_thread := (ct_thread s)(t := (ct_thread s t)
         \<lparr>k_pc := K_test, k_i := Suc (k_i (ct_thread s t))\<rparr>)\<rparr>"
  using assms by (cases "k_pc (ct_thread s t)")
    (auto simp: routine_step_def Let_def split: if_splits)

lemma k_done_le: "k_bound each th \<Longrightarrow> k_done th \<le> each"
  by (cases "k_pc th") (auto simp: k_bound_def k_done_def)

lemma counter_bounded:
  assumes "counter_inv n each s" "t < n"
  shows "ct_counter s \<le> int (n * each - each + k_done (ct_thread s t))"
proof -
  let ?d = "\<lambda>j. k_done (ct_thread s j)"
  have "(\<Sum>j<n. ?d j) = ?d t + (\<Sum>j\<in>{..<n} - {t}. ?d j)"
    using assms(2) sum.remove [of "{..<n}" t ?d] by simp
  also have "(\<Sum>j\<in>{..<n} - {t}. ?d j) \<le> (n - 1) * each"
    using sum_bounded_above [of "{..<n} - {t}" ?d each] assms
    by (auto simp: counter_inv_def k_done_le)
  also have "(n - 1) * each = n * each - each" by (simp add: diff_mult_distrib)
  finally show ?thesis using assms(1) by (simp add: counter_inv_def flip: of_nat_sum)
qed

text \<open>One thread's step keeps the invariant when it keeps the parts that concern that thread.\<close>

lemma counter_inv_update:
  assumes inv: "counter_inv n each s" and t: "t < n"
    and thr: "ct_thread s' = (ct_thread s)(t := ct_thread s' t)" and ov: "\<not> ct_overflow s'"
    and bound: "k_bound each (ct_thread s' t)"
    and holds: "k_holds (ct_thread s' t) \<longleftrightarrow> ct_lock s' = Some t"
    and lock: "ct_lock s' = ct_lock s \<or> (ct_lock s' = Some t \<and> ct_lock s = None) \<or>
       (ct_lock s' = None \<and> ct_lock s = Some t)"
    and reg: "k_pc (ct_thread s' t) = K_store \<longrightarrow> k_reg (ct_thread s' t) = ct_counter s'"
    and cnt: "ct_counter s' = ct_counter s \<or> ct_lock s = Some t"
    and count: "ct_counter s' + int (k_done (ct_thread s t)) =
       ct_counter s + int (k_done (ct_thread s' t))"
  shows "counter_inv n each s'"
proof -
  have eq: "ct_thread s' j = ct_thread s j" if "j \<noteq> t" for j using thr that by (metis fun_upd_other)
  have other: "k_holds (ct_thread s' j) \<longleftrightarrow> ct_lock s' = Some j" if "j < n" for j
    using inv lock holds eq that by (cases "j = t") (auto simp: counter_inv_def)
  have reg': "k_reg (ct_thread s' j) = ct_counter s'" if "j < n" "k_pc (ct_thread s' j) = K_store" for j
  proof (cases "j = t")
    case True
    then show ?thesis using reg that by simp
  next
    case False
    then have "k_pc (ct_thread s j) = K_store" using eq that by simp
    moreover have "ct_lock s = Some j"
      using inv that(1) calculation by (auto simp: counter_inv_def k_holds_def)
    ultimately show ?thesis using inv that cnt False eq by (auto simp: counter_inv_def)
  qed
  have bound': "k_bound each (ct_thread s' j)" if "j < n" for j
    using bound inv eq that by (cases "j = t") (auto simp: counter_inv_def)
  have "(\<Sum>j<n. k_done (ct_thread s' j)) + k_done (ct_thread s t) =
      (\<Sum>j<n. k_done (ct_thread s j)) + k_done (ct_thread s' t)"
    using sum_fun_upd [OF t, of k_done "ct_thread s" "ct_thread s' t"] thr by simp
  then have "ct_counter s' = int (\<Sum>j<n. k_done (ct_thread s' j))"
    using inv count unfolding counter_inv_def by linarith
  moreover have "\<forall>j. ct_lock s' = Some j \<longrightarrow> j < n" using inv lock t by (auto simp: counter_inv_def)
  ultimately show ?thesis using inv ov other reg' bound' by (simp add: counter_inv_def)
qed

lemma counter_inv_step:
  assumes inv: "counter_inv n each s" and t: "t < n" and r: "routine_step each t s = Some s'"
  shows "counter_inv n each s'"
proof -
  have b: "k_bound each (ct_thread s t)" and h: "k_holds (ct_thread s t) \<longleftrightarrow> ct_lock s = Some t"
    and o: "\<not> ct_overflow s" using inv t by (simp_all add: counter_inv_def)
  from r show ?thesis
  proof (cases rule: routine_step_cases)
    case test
    then show ?thesis using b h o
      by (intro counter_inv_update [OF inv t]) (auto simp: k_bound_def k_holds_def k_done_def)
  next
    case lock
    then show ?thesis using b h o
      by (intro counter_inv_update [OF inv t]) (auto simp: k_bound_def k_holds_def k_done_def)
  next
    case load
    then show ?thesis using b h o
      by (intro counter_inv_update [OF inv t]) (auto simp: k_bound_def k_holds_def k_done_def)
  next
    case store
    have reg: "k_reg (ct_thread s t) = ct_counter s" using inv t store(1) by (simp add: counter_inv_def)
    have "ct_counter s < INT_MAX"
      using counter_bounded [OF inv t] b inv store(1) t
      by (cases n) (auto simp: k_bound_def k_done_def counter_inv_def)
    then show ?thesis using b h o reg store
      by (intro counter_inv_update [OF inv t]) (auto simp: k_bound_def k_holds_def k_done_def)
  next
    case unlock
    then show ?thesis using b h o
      by (intro counter_inv_update [OF inv t]) (auto simp: k_bound_def k_holds_def k_done_def)
  qed
qed

lemma counter_inv_start: "int (n * each) \<le> INT_MAX \<Longrightarrow> counter_inv n each counter_start"
  by (simp add: counter_inv_def counter_start_def k_bound_def k_holds_def k_done_def)

interpretation cnt: inductive_invariant
  "\<lambda>s. s = counter_start \<and> int (n * each) \<le> INT_MAX" "counter_step n each" "counter_inv n each"
  for n each
  by unfold_locales (auto simp: counter_inv_start counter_step.simps intro: counter_inv_step)

section \<open>Progress\<close>

definition k_total :: "nat \<Rightarrow> nat \<Rightarrow> counter \<Rightarrow> nat" where
  "k_total n each s = (\<Sum>t<n. k_left each (ct_thread s t))"

lemma routine_step_left:
  assumes inv: "counter_inv n each s" and t: "t < n" and r: "routine_step each t s = Some s'"
  shows "k_left each (ct_thread s' t) < k_left each (ct_thread s t) \<and>
    ct_thread s' = (ct_thread s)(t := ct_thread s' t)"
proof -
  have b: "k_bound each (ct_thread s t)" using inv t by (simp add: counter_inv_def)
  from r show ?thesis
    by (cases rule: routine_step_cases) (use b in \<open>auto simp: k_bound_def k_left_def\<close>)
qed

lemma counter_step_total:
  assumes "counter_inv n each s" "counter_step n each s s'"
  shows "k_total n each s' < k_total n each s"
proof -
  obtain t where t: "t < n" "routine_step each t s = Some s'"
    using assms(2) by (auto simp: counter_step.simps)
  then have "k_left each (ct_thread s' t) < k_left each (ct_thread s t)"
    "ct_thread s' = (ct_thread s)(t := ct_thread s' t)"
    using routine_step_left [OF assms(1)] by auto
  then show ?thesis
    using sum_fun_upd [OF t(1), of "k_left each" "ct_thread s" "ct_thread s' t"]
    by (simp add: k_total_def)
qed

text \<open>Some thread can move unless all have ended: the owner of the lock, or anyone.\<close>

lemma counter_enabled:
  assumes inv: "counter_inv n each s" and stop: "\<nexists>s'. counter_step n each s s'" and t: "t < n"
  shows "k_pc (ct_thread s t) = K_end"
proof -
  have no: "routine_step each j s = None" if "j < n" for j
    using stop that by (metis counter_step.intros not_Some_eq)
  have free: "ct_lock s = None"
  proof (rule ccontr)
    assume "ct_lock s \<noteq> None"
    then obtain j where "j < n" "k_holds (ct_thread s j)" using inv by (auto simp: counter_inv_def)
    then show False using no [of j] by (auto simp: k_holds_def routine_step_def Let_def)
  qed
  then show ?thesis
    using no [OF t] by (cases "k_pc (ct_thread s t)") (auto simp: routine_step_def Let_def)
qed

lemma counter_ended:
  assumes inv: "counter_inv n each s" and stop: "\<And>t. t < n \<Longrightarrow> k_pc (ct_thread s t) = K_end"
  shows "counter_report n each s = Some (int (n * each), int (n * each))"
proof -
  have "k_done (ct_thread s t) = each" if "t < n" for t
    using inv stop [OF that] that by (auto simp: counter_inv_def k_bound_def k_done_def)
  then have "(\<Sum>t<n. k_done (ct_thread s t)) = n * each" by simp
  then show ?thesis using inv stop unfolding counter_inv_def counter_report_def by simp
qed

lemma counter_finishes:
  "counter_inv n each s \<Longrightarrow>
    \<exists>s'. (counter_step n each)\<^sup>*\<^sup>* s s' \<and> counter_report n each s' = Some (int (n * each), int (n * each))"
proof (induction s rule: measure_induct_rule [where f = "k_total n each"])
  case (less s)
  show ?case
  proof (cases "\<exists>u. counter_step n each s u")
    case True
    then obtain u where u: "counter_step n each s u" by blast
    then have "counter_inv n each u" using less.prems by (rule_tac cnt.inv_step)
    then show ?thesis
      using less.IH [OF counter_step_total [OF less.prems u]] u
      by (meson converse_rtranclp_into_rtranclp)
  next
    case False
    then show ?thesis using counter_ended [OF less.prems counter_enabled [OF less.prems]] by blast
  qed
qed

lemma counter_no_overflow: "int (2 * EACH_COUNT) \<le> INT_MAX"
  by (simp add: EACH_COUNT_def INT_MAX_def)

lemma reach_counter:
  "reach (\<lambda>s. s = counter_start) (counter_step 2 EACH_COUNT) s \<Longrightarrow> counter_inv 2 EACH_COUNT s"
  using cnt.reach_inv [of 2 EACH_COUNT s] counter_no_overflow by simp

section \<open>The program\<close>

text \<open>
  C17: In every state the two threads of \<open>main\<close> can reach, in any interleaving of their loads and
  stores, \<open>counter\<close> has not overflowed; if both have ended, \<open>main\<close> prints the expected count
  twice, and from every such state the threads can run to that end: the lock is never lost.
\<close>

theorem counter_correct:
  assumes "reach (\<lambda>s. s = counter_start) (counter_step 2 EACH_COUNT) s"
  shows "\<not> ct_overflow s \<and>
    (\<forall>r. counter_report 2 EACH_COUNT s = Some r \<longrightarrow> r = (2000000000, 2000000000)) \<and>
    (\<exists>s'. (counter_step 2 EACH_COUNT)\<^sup>*\<^sup>* s s' \<and>
       counter_report 2 EACH_COUNT s' = Some (2000000000, 2000000000))"
proof -
  note inv = reach_counter [OF assms]
  have "r = (2000000000, 2000000000)" if "counter_report 2 EACH_COUNT s = Some r" for r
    using counter_ended [OF inv] that
    by (auto simp: counter_report_def EACH_COUNT_def split: if_splits)
  then show ?thesis
    using inv counter_finishes [OF inv] by (auto simp: counter_inv_def EACH_COUNT_def)
qed

lemma counter_correct_witness:
  "counter_report 2 EACH_COUNT counter_start = None \<and>
   (\<exists>s'. (counter_step 2 EACH_COUNT)\<^sup>*\<^sup>* counter_start s' \<and>
      counter_report 2 EACH_COUNT s' = Some (2000000000, 2000000000))"
proof
  show "counter_report 2 EACH_COUNT counter_start = None"
    by (auto simp: counter_report_def counter_start_def intro: exI [of _ 0])
qed (use counter_correct [OF reach_init, of counter_start] in simp)

text \<open>
  C18: The threaded counter terminates under every schedule: from the states the two threads can
  reach there is no infinite run of steps, and a state where no thread can move is one where both
  have ended.
\<close>

theorem counter_terminates:
  "wfp (\<lambda>s' s. reach (\<lambda>s. s = counter_start) (counter_step 2 EACH_COUNT) s \<and>
      counter_step 2 EACH_COUNT s s') \<and>
   (\<nexists>s. reach (\<lambda>s. s = counter_start) (counter_step 2 EACH_COUNT) s \<and>
      (\<nexists>s'. counter_step 2 EACH_COUNT s s') \<and>
      counter_report 2 EACH_COUNT s \<noteq> Some (2000000000, 2000000000))"
proof (rule conjI)
  show "wfp (\<lambda>s' s. reach (\<lambda>s. s = counter_start) (counter_step 2 EACH_COUNT) s \<and>
      counter_step 2 EACH_COUNT s s')"
    by (rule wfp_if_convertible_to_nat [where f = "k_total 2 EACH_COUNT"])
      (auto intro: counter_step_total reach_counter)
  have "counter_report 2 EACH_COUNT s = Some (2000000000, 2000000000)"
    if "reach (\<lambda>s. s = counter_start) (counter_step 2 EACH_COUNT) s"
      "\<nexists>s'. counter_step 2 EACH_COUNT s s'" for s
    using counter_ended [OF reach_counter [OF that(1)]
        counter_enabled [OF reach_counter [OF that(1)] that(2)]]
    by (simp add: EACH_COUNT_def)
  then show "\<nexists>s. reach (\<lambda>s. s = counter_start) (counter_step 2 EACH_COUNT) s \<and>
      (\<nexists>s'. counter_step 2 EACH_COUNT s s') \<and>
      counter_report 2 EACH_COUNT s \<noteq> Some (2000000000, 2000000000)"
    by blast
qed

end
