(* ===== verification/ShoutOs.thy ===== *)
theory ShoutOs
  imports Prelude
begin

text \<open>
  The part of
  \<open>04-computer-networks/01-introduction-to-network-programming/01-shout-server/shout_server.c\<close>
  that its two event loops share: buffers, listening sockets, \<open>do_send\<close>. What the kernel answers
  to the calls of the server is a script, one answer for each call that can fail or return a
  varying amount, in the order of the calls; a script that has run out answers \<open>EAGAIN\<close> to
  \<open>accept\<close>, \<open>recv\<close> and \<open>send\<close> and success to the others. So a theorem about all scripts is one
  about all behaviours of the kernel. A \<open>send\<close> on a connection that its peer has closed is answered
  with \<open>Pipe\<close>: the server passes no \<open>MSG_NOSIGNAL\<close> and does not ignore \<open>SIGPIPE\<close>, so the signal kills
  it, the result \<open>Inl Killed\<close>. Messages on \<open>stderr\<close> are left out.
\<close>

section \<open>State\<close>

definition BUF_CAPACITY :: nat where
  "BUF_CAPACITY = 4096"

definition MAX_LISTEN_SOCK_FDS :: nat where
  "MAX_LISTEN_SOCK_FDS = 4"

record buffer =
  b_size :: nat
  b_data :: bytes

text \<open>
  An answer: no data or room now, an error, room for some bytes, some bytes, plain success, or a
  peer that has closed the connection, which is an answer to \<open>send\<close>.
\<close>

datatype answer = Again | Fails | Room nat | Data bytes | Fine | Pipe

text \<open>
  \<open>fds\<close> are the open descriptors, \<open>bufs\<close> the allocated buffers by address, \<open>lim\<close> an address above
  all allocated ones. \<open>sent\<close> and \<open>rcvd\<close> record what has gone through the connection on a
  descriptor, \<open>third\<close> whether a \<open>do_send\<close> has ever made a third successful \<open>send\<close>; the code has
  none of these three.
\<close>

record os =
  answers :: "answer list"
  fds :: "nat list"
  bufs :: "nat \<rightharpoonup> buffer"
  lim :: nat
  sent :: "nat \<Rightarrow> bytes"
  rcvd :: "nat \<Rightarrow> bytes"
  third :: bool

datatype errno = EAGAIN | EOther

section \<open>Calls of the kernel and the allocator\<close>

definition ask :: "'a os_scheme \<Rightarrow> answer \<times> 'a os_scheme" where
  "ask s = (case answers s of [] \<Rightarrow> (Again, s) | a # as \<Rightarrow> (a, s\<lparr>answers := as\<rparr>))"

text \<open>A call that succeeds or fails.\<close>

definition call :: "'a os_scheme \<Rightarrow> bool \<times> 'a os_scheme" where
  "call s = (let (a, s') = ask s in (a \<noteq> Fails, s'))"

text \<open>\<open>k\<close> such calls in a row; the first that fails ends them.\<close>

fun calls :: "nat \<Rightarrow> 'a os_scheme \<Rightarrow> bool \<times> 'a os_scheme" where
  "calls 0 s = (True, s)"
| "calls (Suc k) s = (let (ok, s') = call s in if ok then calls k s' else (False, s'))"

text \<open>A new descriptor is the lowest one that is not open.\<close>

definition free_fd :: "nat list \<Rightarrow> nat" where
  "free_fd fs = hd (filter (\<lambda>n. n \<notin> set fs) [0..<Suc (length fs)])"

definition sys_socket :: "'a os_scheme \<Rightarrow> nat option \<times> 'a os_scheme" where
  "sys_socket s = (let (ok, s') = call s in
     if ok then (Some (free_fd (fds s')), s'\<lparr>fds := free_fd (fds s') # fds s'\<rparr>) else (None, s'))"

definition sys_close :: "nat \<Rightarrow> 'a os_scheme \<Rightarrow> 'a os_scheme res" where
  "sys_close fd s = (if fd \<in> set (fds s) then Inr (s\<lparr>fds := remove1 fd (fds s)\<rparr>) else Inl BadDescriptor)"

text \<open>A connection that is accepted starts with nothing sent and nothing received.\<close>

definition sys_accept :: "'a os_scheme \<Rightarrow> (errno + nat) \<times> 'a os_scheme" where
  "sys_accept s = (case ask s of
     (Again, s') \<Rightarrow> (Inl EAGAIN, s')
   | (Fine, s') \<Rightarrow> (let fd = free_fd (fds s') in
       (Inr fd, s'\<lparr>fds := fd # fds s', sent := (sent s')(fd := []), rcvd := (rcvd s')(fd := [])\<rparr>))
   | (_, s') \<Rightarrow> (Inl EOther, s'))"

text \<open>
  \<open>send\<close> of a non-empty range takes as much as there is room for; \<open>SIGPIPE\<close> ends the process.
\<close>

definition sys_send :: "nat \<Rightarrow> bytes \<Rightarrow> 'a os_scheme \<Rightarrow> ((errno + nat) \<times> 'a os_scheme) res" where
  "sys_send fd bs s = (case ask s of
     (Room k, s') \<Rightarrow>
       if k = 0 then Inr (Inl EAGAIN, s')
       else Inr (Inr (min k (length bs)), s'\<lparr>sent := (sent s')(fd := sent s' fd @ take k bs)\<rparr>)
   | (Again, s') \<Rightarrow> Inr (Inl EAGAIN, s')
   | (Pipe, s') \<Rightarrow> Inl Killed
   | (_, s') \<Rightarrow> Inr (Inl EOther, s'))"

text \<open>\<open>recv\<close> into a buffer of \<open>BUF_CAPACITY\<close> bytes; no bytes are the end of the stream.\<close>

definition sys_recv :: "nat \<Rightarrow> 'a os_scheme \<Rightarrow> (errno + bytes) \<times> 'a os_scheme" where
  "sys_recv fd s = (case ask s of
     (Data bs, s') \<Rightarrow>
       (Inr (take BUF_CAPACITY bs), s'\<lparr>rcvd := (rcvd s')(fd := rcvd s' fd @ take BUF_CAPACITY bs)\<rparr>)
   | (Again, s') \<Rightarrow> (Inl EAGAIN, s')
   | (_, s') \<Rightarrow> (Inl EOther, s'))"

definition calloc_buffer :: "'a os_scheme \<Rightarrow> nat option \<times> 'a os_scheme" where
  "calloc_buffer s = (let (ok, s') = call s in
     if ok then (Some (lim s'), s'\<lparr>bufs := (bufs s')(lim s' \<mapsto> \<lparr>b_size = 0, b_data = replicate BUF_CAPACITY 0\<rparr>),
                   lim := Suc (lim s')\<rparr>)
     else (None, s'))"

definition get_buffer :: "nat \<Rightarrow> 'a os_scheme \<Rightarrow> buffer res" where
  "get_buffer a s = (case bufs s a of Some b \<Rightarrow> Inr b | None \<Rightarrow> Inl UseAfterFree)"

definition put_buffer :: "nat \<Rightarrow> buffer \<Rightarrow> 'a os_scheme \<Rightarrow> 'a os_scheme" where
  "put_buffer a b s = s\<lparr>bufs := (bufs s)(a \<mapsto> b)\<rparr>"

definition free_buffer :: "nat \<Rightarrow> 'a os_scheme \<Rightarrow> 'a os_scheme res" where
  "free_buffer a s =
     (if bufs s a = None then Inl UseAfterFree else Inr (s\<lparr>bufs := (bufs s)(a := None)\<rparr>))"

text \<open>\<open>free\<close> of a pointer that may be \<open>NULL\<close>, behind \<open>if (buf)\<close>.\<close>

definition free_if :: "nat option \<Rightarrow> 'a os_scheme \<Rightarrow> 'a os_scheme res" where
  "free_if p s = (case p of None \<Rightarrow> Inr s | Some a \<Rightarrow> free_buffer a s)"

section \<open>Listening sockets\<close>

text \<open>The loop over the \<open>k\<close> addresses that \<open>getaddrinfo\<close> found; \<open>lfds\<close> is the caller's array.\<close>

fun listen_loop :: "nat \<Rightarrow> nat \<Rightarrow> nat list \<Rightarrow> nat \<Rightarrow> 'a os_scheme \<Rightarrow> (nat \<times> nat list \<times> 'a os_scheme) res" where
  "listen_loop max_size 0 lfds nlfd s = Inr (nlfd, lfds, s)"
| "listen_loop max_size (Suc k) lfds nlfd s =
     (case sys_socket s of
        (None, s1) \<Rightarrow> listen_loop max_size k lfds nlfd s1
      | (Some lfd, s1) \<Rightarrow>
          (case calls 3 s1 of
             (False, s2) \<Rightarrow> andthen (sys_close lfd s2) (listen_loop max_size k lfds nlfd)
           | (True, s2) \<Rightarrow> andthen (wr lfds nlfd lfd) (\<lambda>lfds'.
               if max_size \<le> Suc nlfd then Inr (Suc nlfd, lfds', s2)
               else listen_loop max_size k lfds' (Suc nlfd) s2)))"

text \<open>\<open>init_listen_fds\<close>, where \<open>getaddrinfo\<close> fails or finds \<open>addrs\<close> addresses.\<close>

definition init_listen_fds :: "nat \<Rightarrow> nat list \<Rightarrow> nat \<Rightarrow> 'a os_scheme \<Rightarrow> (int \<times> nat list \<times> 'a os_scheme) res" where
  "init_listen_fds addrs lfds max_size s =
     (let (ok, s') = call s
      in if \<not> ok then Inr (-1, lfds, s')
         else andthen (listen_loop max_size addrs lfds 0 s') (\<lambda>(n, lfds', s''). Inr (int n, lfds', s'')))"

definition set_nonblocking :: "'a os_scheme \<Rightarrow> int \<times> 'a os_scheme" where
  "set_nonblocking s =
     (let (ok, s1) = call s
      in if \<not> ok then (-1, s1)
         else (let (ok', s2) = call s1 in if \<not> ok' then (-2, s2) else (0, s2)))"

fun is_lsockfd :: "nat \<Rightarrow> nat list \<Rightarrow> bool" where
  "is_lsockfd fd [] = False"
| "is_lsockfd fd (l # ls) = (if fd = l then True else is_lsockfd fd ls)"

lemma is_lsockfd_iff [simp]: "is_lsockfd fd ls \<longleftrightarrow> fd \<in> set ls"
  by (induction ls) auto

section \<open>Sending\<close>

text \<open>The bytes that a call of \<open>send\<close> reads: \<open>n\<close> of them from offset \<open>off\<close> of the array.\<close>

definition rd_range :: "bytes \<Rightarrow> nat \<Rightarrow> nat \<Rightarrow> bytes res" where
  "rd_range data off n = (if off + n \<le> length data then Inr (take n (drop off data)) else Inl OutOfBounds)"

lemma ask_answers: "ask s = (a, s') \<Longrightarrow> length (answers s') \<le> length (answers s)"
  by (auto simp: ask_def split: list.splits)

lemma sys_send_Inr: "sys_send fd bs s = Inr (Inr n, s') \<Longrightarrow> bs \<noteq> [] \<Longrightarrow> 0 < n \<and> n \<le> length bs"
  by (auto simp: sys_send_def split: prod.splits answer.splits if_splits)

lemma sys_send_fault: "sys_send fd bs s = Inl e \<Longrightarrow> e = Killed"
  by (auto simp: sys_send_def split: prod.splits answer.splits if_splits)

text \<open>
  The loop of \<open>do_send\<close>: the data start at \<open>data + sent\<close>, where \<open>sent\<close> is what the last call
  of \<open>send\<close> has sent. \<open>c\<close> counts the calls that have succeeded.
\<close>

declare andthen_cong [fundef_cong]

function send_loop :: "nat \<Rightarrow> bytes \<Rightarrow> nat \<Rightarrow> nat \<Rightarrow> nat \<Rightarrow> nat \<Rightarrow> 'a os_scheme \<Rightarrow> (int \<times> 'a os_scheme) res" where
  "send_loop fd data prev left total_sent c s =
     (if 0 < left
      then andthen (rd_range data prev left) (\<lambda>bs. andthen (sys_send fd bs s) (\<lambda>r.
        case r of
          (Inl EAGAIN, s') \<Rightarrow> Inr (int total_sent, s')
        | (Inl EOther, s') \<Rightarrow> Inr (-1, s')
        | (Inr n, s') \<Rightarrow> send_loop fd data n (left - n) (total_sent + n) (Suc c) (s'\<lparr>third := third s' \<or> 2 \<le> c\<rparr>)))
      else Inr (int total_sent, s))"
  by pat_completeness auto
termination
proof (relation "measure (\<lambda>(fd, data, prev, left, total, c, s). left)", goal_cases)
  case (2 fd data prev left total c s bs y r s' n)
  then have "length bs = left" by (auto simp: rd_range_def andthen_def split: if_splits)
  then have "0 < n" using sys_send_Inr [of fd bs s n s'] 2 by force
  then show ?case using 2 by simp
qed simp

declare send_loop.simps [simp del]

definition do_send :: "nat \<Rightarrow> bytes \<Rightarrow> nat \<Rightarrow> 'a os_scheme \<Rightarrow> (int \<times> 'a os_scheme) res" where
  "do_send fd data left s = send_loop fd data 0 left 0 0 s"

text \<open>\<open>to_upper_case\<close> is left to be written.\<close>

definition to_upper_case :: "bytes \<Rightarrow> nat \<Rightarrow> bytes" where
  "to_upper_case data n = data"

text \<open>\<open>buf->size -= sent\<close> and the \<open>memmove\<close> after it.\<close>

definition shift_out :: "nat \<Rightarrow> buffer \<Rightarrow> buffer" where
  "shift_out n b = (let k = b_size b - n
     in \<lparr>b_size = k, b_data = take k (drop n (b_data b)) @ drop k (b_data b)\<rparr>)"

text \<open>What \<open>recv\<close> leaves in the buffer.\<close>

definition fill :: "bytes \<Rightarrow> buffer \<Rightarrow> buffer" where
  "fill bs b = \<lparr>b_size = length bs, b_data = to_upper_case (bs @ drop (length bs) (b_data b)) (length bs)\<rparr>"

section \<open>Facts about sending\<close>

lemma upd_answers_same [simp]: "s\<lparr>answers := answers s\<rparr> = s"
  by (cases s) simp

lemma ask_frame: "ask s = (a, s') \<Longrightarrow> s' = s\<lparr>answers := answers s'\<rparr>"
  by (auto simp: ask_def split: list.splits)

text \<open>What sending on \<open>fd\<close> leaves as it is.\<close>

definition sends :: "nat \<Rightarrow> 'a os_scheme \<Rightarrow> 'a os_scheme \<Rightarrow> bool" where
  "sends fd s s' \<longleftrightarrow> fds s' = fds s \<and> bufs s' = bufs s \<and> lim s' = lim s \<and> rcvd s' = rcvd s \<and>
     os.more s' = os.more s \<and> (\<forall>f. f \<noteq> fd \<longrightarrow> sent s' f = sent s f) \<and>
     length (answers s') \<le> length (answers s) \<and> (third s \<longrightarrow> third s')"

lemma sends_trans: "sends fd s s' \<Longrightarrow> sends fd s' s'' \<Longrightarrow> sends fd s s''"
  by (auto simp: sends_def)

lemma sys_send_sends: "sys_send fd bs s = Inr (r, s') \<Longrightarrow> sends fd s s'"
  by (auto simp: sends_def sys_send_def ask_def split: prod.splits answer.splits list.splits if_splits)

lemma sys_send_sent:
  "sys_send fd bs s = Inr (r, s') \<Longrightarrow>
    sent s' fd = sent s fd @ (case r of Inl _ \<Rightarrow> [] | Inr n \<Rightarrow> take n bs) \<and> third s' = third s"
  by (auto simp: sys_send_def ask_def min_def split: prod.splits answer.splits list.splits if_splits)

text \<open>What a round of \<open>do_send\<close> can do.\<close>

lemma send_loop_cases:
  assumes "send_loop fd data prev left tot c s = Inr (r, s')"
  obtains
    (sent_all) "left = 0" "r = int tot" "s' = s"
  | (again) bs where "0 < left" "rd_range data prev left = Inr bs" "sys_send fd bs s = Inr (Inl EAGAIN, s')" "r = int tot"
  | (failed) bs where "0 < left" "rd_range data prev left = Inr bs" "sys_send fd bs s = Inr (Inl EOther, s')" "r = -1"
  | (more) bs n s1 where "0 < left" "rd_range data prev left = Inr bs" "sys_send fd bs s = Inr (Inr n, s1)"
      "send_loop fd data n (left - n) (tot + n) (Suc c) (s1\<lparr>third := third s1 \<or> 2 \<le> c\<rparr>) = Inr (r, s')"
proof (cases "0 < left")
  case False
  then show ?thesis using assms sent_all by (simp add: send_loop.simps)
next
  case True
  then obtain bs where bs: "rd_range data prev left = Inr bs"
    using assms by (auto simp: send_loop.simps [of fd data prev left] andthen_eq_Inr_iff)
  then obtain x s1 where x: "sys_send fd bs s = Inr (x, s1)"
    using assms True by (cases "sys_send fd bs s") (auto simp: send_loop.simps [of fd data prev left])
  note step = assms [unfolded send_loop.simps [of fd data prev left], simplified True bs x if_True andthen_simps prod.case]
  show ?thesis
  proof (cases x)
    case (Inl e)
    then show ?thesis using step True bs x again failed by (cases e) auto
  next
    case (Inr n)
    then show ?thesis using step True bs x more by simp
  qed
qed

lemma send_loop_sends:
  "send_loop fd data prev left tot c s = Inr (r, s') \<Longrightarrow> sends fd s s'"
proof (induction fd data prev left tot c s rule: send_loop.induct)
  case (1 fd data prev left tot c s)
  from "1.prems" show ?case
  proof (cases rule: send_loop_cases)
    case sent_all
    then show ?thesis by (simp add: sends_def)
  next
    case (more bs n s1)
    have "sends fd s (s1\<lparr>third := third s1 \<or> 2 \<le> c\<rparr>)"
      using sys_send_sends [OF more(3)] by (simp add: sends_def)
    then show ?thesis
      using "1.IH" [OF more(1-3) refl refl more(4)] by (rule sends_trans)
  qed (auto dest: sys_send_sends)
qed

text \<open>
  The first two calls of \<open>send\<close> send the data in order, so a run without a third one does. The
  result is the number of bytes sent, or \<open>-1\<close> after an error, which may come after some of them.
\<close>

lemma send_loop_exact:
  "send_loop fd data prev left tot c s = Inr (r, s') \<Longrightarrow> \<not> third s' \<Longrightarrow> (c \<le> 1 \<Longrightarrow> prev = tot) \<Longrightarrow>
    (c = 0 \<Longrightarrow> tot = 0) \<Longrightarrow>
    \<exists>k\<le>left. sent s' fd = sent s fd @ take k (drop tot data) \<and> (r = -1 \<or> r = int (tot + k))"
proof (induction fd data prev left tot c s rule: send_loop.induct)
  case (1 fd data prev left tot c s)
  from "1.prems"(1) show ?case
  proof (cases rule: send_loop_cases)
    case (more bs n s1)
    let ?s2 = "s1\<lparr>third := third s1 \<or> 2 \<le> c\<rparr>"
    have c: "c \<le> 1" using send_loop_sends [OF more(4)] "1.prems"(2) by (auto simp: sends_def)
    then have bs: "bs = take left (drop tot data)" "length bs = left"
      using more(1,2) "1.prems"(3) by (auto simp: rd_range_def split: if_splits)
    have n: "0 < n" "n \<le> left" using sys_send_Inr [OF more(3)] bs more(1) by auto
    have "\<exists>k\<le>left - n. sent s' fd = sent ?s2 fd @ take k (drop (tot + n) data) \<and>
        (r = -1 \<or> r = int (tot + n + k))"
      by (rule "1.IH" [OF more(1-3) refl refl more(4) "1.prems"(2)])
        (use c "1.prems"(3,4) in \<open>auto\<close>)
    then obtain k where k: "k \<le> left - n" "sent s' fd = sent s1 fd @ take k (drop (tot + n) data)"
      "r = -1 \<or> r = int (tot + n + k)" by auto
    have "sent s1 fd = sent s fd @ take n (drop tot data)"
      using sys_send_sent [OF more(3)] bs n by (simp add: min_def)
    then have "sent s' fd = sent s fd @ take (n + k) (drop tot data)"
      using k(2) by (simp add: take_add add.commute [of tot n])
    then show ?thesis using k n by (intro exI [of _ "n + k"]) auto
  next
    case (again bs)
    then show ?thesis using sys_send_sent [OF again(3)] by (intro exI [of _ 0]) auto
  next
    case (failed bs)
    then show ?thesis using sys_send_sent [OF failed(3)] by (intro exI [of _ 0]) auto
  next
    case sent_all
    then show ?thesis by (intro exI [of _ 0]) auto
  qed
qed

text \<open>It returns, unless the peer has closed the connection.\<close>

lemma send_loop_returns:
  "prev + left \<le> length data \<Longrightarrow> send_loop fd data prev left tot c s = Inl Killed \<or>
    (\<exists>r s'. send_loop fd data prev left tot c s = Inr (r, s') \<and> (r = -1 \<or> int tot \<le> r) \<and> r \<le> int (tot + left))"
proof (induction fd data prev left tot c s rule: send_loop.induct)
  case (1 fd data prev left tot c s)
  show ?case
  proof (cases "0 < left")
    case False
    then show ?thesis by (simp add: send_loop.simps)
  next
    case True
    define bs where "bs = take left (drop prev data)"
    then have bs: "rd_range data prev left = Inr bs" "length bs = left"
      using "1.prems" by (auto simp: rd_range_def)
    note step = send_loop.simps [of fd data prev left tot c s]
    consider "sys_send fd bs s = Inl Killed"
      | e s1 where "sys_send fd bs s = Inr (Inl e, s1)" | n s1 where "sys_send fd bs s = Inr (Inr n, s1)"
      by (metis sys_send_fault sum.exhaust surj_pair)
    then show ?thesis
    proof cases
      case 1
      then show ?thesis using step True bs by simp
    next
      case 2
      then show ?thesis using step True bs by (cases e) auto
    next
      case 3
      have n: "0 < n" "n \<le> left" using sys_send_Inr [OF 3] bs(2) True by auto
      have "send_loop fd data n (left - n) (tot + n) (Suc c) (s1\<lparr>third := third s1 \<or> 2 \<le> c\<rparr>) = Inl Killed \<or>
          (\<exists>r s'. send_loop fd data n (left - n) (tot + n) (Suc c) (s1\<lparr>third := third s1 \<or> 2 \<le> c\<rparr>) = Inr (r, s') \<and>
          (r = -1 \<or> int (tot + n) \<le> r) \<and> r \<le> int (tot + n + (left - n)))"
        using "1.IH" [OF True bs(1) 3 refl refl] n "1.prems" by simp
      then show ?thesis using step True bs 3 n by auto
    qed
  qed
qed

lemma do_send_returns:
  assumes "left \<le> length data"
  obtains "do_send fd data left s = Inl Killed"
  | r s' where "do_send fd data left s = Inr (r, s')" "-1 \<le> r" "r \<le> int left" "sends fd s s'"
  using send_loop_returns [of 0 left data fd 0 0 s] assms send_loop_sends
  unfolding do_send_def by (metis add.left_neutral int_ops(1) order_trans zero_le_one neg_le_0_iff_le order_refl)

lemma do_send_exact:
  "do_send fd data left s = Inr (r, s') \<Longrightarrow> \<not> third s' \<Longrightarrow>
    \<exists>k\<le>left. sent s' fd = sent s fd @ take k data \<and> (r = -1 \<or> r = int k)"
  using send_loop_exact [of fd data 0 left 0 0 s r s'] by (simp add: do_send_def)

section \<open>Calls and answers\<close>

lemma call_answers: "call s = (b, s') \<Longrightarrow> length (answers s') \<le> length (answers s)"
  using ask_answers by (auto simp: call_def split: prod.splits)

lemma set_nonblocking_answers: "set_nonblocking s = (r, s') \<Longrightarrow> length (answers s') \<le> length (answers s)"
  by (auto simp: set_nonblocking_def Let_def split: prod.splits if_splits dest!: call_answers)

lemma calloc_buffer_answers: "calloc_buffer s = (r, s') \<Longrightarrow> length (answers s') \<le> length (answers s)"
  by (auto simp: calloc_buffer_def Let_def split: prod.splits if_splits dest!: call_answers)

lemma sys_accept_answers: "sys_accept s = (Inr fd, s') \<Longrightarrow> length (answers s') < length (answers s)"
  by (auto simp: sys_accept_def ask_def Let_def split: prod.splits answer.splits list.splits)

lemma sys_recv_answers: "sys_recv fd s = (Inr bs, s') \<Longrightarrow> length (answers s') < length (answers s)"
  by (auto simp: sys_recv_def ask_def split: prod.splits answer.splits list.splits)

lemma do_send_answers: "do_send fd data left s = Inr (r, s') \<Longrightarrow> length (answers s') \<le> length (answers s)"
  using send_loop_sends by (fastforce simp: do_send_def sends_def)

lemma free_fd_fresh: "free_fd fs \<notin> set fs"
proof -
  have "filter (\<lambda>n. n \<notin> set fs) [0..<Suc (length fs)] \<noteq> []"
  proof
    assume "filter (\<lambda>n. n \<notin> set fs) [0..<Suc (length fs)] = []"
    then have "{..<Suc (length fs)} \<subseteq> set fs" by (auto simp: filter_empty_conv simp del: upt_Suc)
    then have "card {..<Suc (length fs)} \<le> card (set fs)" by (rule card_mono [rotated]) simp
    then show False using card_length [of fs] by simp
  qed
  then have "free_fd fs \<in> set (filter (\<lambda>n. n \<notin> set fs) [0..<Suc (length fs)])"
    unfolding free_fd_def by (rule hd_in_set)
  then show ?thesis by (simp del: upt_Suc)
qed

lemma ask_upd: "ask s = (a, s') \<Longrightarrow> \<exists>as. s' = s\<lparr>answers := as\<rparr>"
  using ask_frame by blast

lemma call_upd: "call s = (b, s') \<Longrightarrow> \<exists>as. s' = s\<lparr>answers := as\<rparr>"
  by (auto simp: call_def split: prod.splits dest: ask_upd)

lemma set_nonblocking_upd: "set_nonblocking s = (r, s') \<Longrightarrow> \<exists>as. s' = s\<lparr>answers := as\<rparr>"
  by (auto simp: set_nonblocking_def Let_def split: prod.splits if_splits dest!: call_upd)

lemma calloc_buffer_None: "calloc_buffer s = (None, s') \<Longrightarrow> \<exists>as. s' = s\<lparr>answers := as\<rparr>"
  by (auto simp: calloc_buffer_def Let_def split: prod.splits if_splits dest!: call_upd)

lemma calloc_buffer_Some:
  "calloc_buffer s = (Some a, s') \<Longrightarrow> a = lim s \<and> (\<exists>as. s' = s\<lparr>answers := as,
    bufs := (bufs s)(lim s \<mapsto> \<lparr>b_size = 0, b_data = replicate BUF_CAPACITY 0\<rparr>), lim := Suc (lim s)\<rparr>)"
  by (auto simp: calloc_buffer_def Let_def split: prod.splits if_splits dest!: call_upd)

lemma sys_accept_Inl: "sys_accept s = (Inl e, s') \<Longrightarrow> \<exists>as. s' = s\<lparr>answers := as\<rparr>"
  by (auto simp: sys_accept_def Let_def split: prod.splits answer.splits dest: ask_upd)

lemma sys_accept_Inr:
  "sys_accept s = (Inr fd, s') \<Longrightarrow> fd \<notin> set (fds s) \<and> (\<exists>as. s' = s\<lparr>answers := as,
    fds := fd # fds s, sent := (sent s)(fd := []), rcvd := (rcvd s)(fd := [])\<rparr>)"
  using free_fd_fresh
  by (auto simp: sys_accept_def ask_def Let_def split: prod.splits answer.splits list.splits)

section \<open>Buffers\<close>

definition buf_ok :: "buffer \<Rightarrow> bool" where
  "buf_ok b \<longleftrightarrow> b_size b \<le> BUF_CAPACITY \<and> length (b_data b) = BUF_CAPACITY"

definition pending :: "buffer \<Rightarrow> bytes" where
  "pending b = take (b_size b) (b_data b)"

lemma fill_ok: "buf_ok b \<Longrightarrow> length bs \<le> BUF_CAPACITY \<Longrightarrow> buf_ok (fill bs b) \<and> pending (fill bs b) = bs"
  by (simp add: buf_ok_def pending_def fill_def to_upper_case_def)

lemma shift_out_ok:
  "buf_ok b \<Longrightarrow> n \<le> b_size b \<Longrightarrow> buf_ok (shift_out n b) \<and> pending (shift_out n b) = drop n (pending b)"
  by (auto simp: buf_ok_def pending_def shift_out_def Let_def min_def drop_take)

lemma empty_ok: "buf_ok b \<Longrightarrow> buf_ok (b\<lparr>b_size := 0\<rparr>) \<and> pending (b\<lparr>b_size := 0\<rparr>) = []"
  by (simp add: buf_ok_def pending_def)

end
