(* ===== verification/ShoutEpoll.thy ===== *)
theory ShoutEpoll
  imports ShoutOs
begin

unbundle bit_operations_syntax

text \<open>
  The Linux event loop of \<open>shout_server.c\<close> (\<open>ep_add\<close>, \<open>cleanup\<close>, \<open>poll\<close>). The kernel's interest
  list maps a descriptor to its event mask and to the address of the \<open>user_data\<close> block it hands
  back with every event.
\<close>

definition EPOLLIN :: u32 where "EPOLLIN = 0x001"
definition EPOLLOUT :: u32 where "EPOLLOUT = 0x004"
definition EPOLLHUP :: u32 where "EPOLLHUP = 0x010"
definition EPOLLRDHUP :: u32 where "EPOLLRDHUP = 0x2000"
definition EPOLLET :: u32 where "EPOLLET = 0x80000000"

definition MAX_EVENTS :: nat where
  "MAX_EVENTS = 100"

record user_data =
  ud_fd :: nat
  ud_buffer :: "nat option"

record ep = os +
  epfd :: nat
  interest :: "nat \<rightharpoonup> u32 \<times> nat"
  puds :: "nat \<rightharpoonup> user_data"

definition ep_add :: "nat \<Rightarrow> u32 \<Rightarrow> nat option \<Rightarrow> ep \<Rightarrow> int \<times> ep" where
  "ep_add fd evs buf s =
     (let (ok, s1) = call s
      in if \<not> ok then (-1, s1)
         else (let p = lim s1;
                   s2 = s1\<lparr>puds := (puds s1)(p \<mapsto> \<lparr>ud_fd = fd, ud_buffer = buf\<rparr>), lim := Suc p\<rparr>;
                   (ok', s3) = call s2
               in if \<not> ok' then (-3, s3\<lparr>puds := (puds s3)(p := None)\<rparr>)
                  else (0, s3\<lparr>interest := (interest s3)(fd \<mapsto> (evs, p))\<rparr>)))"

definition deref :: "nat \<Rightarrow> ep \<Rightarrow> user_data res" where
  "deref p s = (case puds s p of None \<Rightarrow> Inl UseAfterFree | Some u \<Rightarrow> Inr u)"

definition cleanup :: "nat \<Rightarrow> ep \<Rightarrow> ep res" where
  "cleanup p s =
     andthen (deref p s) (\<lambda>u.
     andthen (sys_close (ud_fd u) (s\<lparr>interest := (interest s)(ud_fd u := None)\<rparr>)) (\<lambda>s1.
     andthen (free_if (ud_buffer u) s1) (\<lambda>s2. Inr (s2\<lparr>puds := (puds s2)(p := None)\<rparr>))))"

section \<open>New connections\<close>

lemma ep_add_answers: "ep_add fd evs buf s = (r, s') \<Longrightarrow> length (answers s') \<le> length (answers s)"
  by (auto simp: ep_add_def Let_def split: prod.splits if_splits dest!: call_answers)

definition conn_events :: u32 where
  "conn_events = EPOLLET OR EPOLLIN OR EPOLLOUT OR EPOLLRDHUP OR EPOLLHUP"

text \<open>The loop of \<open>accept\<close> calls after an event of the listening socket of block \<open>p\<close>.\<close>

function accept_loop :: "nat \<Rightarrow> ep \<Rightarrow> ep res" where
  "accept_loop p s =
     andthen (deref p s) (\<lambda>u.
     case sys_accept s of
       (Inl e, s1) \<Rightarrow> Inr s1
     | (Inr conn_sockfd, s1) \<Rightarrow>
         (case set_nonblocking s1 of (r, s2) \<Rightarrow>
          if r < 0 then sys_close conn_sockfd s2
          else (case calloc_buffer s2 of
              (None, s3) \<Rightarrow> sys_close conn_sockfd s3
            | (Some buf, s3) \<Rightarrow>
                (case ep_add conn_sockfd conn_events (Some buf) s3 of (r', s4) \<Rightarrow>
                 if r' < 0 then andthen (free_buffer buf s4) (sys_close conn_sockfd)
                 else accept_loop p s4))))"
  by pat_completeness auto
termination
proof (relation "measure (\<lambda>(p, s). length (answers s))", goal_cases)
  case (2 p s u a s1 fd r s2 b s3 buf r' s4)
  have "length (answers s1) < length (answers s)" "length (answers s2) \<le> length (answers s1)"
    "length (answers s3) \<le> length (answers s2)" "length (answers s4) \<le> length (answers s3)"
    using 2 sys_accept_answers set_nonblocking_answers calloc_buffer_answers ep_add_answers by metis+
  then show ?case by simp
qed simp

declare accept_loop.simps [simp del]

section \<open>Events of a connection\<close>

definition the_buf :: "user_data \<Rightarrow> nat res" where
  "the_buf u = (case ud_buffer u of None \<Rightarrow> Inl NullDeref | Some a \<Rightarrow> Inr a)"

text \<open>The part for \<open>EPOLLOUT\<close>; \<open>False\<close> where it ends the event with \<open>continue\<close>.\<close>

definition on_writable :: "nat \<Rightarrow> nat \<Rightarrow> ep \<Rightarrow> (bool \<times> ep) res" where
  "on_writable p a s =
     andthen (deref p s) (\<lambda>u. andthen (get_buffer a s) (\<lambda>b.
     andthen (do_send (ud_fd u) (b_data b) (b_size b) s) (\<lambda>(sent, s1).
       if 0 \<ge> sent then andthen (cleanup p s1) (\<lambda>s2. Inr (False, s2))
       else if nat sent < b_size b then Inr (True, put_buffer a (shift_out (nat sent) b) s1)
       else Inr (True, put_buffer a (b\<lparr>b_size := 0\<rparr>) s1))))"

function recv_loop :: "nat \<Rightarrow> nat \<Rightarrow> ep \<Rightarrow> ep res" where
  "recv_loop p a s =
     andthen (deref p s) (\<lambda>u. andthen (get_buffer a s) (\<lambda>b.
     case sys_recv (ud_fd u) s of
       (Inl EAGAIN, s1) \<Rightarrow> Inr s1
     | (Inl EOther, s1) \<Rightarrow> cleanup p s1
     | (Inr bs, s1) \<Rightarrow>
         if bs = [] then cleanup p s1
         else andthen (do_send (ud_fd u) (b_data (fill bs b)) (b_size (fill bs b)) (put_buffer a (fill bs b) s1))
           (\<lambda>(sent, s2).
             if 0 \<ge> sent then cleanup p s2
             else if nat sent < b_size (fill bs b)
             then Inr (put_buffer a (shift_out (nat sent) (fill bs b)) s2)
             else recv_loop p a (put_buffer a ((fill bs b)\<lparr>b_size := 0\<rparr>) s2))))"
  by pat_completeness auto
termination
proof (relation "measure (\<lambda>(p, a, s). length (answers s))", goal_cases)
  case (2 p a s u b x s1 bs y sent s2)
  have "length (answers s1) < length (answers s)" using 2 sys_recv_answers by metis
  moreover have "length (answers s2) \<le> length (answers (put_buffer a (fill bs b) s1))"
    using 2 do_send_answers by metis
  ultimately show ?case by (simp add: put_buffer_def)
qed simp

declare recv_loop.simps [simp del]

text \<open>One event: \<open>True\<close> where it ends the server (\<open>goto end\<close>).\<close>

definition handle_event :: "nat list \<Rightarrow> u32 \<Rightarrow> nat \<Rightarrow> ep \<Rightarrow> (bool \<times> ep) res" where
  "handle_event lsockfds ev p s =
     andthen (deref p s) (\<lambda>u.
       if is_lsockfd (ud_fd u) lsockfds then andthen (accept_loop p s) (\<lambda>s'. Inr (False, s'))
       else if ev AND EPOLLRDHUP \<noteq> 0 \<or> ev AND EPOLLHUP \<noteq> 0
       then andthen (cleanup p s) (\<lambda>s'. Inr (False, s'))
       else if ev AND EPOLLIN \<noteq> 0 \<or> ev AND EPOLLOUT \<noteq> 0
       then andthen (the_buf u) (\<lambda>a. andthen (get_buffer a s) (\<lambda>b.
         andthen (if ev AND EPOLLOUT \<noteq> 0 \<and> 0 < b_size b then on_writable p a s else Inr (True, s)) (\<lambda>(go, s1).
           if \<not> go then Inr (False, s1)
           else andthen (get_buffer a s1) (\<lambda>b1.
             if ev AND EPOLLIN \<noteq> 0 \<and> b_size b1 = 0
             then andthen (recv_loop p a s1) (\<lambda>s2. Inr (False, s2))
             else Inr (False, s1)))))
       else andthen (cleanup p s) (\<lambda>s'. Inr (True, s')))"

fun handle_events :: "nat list \<Rightarrow> (u32 \<times> nat) list \<Rightarrow> ep \<Rightarrow> (bool \<times> ep) res" where
  "handle_events lsockfds [] s = Inr (False, s)"
| "handle_events lsockfds ((ev, p) # evs) s =
     andthen (handle_event lsockfds ev p s) (\<lambda>(stop, s').
       if stop then Inr (True, s') else handle_events lsockfds evs s')"

section \<open>The loop\<close>

text \<open>
  What \<open>epoll_wait\<close> returns when the descriptors of a batch have events: for each registered one
  its mask and its block, at most \<open>MAX_EVENTS\<close> of them.
\<close>

datatype wait = Wait_error | Wait_events "(nat \<times> u32) list"

definition ready :: "(nat \<times> u32) list \<Rightarrow> ep \<Rightarrow> (u32 \<times> nat) list" where
  "ready batch s = take MAX_EVENTS (List.map_filter (\<lambda>fd.
     case interest s fd of None \<Rightarrow> None | Some (m, p) \<Rightarrow> map_option (\<lambda>ev. (ev, p)) (map_of batch fd))
       (remdups (map fst batch)))"

text \<open>The rounds of \<open>poll\<close>, as long as there are waits; \<open>None\<close> is a server that goes on.\<close>

fun poll_loop :: "nat list \<Rightarrow> wait list \<Rightarrow> ep \<Rightarrow> (int option \<times> ep) res" where
  "poll_loop lsockfds [] s = Inr (None, s)"
| "poll_loop lsockfds (Wait_error # ws) s = Inr (Some 6, s)"
| "poll_loop lsockfds (Wait_events batch # ws) s =
     andthen (handle_events lsockfds (ready batch s) s) (\<lambda>(stop, s').
       if stop then andthen (sys_close (epfd s') s') (\<lambda>s''. Inr (Some 0, s''))
       else poll_loop lsockfds ws s')"

fun add_listeners :: "nat list \<Rightarrow> ep \<Rightarrow> bool \<times> ep" where
  "add_listeners [] s = (True, s)"
| "add_listeners (l # ls) s =
     (case ep_add l (EPOLLIN OR EPOLLET) None s of (r, s') \<Rightarrow>
       if r < 0 then (False, s') else add_listeners ls s')"

definition poll :: "wait list \<Rightarrow> nat list \<Rightarrow> ep \<Rightarrow> (int option \<times> ep) res" where
  "poll ws lsockfds s =
     (case sys_socket s of
        (None, s1) \<Rightarrow> Inr (Some 4, s1)
      | (Some e, s1) \<Rightarrow>
          (case add_listeners lsockfds (s1\<lparr>epfd := e\<rparr>) of
             (False, s2) \<Rightarrow> Inr (Some 5, s2)
           | (True, s2) \<Rightarrow> poll_loop lsockfds ws s2))"

end
