(* ===== verification/ShoutMain.thy ===== *)
theory ShoutMain
  imports ShoutOs
begin

text \<open>
  \<open>main\<close> of \<open>shout_server.c\<close> around an event loop, which is \<open>poll\<close> on Linux and \<open>queue\<close> on BSD;
  the locale of event loops says what \<open>main\<close> relies on.
\<close>

fun nonblocking_all :: "nat list \<Rightarrow> 'a os_scheme \<Rightarrow> bool \<times> 'a os_scheme" where
  "nonblocking_all [] s = (True, s)"
| "nonblocking_all (l # ls) s =
     (case set_nonblocking s of (r, s') \<Rightarrow> if r < 0 then (False, s') else nonblocking_all ls s')"

fun close_all :: "nat list \<Rightarrow> 'a os_scheme \<Rightarrow> 'a os_scheme res" where
  "close_all [] s = Inr s"
| "close_all (l # ls) s = andthen (sys_close l s) (close_all ls)"

text \<open>The exit status, \<open>None\<close> where the event loop goes on.\<close>

definition shout_main :: "(nat list \<Rightarrow> 'a os_scheme \<Rightarrow> (int option \<times> 'a os_scheme) res) \<Rightarrow> nat \<Rightarrow>
    'a os_scheme \<Rightarrow> (int option \<times> 'a os_scheme) res" where
  "shout_main loop addrs s =
     andthen (init_listen_fds addrs (replicate MAX_LISTEN_SOCK_FDS 0) MAX_LISTEN_SOCK_FDS s) (\<lambda>(n, lsockfds, s1).
       if 0 \<ge> n then Inr (Some 1, s1)
       else (let ls = take (nat n) lsockfds
             in case nonblocking_all ls s1 of
                  (False, s2) \<Rightarrow> Inr (Some 2, s2)
                | (True, s2) \<Rightarrow>
                    (case calls (length ls) s2 of
                       (False, s3) \<Rightarrow> Inr (Some 3, s3)
                     | (True, s3) \<Rightarrow> andthen (loop ls s3) (\<lambda>(ret, s4).
                         case ret of None \<Rightarrow> Inr (None, s4)
                         | Some r \<Rightarrow> andthen (close_all ls s4) (\<lambda>s5. Inr (Some r, s5))))))"

text \<open>What \<open>main\<close> needs to close the listening sockets, and what is left of the echo.\<close>

definition closing_ok :: "nat list \<Rightarrow> 'a os_scheme \<Rightarrow> bool" where
  "closing_ok ls s \<longleftrightarrow> distinct (fds s) \<and> set ls \<subseteq> set (fds s) \<and>
     (\<not> third s \<longrightarrow> (\<forall>fd. \<exists>zs. rcvd s fd = sent s fd @ zs))"

text \<open>Calls that only open or close descriptors.\<close>

definition same_but_fds :: "'a os_scheme \<Rightarrow> 'a os_scheme \<Rightarrow> bool" where
  "same_but_fds s s' \<longleftrightarrow> bufs s' = bufs s \<and> lim s' = lim s \<and> sent s' = sent s \<and> rcvd s' = rcvd s \<and>
     third s' = third s \<and> os.more s' = os.more s"

lemma same_but_fds_trans: "same_but_fds s s' \<Longrightarrow> same_but_fds s' s'' \<Longrightarrow> same_but_fds s s''"
  by (simp add: same_but_fds_def)

lemma calls_same: "calls k s = (ok, s') \<Longrightarrow> \<exists>as. s' = s\<lparr>answers := as\<rparr>"
  by (induction k arbitrary: s)
    (fastforce simp: Let_def intro: upd_answers_same [symmetric] split: prod.splits if_splits dest: call_upd)+

lemma nonblocking_all_same: "nonblocking_all ls s = (ok, s') \<Longrightarrow> \<exists>as. s' = s\<lparr>answers := as\<rparr>"
  by (induction ls arbitrary: s)
    (fastforce intro: upd_answers_same [symmetric] split: prod.splits if_splits dest: set_nonblocking_upd)+

lemma listen_loop_ok:
  "distinct (fds s) \<Longrightarrow> set (take n arr) \<subseteq> set (fds s) \<Longrightarrow> distinct (take n arr) \<Longrightarrow> n < length arr \<Longrightarrow>
    \<exists>n' arr' s'. listen_loop (length arr) k arr n s = Inr (n', arr', s') \<and> n' \<le> length arr' \<and>
      length arr' = length arr \<and> distinct (fds s') \<and> distinct (take n' arr') \<and> set (take n' arr') \<subseteq> set (fds s') \<and>
      set (fds s') - set (take n' arr') = set (fds s) - set (take n arr) \<and> same_but_fds s s'"
proof (induction k arbitrary: arr n s)
  case 0
  then show ?case by (simp add: same_but_fds_def)
next
  case (Suc k)
  obtain ok s0 where call: "call s = (ok, s0)" by fastforce
  obtain as where s0: "s0 = s\<lparr>answers := as\<rparr>" using call_upd [OF call] by blast
  show ?case
  proof (cases ok)
    case False
    then have "listen_loop (length arr) (Suc k) arr n s = listen_loop (length arr) k arr n s0"
      using call by (simp add: sys_socket_def)
    then show ?thesis using Suc.IH [of s0 n arr] Suc.prems s0 by (simp add: same_but_fds_def)
  next
    case True
    define fd where "fd = free_fd (fds s)"
    have fd: "fd \<notin> set (fds s)" by (simp add: fd_def free_fd_fresh)
    define s1 where "s1 = s0\<lparr>fds := fd # fds s\<rparr>"
    have sock: "sys_socket s = (Some fd, s1)"
      using call True s0 by (simp add: sys_socket_def s1_def fd_def)
    obtain ok' s2 where c3: "calls 3 s1 = (ok', s2)" by fastforce
    obtain as2 where s2: "s2 = s1\<lparr>answers := as2\<rparr>" using calls_same [OF c3] by blast
    show ?thesis
    proof (cases ok')
      case False
      let ?s3 = "s2\<lparr>fds := fds s\<rparr>"
      have "listen_loop (length arr) (Suc k) arr n s = listen_loop (length arr) k arr n ?s3"
        using sock c3 False s2 s1_def by (simp add: sys_close_def)
      then show ?thesis using Suc.IH [of ?s3 n arr] Suc.prems s2 s1_def s0 by (simp add: same_but_fds_def)
    next
      case True
      let ?arr = "arr[n := fd]"
      have tk: "take (Suc n) ?arr = take n arr @ [fd]"
        using Suc.prems(4) by (simp add: take_Suc_conv_app_nth)
      have pre: "distinct (fds s2)" "set (take (Suc n) ?arr) \<subseteq> set (fds s2)" "distinct (take (Suc n) ?arr)"
        using Suc.prems fd tk s2 s1_def by auto
      have diff: "set (fds s2) - set (take (Suc n) ?arr) = set (fds s) - set (take n arr)"
        using fd tk s2 s1_def by auto
      have same: "same_but_fds s s2" using s2 s1_def s0 by (simp add: same_but_fds_def)
      show ?thesis
      proof (cases "length arr \<le> Suc n")
        case True
        then have "listen_loop (length arr) (Suc k) arr n s = Inr (Suc n, ?arr, s2)"
          using sock c3 \<open>ok'\<close> Suc.prems(4) by simp
        then show ?thesis using pre diff same Suc.prems(4) by simp
      next
        case False
        then have step: "listen_loop (length arr) (Suc k) arr n s = listen_loop (length ?arr) k ?arr (Suc n) s2"
          using sock c3 \<open>ok'\<close> Suc.prems(4) by simp
        have lt: "Suc n < length ?arr" using False by simp
        obtain n' arr' s' where q: "listen_loop (length ?arr) k ?arr (Suc n) s2 = Inr (n', arr', s')"
          "n' \<le> length arr'" "length arr' = length ?arr" "distinct (fds s')" "distinct (take n' arr')"
          "set (take n' arr') \<subseteq> set (fds s')"
          "set (fds s') - set (take n' arr') = set (fds s2) - set (take (Suc n) ?arr)" "same_but_fds s2 s'"
          using Suc.IH [OF pre lt] by blast
        have "length arr' = length arr" using q(3) by simp
        moreover have "set (fds s') - set (take n' arr') = set (fds s) - set (take n arr)"
          using q(7) diff by (rule trans)
        ultimately show ?thesis
          using q(2,4-6) same_but_fds_trans [OF same q(8)] unfolding step q(1) by blast
      qed
    qed
  qed
qed

lemma close_all_ok:
  "closing_ok ls s \<Longrightarrow> distinct ls \<Longrightarrow>
    \<exists>s'. close_all ls s = Inr s' \<and> sent s' = sent s \<and> rcvd s' = rcvd s \<and> third s' = third s"
proof (induction ls arbitrary: s)
  case (Cons l ls)
  then have ok: "closing_ok ls (s\<lparr>fds := remove1 l (fds s)\<rparr>)" by (auto simp: closing_ok_def)
  have "l \<in> set (fds s)" "distinct ls" using Cons.prems by (auto simp: closing_ok_def)
  then show ?case using Cons.IH [OF ok] by (simp add: sys_close_def)
qed simp

text \<open>
  What \<open>main\<close> relies on: started on open listening sockets, in a state its tables are empty in,
  the loop is killed by \<open>SIGPIPE\<close> or returns without a fault and leaves those sockets open.
\<close>

locale event_loop =
  fixes loop :: "nat list \<Rightarrow> 'a os_scheme \<Rightarrow> (int option \<times> 'a os_scheme) res"
    and idle :: "'a os_scheme \<Rightarrow> bool"
    and serving :: "nat set \<Rightarrow> nat list \<Rightarrow> 'a os_scheme \<Rightarrow> bool"
    and exits :: "int set"
  assumes idle_same: "idle s \<Longrightarrow> same_but_fds s s' \<Longrightarrow> idle s'"
    and idle_echo: "idle s \<Longrightarrow> \<exists>zs. rcvd s fd = sent s fd @ zs"
    and loop_ok: "idle s \<Longrightarrow> distinct (fds s) \<Longrightarrow> distinct ls \<Longrightarrow> set ls \<subseteq> set (fds s) \<Longrightarrow>
      loop ls s = Inl Killed \<or>
      (\<exists>r s'. loop ls s = Inr (r, s') \<and> closing_ok ls s' \<and> (\<forall>k. r = Some k \<longrightarrow> k \<in> exits) \<and>
        (r = None \<longrightarrow> serving (set (fds s) - set ls) ls s'))"
begin

lemma main_ok:
  assumes idle: "idle s" and dist: "distinct (fds s)"
  shows "shout_main loop addrs s = Inl Killed \<or>
    (\<exists>r s'. shout_main loop addrs s = Inr (r, s') \<and>
      (\<not> third s' \<longrightarrow> (\<forall>fd. \<exists>zs. rcvd s' fd = sent s' fd @ zs)) \<and>
      (\<forall>k. r = Some k \<longrightarrow> k \<in> exits \<union> {1, 2, 3}) \<and>
      (r = None \<longrightarrow>
        (\<exists>ls. distinct ls \<and> ls \<noteq> [] \<and> length ls \<le> MAX_LISTEN_SOCK_FDS \<and> serving (set (fds s)) ls s')))"
proof -
  obtain ok s0 where call: "call s = (ok, s0)" by fastforce
  then obtain as where s0: "s0 = s\<lparr>answers := as\<rparr>" using call_upd by blast
  let ?arr = "replicate MAX_LISTEN_SOCK_FDS (0::nat)"
  obtain n arr s1 where l: "listen_loop MAX_LISTEN_SOCK_FDS addrs ?arr 0 s0 = Inr (n, arr, s1)"
    "n \<le> length arr" "length arr = MAX_LISTEN_SOCK_FDS" "distinct (fds s1)" "distinct (take n arr)"
    "set (take n arr) \<subseteq> set (fds s1)" "set (fds s1) - set (take n arr) = set (fds s0)" "same_but_fds s0 s1"
    using listen_loop_ok [of s0 0 ?arr addrs] s0 dist by (auto simp: MAX_LISTEN_SOCK_FDS_def)
  have echo: "\<exists>zs. rcvd t fd = sent t fd @ zs" if "same_but_fds s t" for t fd
    using idle_echo [OF idle_same [OF idle that]] .
  have same: "same_but_fds s s0" "same_but_fds s s1"
    using l(8) s0 by (simp_all add: same_but_fds_def)
  show ?thesis
  proof (cases "ok \<and> 0 < n")
    case False
    then show ?thesis
      using call l(1) echo same by (auto simp: shout_main_def init_listen_fds_def)
  next
    case True
    let ?ls = "take n arr"
    have run: "shout_main loop addrs s = (case nonblocking_all ?ls s1 of
        (False, s2) \<Rightarrow> Inr (Some 2, s2)
      | (True, s2) \<Rightarrow> (case calls (length ?ls) s2 of
          (False, s3) \<Rightarrow> Inr (Some 3, s3)
        | (True, s3) \<Rightarrow> andthen (loop ?ls s3) (\<lambda>(ret, s4). case ret of None \<Rightarrow> Inr (None, s4)
            | Some r \<Rightarrow> andthen (close_all ?ls s4) (\<lambda>s5. Inr (Some r, s5)))))"
      using call l(1) True by (simp add: shout_main_def init_listen_fds_def Let_def)
    obtain ok2 s2 where nb: "nonblocking_all ?ls s1 = (ok2, s2)" by fastforce
    obtain ok3 s3 where c3: "calls (length ?ls) s2 = (ok3, s3)" by fastforce
    obtain as2 as3 where s23: "s2 = s1\<lparr>answers := as2\<rparr>" "s3 = s1\<lparr>answers := as3\<rparr>"
      using nonblocking_all_same [OF nb] calls_same [OF c3] by auto
    then have same23: "same_but_fds s s2" "same_but_fds s s3"
      using same(2) by (simp_all add: same_but_fds_def)
    show ?thesis
    proof (cases "ok2 \<and> ok3")
      case False
      then show ?thesis using run nb c3 echo same23 by (cases ok2) auto
    next
      case both: True
      consider "loop ?ls s3 = Inl Killed" | ret s4 where "loop ?ls s3 = Inr (ret, s4)" "closing_ok ?ls s4"
        "\<forall>k. ret = Some k \<longrightarrow> k \<in> exits"
        "ret = None \<longrightarrow> serving (set (fds s3) - set ?ls) ?ls s4"
        using loop_ok [OF idle_same [OF idle same23(2)], of ?ls] l s23 by auto
      then show ?thesis
      proof cases
        case 1
        then show ?thesis using run nb c3 both by simp
      next
        case s4: (2 ret s4)
        show ?thesis
        proof (cases ret)
          case None
          have "distinct ?ls" "?ls \<noteq> []" "length ?ls \<le> MAX_LISTEN_SOCK_FDS" using l True by auto
          moreover have "set (fds s3) - set ?ls = set (fds s)" using l(7) s23 s0 by simp
          ultimately show ?thesis
            using run nb c3 both s4 None by (auto simp: closing_ok_def intro!: exI [of _ ?ls])
        next
          case (Some r)
          obtain s5 where "close_all ?ls s4 = Inr s5" "sent s5 = sent s4" "rcvd s5 = rcvd s4" "third s5 = third s4"
            using close_all_ok [OF s4(2) l(5)] by blast
          then show ?thesis using run nb c3 both s4 Some by (simp add: closing_ok_def)
        qed
      qed
    qed
  qed
qed

end

end
