(* ===== verification/ShoutEpollInv.thy ===== *)
theory ShoutEpollInv
  imports ShoutEpoll ShoutMain
begin

text \<open>
  The invariant of the Linux event loop: descriptors, \<open>user_data\<close> blocks and buffers are in
  one-to-one correspondence with the open connections, and what a connection has received is what
  it has sent followed by what its buffer holds.
\<close>

text \<open>\<open>base\<close> are the descriptors that belong neither to connections nor to listening sockets.\<close>

definition reg_ok :: "nat set \<Rightarrow> nat list \<Rightarrow> ep \<Rightarrow> bool" where
  "reg_ok base ls s \<longleftrightarrow> distinct (fds s) \<and> set (fds s) = base \<union> dom (interest s) \<and> base \<inter> dom (interest s) = {} \<and>
     set ls \<subseteq> dom (interest s) \<and>
     (\<forall>fd m p. interest s fd = Some (m, p) \<longrightarrow> (\<exists>u. puds s p = Some u \<and> ud_fd u = fd))"

definition puds_ok :: "nat list \<Rightarrow> ep \<Rightarrow> bool" where
  "puds_ok ls s \<longleftrightarrow> (\<forall>p u. puds s p = Some u \<longrightarrow> p < lim s \<and> (\<exists>m. interest s (ud_fd u) = Some (m, p)) \<and>
     (ud_buffer u = None \<longleftrightarrow> ud_fd u \<in> set ls) \<and>
     (\<forall>a. ud_buffer u = Some a \<longrightarrow> (\<exists>b. bufs s a = Some b \<and> buf_ok b)))"

definition bufs_ok :: "ep \<Rightarrow> bool" where
  "bufs_ok s \<longleftrightarrow>
     (\<forall>a. bufs s a \<noteq> None \<longrightarrow> a < lim s \<and> (\<exists>p u. puds s p = Some u \<and> ud_buffer u = Some a))"

definition single_ok :: "ep \<Rightarrow> bool" where
  "single_ok s \<longleftrightarrow> (\<forall>a p u q v. puds s p = Some u \<longrightarrow> ud_buffer u = Some a \<longrightarrow>
     puds s q = Some v \<longrightarrow> ud_buffer v = Some a \<longrightarrow> p = q)"

text \<open>
  While no \<open>do_send\<close> has made a third successful call: what has been sent is a prefix of what has
  been received, and on an open connection, except those of the blocks \<open>X\<close> that are about to be
  released, the buffer holds the difference.
\<close>

definition echo_ok :: "nat set \<Rightarrow> ep \<Rightarrow> bool" where
  "echo_ok X s \<longleftrightarrow> (\<not> third s \<longrightarrow> (\<forall>fd. \<exists>zs. rcvd s fd = sent s fd @ zs) \<and>
     (\<forall>p u a b. p \<notin> X \<longrightarrow> puds s p = Some u \<longrightarrow> ud_buffer u = Some a \<longrightarrow> bufs s a = Some b \<longrightarrow>
        rcvd s (ud_fd u) = sent s (ud_fd u) @ pending b))"

definition ep_okx :: "nat set \<Rightarrow> nat set \<Rightarrow> nat list \<Rightarrow> ep \<Rightarrow> bool" where
  "ep_okx X base ls s \<longleftrightarrow> reg_ok base ls s \<and> puds_ok ls s \<and> bufs_ok s \<and> single_ok s \<and> echo_ok X s"

abbreviation ep_ok :: "nat set \<Rightarrow> nat list \<Rightarrow> ep \<Rightarrow> bool" where
  "ep_ok \<equiv> ep_okx {}"

text \<open>Handling an event of block \<open>p\<close> leaves the other blocks in place.\<close>

definition keeps :: "nat \<Rightarrow> ep \<Rightarrow> ep \<Rightarrow> bool" where
  "keeps p s s' \<longleftrightarrow> epfd s' = epfd s \<and> (\<forall>q. q \<noteq> p \<longrightarrow> puds s q \<noteq> None \<longrightarrow> puds s' q = puds s q)"

lemma keeps_refl [simp]: "keeps p s s"
  by (simp add: keeps_def)

lemma keeps_trans: "keeps p s s' \<Longrightarrow> keeps p s' s'' \<Longrightarrow> keeps p s s''"
  by (simp add: keeps_def)

section \<open>Calls that leave the tables as they are\<close>

lemma ep_more_eq:
  fixes s s' :: ep
  assumes "os.more s' = os.more s"
  shows "interest s' = interest s \<and> puds s' = puds s \<and> epfd s' = epfd s"
  using assms by (cases s, cases s') simp

lemma sends_ep:
  fixes s s' :: ep
  assumes "sends fd s s'"
  shows "interest s' = interest s \<and> puds s' = puds s \<and> epfd s' = epfd s"
proof -
  have "os.more s' = os.more s" using assms by (simp add: sends_def)
  then show ?thesis by (rule ep_more_eq)
qed

text \<open>
  A connection's buffer and the bytes that have gone through its descriptor change, everything
  else stays.
\<close>

lemma ep_ok_buffer:
  fixes s s' :: ep
  assumes inv: "ep_ok base ls s" and u: "puds s p = Some u" "ud_buffer u = Some a"
    and same: "fds s' = fds s" "lim s' = lim s" "os.more s' = os.more s"
    and b: "bufs s' = (bufs s)(a \<mapsto> b)" "buf_ok b"
    and other: "\<And>f. f \<noteq> ud_fd u \<Longrightarrow> sent s' f = sent s f \<and> rcvd s' f = rcvd s f" "third s \<longrightarrow> third s'"
    and cur: "\<not> third s' \<Longrightarrow>
      \<exists>zs. rcvd s' (ud_fd u) = sent s' (ud_fd u) @ zs \<and> (p \<notin> X \<longrightarrow> zs = pending b)"
  shows "ep_okx X base ls s' \<and> keeps p s s'"
proof -
  have eq: "interest s' = interest s" "puds s' = puds s" "epfd s' = epfd s"
    using ep_more_eq [OF same(3)] by simp_all
  have "reg_ok base ls s'" using inv same eq by (simp add: ep_okx_def reg_ok_def)
  moreover have "puds_ok ls s'" using inv same eq b unfolding ep_okx_def puds_ok_def by fastforce
  moreover have "bufs_ok s'"
  proof -
    have "bufs s a \<noteq> None" using inv u unfolding ep_okx_def puds_ok_def by blast
    then have "dom (bufs s') = dom (bufs s)" using b by auto
    then have "\<And>x. bufs s' x \<noteq> None \<longleftrightarrow> bufs s x \<noteq> None" by blast
    then show ?thesis using inv same eq unfolding ep_okx_def bufs_ok_def by simp
  qed
  moreover have "single_ok s'" using inv eq unfolding ep_okx_def single_ok_def by simp
  moreover have "echo_ok X s'"
    unfolding echo_ok_def
  proof (intro impI conjI allI)
    assume t: "\<not> third s'"
    then have old: "\<And>fd. \<exists>zs. rcvd s fd = sent s fd @ zs"
      "\<And>q v c d. puds s q = Some v \<Longrightarrow> ud_buffer v = Some c \<Longrightarrow> bufs s c = Some d \<Longrightarrow>
         rcvd s (ud_fd v) = sent s (ud_fd v) @ pending d"
      using inv other(2) unfolding ep_okx_def echo_ok_def by auto
    show "\<exists>zs. rcvd s' fd = sent s' fd @ zs" for fd
      using cur [OF t] old(1) [of fd] other(1) [of fd] by (cases "fd = ud_fd u") auto
    show "rcvd s' (ud_fd v) = sent s' (ud_fd v) @ pending d"
      if "q \<notin> X" "puds s' q = Some v" "ud_buffer v = Some c" "bufs s' c = Some d" for q v c d
    proof (cases "q = p")
      case True
      then show ?thesis using that cur [OF t] u b eq by simp
    next
      case False
      have "c \<noteq> a"
        using inv False that(2,3) u eq unfolding ep_okx_def single_ok_def by metis
      moreover have "ud_fd v \<noteq> ud_fd u"
        using inv False that(2) u(1) eq unfolding ep_okx_def puds_ok_def by (metis option.sel prod.inject)
      ultimately show ?thesis using that old(2) [of q v c d] eq b other(1) by simp
    qed
  qed
  ultimately show ?thesis using eq by (simp add: ep_okx_def keeps_def)
qed

section \<open>\<open>cleanup\<close>\<close>

lemma remove1_set: "distinct xs \<Longrightarrow> set (remove1 x xs) = set xs - {x}"
  by simp

lemma cleanup_ok:
  assumes inv: "ep_okx {p} base ls s" and u: "puds s p = Some u" and conn: "ud_fd u \<notin> set ls"
  obtains s' where "cleanup p s = Inr s'" "ep_ok base ls s'" "keeps p s s'" "puds s' p = None"
proof -
  obtain m where m: "interest s (ud_fd u) = Some (m, p)" using inv u unfolding ep_okx_def puds_ok_def by blast
  obtain a b where a: "ud_buffer u = Some a" "bufs s a = Some b"
    using inv u conn unfolding ep_okx_def puds_ok_def by (metis not_Some_eq)
  have open_fd: "ud_fd u \<in> set (fds s)" using inv m unfolding ep_okx_def reg_ok_def by auto
  define s' where "s' = s\<lparr>interest := (interest s)(ud_fd u := None), fds := remove1 (ud_fd u) (fds s),
     bufs := (bufs s)(a := None), puds := (puds s)(p := None)\<rparr>"
  have "cleanup p s = Inr s'"
    using u a open_fd by (simp add: cleanup_def deref_def sys_close_def free_if_def free_buffer_def s'_def)
  moreover have "reg_ok base ls s'"
    using inv m u conn unfolding ep_okx_def reg_ok_def s'_def puds_ok_def
    by (auto simp: dom_def) (metis option.sel snd_conv)+
  moreover have "puds_ok ls s'"
  proof -
    have "ud_fd v \<noteq> ud_fd u \<and> ud_buffer v \<noteq> Some a" if "puds s q = Some v" "q \<noteq> p" for q v
      using inv that u a m unfolding ep_okx_def puds_ok_def single_ok_def
      by (metis option.distinct(1) option.sel prod.inject)
    then show ?thesis using inv unfolding ep_okx_def puds_ok_def s'_def by auto
  qed
  moreover have "bufs_ok s'"
  proof -
    have "\<exists>q v. puds s' q = Some v \<and> ud_buffer v = Some x" if x: "bufs s x \<noteq> None" "x \<noteq> a" for x
    proof -
      obtain q v where "puds s q = Some v" "ud_buffer v = Some x"
        using inv x(1) unfolding ep_okx_def bufs_ok_def by blast
      moreover have "q \<noteq> p" using calculation u a x(2) by auto
      ultimately show ?thesis by (auto simp: s'_def)
    qed
    then show ?thesis using inv unfolding ep_okx_def bufs_ok_def by (simp add: s'_def)
  qed
  moreover have "single_ok s'" using inv unfolding ep_okx_def single_ok_def s'_def by (simp split: if_splits)
  moreover have "echo_ok {} s'"
    using inv unfolding ep_okx_def echo_ok_def s'_def by (simp split: if_splits)
  moreover have "keeps p s s'" "puds s' p = None" by (simp_all add: keeps_def s'_def)
  ultimately show ?thesis using that by (simp add: ep_okx_def)
qed

lemma ep_okx_weaken: "ep_ok base ls s \<Longrightarrow> ep_okx X base ls s"
  by (simp add: ep_okx_def echo_ok_def)

lemma cleanup_conn:
  assumes "ep_ok base ls s" "puds s p = Some u" "ud_fd u \<notin> set ls"
  shows "\<exists>s'. cleanup p s = Inr s' \<and> ep_ok base ls s' \<and> keeps p s s'"
  by (rule cleanup_ok [OF ep_okx_weaken [OF assms(1)] assms(2,3)]) blast

section \<open>New connections\<close>

lemma ep_add_upd:
  assumes "ep_add fd m buf s = (r, s')"
  shows "(r < 0 \<longrightarrow> (\<exists>as. s' = s\<lparr>answers := as\<rparr> \<or> s' = s\<lparr>answers := as, lim := Suc (lim s),
        puds := (puds s)(lim s := None)\<rparr>)) \<and>
     (\<not> r < 0 \<longrightarrow> (\<exists>as. s' = s\<lparr>answers := as, lim := Suc (lim s),
        puds := (puds s)(lim s \<mapsto> \<lparr>ud_fd = fd, ud_buffer = buf\<rparr>), interest := (interest s)(fd \<mapsto> (m, lim s))\<rparr>))"
  using assms
  by (intro conjI impI exI [of _ "answers s'"])
    (auto simp: ep_add_def Let_def split: prod.splits if_splits dest!: call_upd)

lemma fresh_addr:
  assumes "ep_ok base ls s"
  shows "puds s (lim s) = None \<and> puds s (Suc (lim s)) = None \<and> bufs s (lim s) = None"
  using assms unfolding ep_okx_def puds_ok_def bufs_ok_def
  by (metis less_irrefl not_Some_eq not_less_eq less_Suc_eq)

lemma ep_ok_new:
  fixes s s' :: ep
  assumes inv: "ep_ok base ls s" and fd: "fd \<notin> set (fds s)"
    and s': "s' = s\<lparr>answers := as, fds := fd # fds s, sent := (sent s)(fd := []), rcvd := (rcvd s)(fd := []),
        bufs := (bufs s)(lim s \<mapsto> \<lparr>b_size = 0, b_data = replicate BUF_CAPACITY 0\<rparr>), lim := Suc (Suc (lim s)),
        puds := (puds s)(Suc (lim s) \<mapsto> \<lparr>ud_fd = fd, ud_buffer = Some (lim s)\<rparr>),
        interest := (interest s)(fd \<mapsto> (m, Suc (lim s)))\<rparr>"
  shows "ep_ok base ls s' \<and> keeps p s s'"
proof -
  note fresh = fresh_addr [OF inv]
  have fd': "fd \<notin> base" "interest s fd = None" "fd \<notin> set ls"
    using inv fd unfolding ep_okx_def reg_ok_def by auto
  have below: "q < lim s \<and> ud_fd v \<noteq> fd \<and> ud_buffer v \<noteq> Some (lim s)" if "puds s q = Some v" for q v
    using inv that fd' fresh unfolding ep_okx_def puds_ok_def by (metis option.distinct(1))
  have low: "q < lim s" if "interest s f = Some (m', q)" for f m' q
    using inv that below unfolding ep_okx_def reg_ok_def by blast
  have "reg_ok base ls s'"
    using inv fd fd' unfolding ep_okx_def reg_ok_def s' by (auto dest: low)
  moreover have "puds_ok ls s'"
    using inv below fd' unfolding ep_okx_def puds_ok_def s' by (auto simp: buf_ok_def less_SucI)
  moreover have "bufs_ok s'"
    using inv below unfolding ep_okx_def bufs_ok_def s' by (simp add: less_SucI) (metis less_irrefl not_less_eq less_SucI)
  moreover have "single_ok s'"
    using inv below unfolding ep_okx_def single_ok_def s' by (simp split: if_splits) metis
  moreover have "echo_ok {} s'"
    using inv below unfolding ep_okx_def echo_ok_def s' by (auto simp: pending_def)
  moreover have "keeps p s s'" using below fresh unfolding keeps_def s' by auto
  ultimately show ?thesis by (simp add: ep_okx_def)
qed

lemma pud_open:
  assumes "ep_ok base ls s" "puds s p = Some u"
  shows "ud_fd u \<in> set (fds s)"
proof -
  obtain m where "interest s (ud_fd u) = Some (m, p)" using assms unfolding ep_okx_def puds_ok_def by blast
  then show ?thesis using assms unfolding ep_okx_def reg_ok_def by auto
qed

text \<open>An attempt that was undone, after a descriptor not open has been reset or not.\<close>

lemma ep_ok_undone:
  fixes s s' :: ep
  assumes inv: "ep_ok base ls s"
    and same: "fds s' = fds s" "bufs s' = bufs s" "interest s' = interest s" "puds s' = puds s"
      "epfd s' = epfd s" "lim s \<le> lim s'" "third s' = third s"
    and log: "\<And>f. (sent s' f = sent s f \<and> rcvd s' f = rcvd s f) \<or>
      (f \<notin> set (fds s) \<and> sent s' f = [] \<and> rcvd s' f = [])"
  shows "ep_ok base ls s' \<and> keeps p s s'"
proof -
  have "reg_ok base ls s'" "single_ok s'"
    using inv same by (simp_all add: ep_okx_def reg_ok_def single_ok_def)
  moreover have "puds_ok ls s'" "bufs_ok s'"
    using inv same(1-5) order.strict_trans2 [OF _ same(6)]
    unfolding ep_okx_def puds_ok_def bufs_ok_def by auto
  moreover have "echo_ok {} s'"
    unfolding echo_ok_def
  proof (intro impI conjI allI)
    assume t: "\<not> third s'"
    show "\<exists>zs. rcvd s' f = sent s' f @ zs" for f
      using log [of f] inv t same(7) unfolding ep_okx_def echo_ok_def by auto
    fix q v c d
    assume v: "puds s' q = Some v" "ud_buffer v = Some c" "bufs s' c = Some d"
    then have "ud_fd v \<in> set (fds s)" using pud_open [OF inv] same by simp
    then have "sent s' (ud_fd v) = sent s (ud_fd v) \<and> rcvd s' (ud_fd v) = rcvd s (ud_fd v)"
      using log [of "ud_fd v"] by auto
    then show "rcvd s' (ud_fd v) = sent s' (ud_fd v) @ pending d"
      using inv t v same unfolding ep_okx_def echo_ok_def by simp
  qed
  ultimately show ?thesis using same by (simp add: ep_okx_def keeps_def)
qed

lemma accept_loop_ok:
  "ep_ok base ls s \<Longrightarrow> puds s p = Some u \<Longrightarrow>
    \<exists>s'. accept_loop p s = Inr s' \<and> ep_ok base ls s' \<and> keeps q s s' \<and> puds s' p = Some u"
proof (induction p s rule: accept_loop.induct)
  case (1 p s)
  note inv = "1.prems"(1) and u = "1.prems"(2)
  have d: "deref p s = Inr u" using u by (simp add: deref_def)
  note fresh = fresh_addr [OF inv]
  have idem: "(bufs s)(lim s := None) = bufs s" "(puds s)(Suc (lim s) := None) = puds s"
    using fresh by (simp_all add: fun_upd_idem)
  note undone = ep_ok_undone [OF inv, where p = q]
  obtain x s1 where x: "sys_accept s = (x, s1)" by fastforce
  note step = accept_loop.simps [of p s]
  show ?case
  proof (cases x)
    case (Inl e)
    then obtain as where "s1 = s\<lparr>answers := as\<rparr>" using sys_accept_Inl x by blast
    then show ?thesis using step d x Inl undone [of s1] u by simp
  next
    case (Inr fd)
    obtain as where fd: "fd \<notin> set (fds s)" and s1: "s1 = s\<lparr>answers := as,
        fds := fd # fds s, sent := (sent s)(fd := []), rcvd := (rcvd s)(fd := [])\<rparr>"
      using sys_accept_Inr x Inr by blast
    obtain r s2 where r: "set_nonblocking s1 = (r, s2)" by fastforce
    then obtain as2 where s2: "s2 = s1\<lparr>answers := as2\<rparr>" using set_nonblocking_upd by blast
    obtain m s3 where m: "calloc_buffer s2 = (m, s3)" by fastforce
    show ?thesis
    proof (cases "r < 0 \<or> m = None")
      case True
      define t where "t = (if r < 0 then s2 else s3)"
      have "\<exists>as. t = s1\<lparr>answers := as\<rparr>" using True m s2 by (auto simp: t_def dest!: calloc_buffer_None)
      then have "\<exists>t'. sys_close fd t = Inr t' \<and> ep_ok base ls t' \<and> keeps q s t' \<and> puds t' p = Some u"
        using undone [of "t\<lparr>fds := fds s\<rparr>"] fd s1 u by (auto simp: sys_close_def)
      moreover have "accept_loop p s = sys_close fd t" using True step d x Inr r m by (auto simp: t_def)
      ultimately show ?thesis by simp
    next
      case False
      then obtain b where b: "m = Some b" "\<not> r < 0" by auto
      obtain as3 where s3: "b = lim s2" "s3 = s2\<lparr>answers := as3,
          bufs := (bufs s2)(lim s2 \<mapsto> \<lparr>b_size = 0, b_data = replicate BUF_CAPACITY 0\<rparr>), lim := Suc (lim s2)\<rparr>"
        using calloc_buffer_Some m b(1) by blast
      obtain r' s4 where r': "ep_add fd conn_events (Some b) s3 = (r', s4)" by fastforce
      show ?thesis
      proof (cases "r' < 0")
        case True
        then have "accept_loop p s = andthen (free_buffer b s4) (sys_close fd)"
          using step d x Inr r m b r' by simp
        moreover have "\<exists>t'. andthen (free_buffer b s4) (sys_close fd) = Inr t' \<and>
            ep_ok base ls t' \<and> keeps q s t' \<and> puds t' p = Some u"
          using ep_add_upd [OF r'] True s3 s2 s1 idem
            undone [of "s4\<lparr>bufs := bufs s, fds := fds s\<rparr>"] fd u
          by (auto simp: free_buffer_def sys_close_def)
        ultimately show ?thesis by simp
      next
        case False
        then obtain as4 where s4: "s4 = s3\<lparr>answers := as4, lim := Suc (lim s3),
            puds := (puds s3)(lim s3 \<mapsto> \<lparr>ud_fd = fd, ud_buffer = Some b\<rparr>),
            interest := (interest s3)(fd \<mapsto> (conn_events, lim s3))\<rparr>"
          using ep_add_upd [OF r'] by blast
        have new: "ep_ok base ls s4 \<and> keeps p' s s4" for p'
          by (rule ep_ok_new [OF inv fd, where m = conn_events and as = as4]) (simp add: s4 s3 s2 s1)
        then have "puds s4 p = Some u"
          using u spec [of _ p] by (metis keeps_def n_not_Suc_n option.distinct(1))
        then obtain s' where "accept_loop p s4 = Inr s'" "ep_ok base ls s'" "keeps q s4 s'" "puds s' p = Some u"
          using "1.IH" [OF d x [symmetric] Inr r [symmetric] b(2) m [symmetric] b(1) r' [symmetric] False] new
          by blast
        then show ?thesis
          using step d x Inr r m b r' False new [of q] keeps_trans [of q s s4 s'] by simp
      qed
    qed
  qed
qed

section \<open>Events of a connection\<close>

text \<open>A block of a connection, with the buffer it owns.\<close>

definition conn_of :: "nat list \<Rightarrow> ep \<Rightarrow> nat \<Rightarrow> user_data \<Rightarrow> nat \<Rightarrow> buffer \<Rightarrow> bool" where
  "conn_of ls s p u a b \<longleftrightarrow> puds s p = Some u \<and> ud_fd u \<notin> set ls \<and> ud_buffer u = Some a \<and> bufs s a = Some b"

lemma conn_of_ok: "ep_okx X base ls s \<Longrightarrow> conn_of ls s p u a b \<Longrightarrow> buf_ok b"
  unfolding ep_okx_def puds_ok_def conn_of_def by (metis option.sel)

text \<open>
  Sending the contents of a buffer, which \<open>b\<close> is: an error or a full socket leads to \<open>cleanup\<close>,
  otherwise the rest stays in the buffer.
\<close>

lemma send_buffer_ok:
  fixes s s1 :: ep
  assumes inv: "ep_ok base ls s" and c: "conn_of ls s p u a b0" and b: "buf_ok b"
    and s1: "fds s1 = fds s" "lim s1 = lim s" "os.more s1 = os.more s" "bufs s1 = (bufs s)(a \<mapsto> b)"
      "third s1 = third s" "\<forall>f. f \<noteq> ud_fd u \<longrightarrow> sent s1 f = sent s f \<and> rcvd s1 f = rcvd s f"
      "\<not> third s \<longrightarrow> rcvd s1 (ud_fd u) = sent s1 (ud_fd u) @ pending b"
    and d: "do_send (ud_fd u) (b_data b) (b_size b) s1 = Inr (r, s2)"
  shows "r \<le> 0 \<Longrightarrow> \<exists>s'. cleanup p s2 = Inr s' \<and> ep_ok base ls s' \<and> keeps p s s'"
    and "0 < r \<Longrightarrow> nat r < b_size b \<Longrightarrow>
      ep_ok base ls (put_buffer a (shift_out (nat r) b) s2) \<and> keeps p s (put_buffer a (shift_out (nat r) b) s2)"
    and "0 < r \<Longrightarrow> \<not> nat r < b_size b \<Longrightarrow>
      ep_ok base ls (put_buffer a (b\<lparr>b_size := 0\<rparr>) s2) \<and> keeps p s (put_buffer a (b\<lparr>b_size := 0\<rparr>) s2)"
proof -
  have u: "puds s p = Some u" "ud_buffer u = Some a" "ud_fd u \<notin> set ls" using c by (auto simp: conn_of_def)
  have fr: "fds s2 = fds s" "lim s2 = lim s" "os.more s2 = os.more s" "bufs s2 = (bufs s)(a \<mapsto> b)"
    "\<And>f. f \<noteq> ud_fd u \<Longrightarrow> sent s2 f = sent s f \<and> rcvd s2 f = rcvd s f" "third s \<longrightarrow> third s2"
    "rcvd s2 = rcvd s1"
    using send_loop_sends [OF d [unfolded do_send_def]] s1 by (auto simp: sends_def)
  have len: "length (pending b) = b_size b" using b by (simp add: pending_def buf_ok_def)
  have log: "\<exists>k\<le>b_size b. rcvd s2 (ud_fd u) = sent s2 (ud_fd u) @ drop k (pending b) \<and> (r = -1 \<or> r = int k)"
    if t: "\<not> third s2"
  proof -
    obtain k where k: "k \<le> b_size b" "sent s2 (ud_fd u) = sent s1 (ud_fd u) @ take k (b_data b)" "r = -1 \<or> r = int k"
      using do_send_exact [OF d t] by blast
    have "take k (b_data b) = take k (pending b)" using k(1) by (simp add: pending_def min_absorb1)
    then show ?thesis using k s1(7) fr(6,7) t by (intro exI [of _ k]) simp
  qed
  show "\<exists>s'. cleanup p s2 = Inr s' \<and> ep_ok base ls s' \<and> keeps p s s'" if "r \<le> 0"
  proof -
    have "ep_okx {p} base ls s2 \<and> keeps p s s2"
      by (rule ep_ok_buffer [OF inv u(1,2) fr(1-4) b]) (use fr log in auto)
    moreover have "puds s2 p = Some u" using ep_more_eq [OF fr(3)] u by simp
    ultimately show ?thesis using cleanup_ok [of p base ls s2 u] u(3) keeps_trans by metis
  qed
  have put: "ep_ok base ls (put_buffer a b' s2) \<and> keeps p s (put_buffer a b' s2)"
    if "buf_ok b'" "\<not> third s2 \<Longrightarrow> rcvd s2 (ud_fd u) = sent s2 (ud_fd u) @ pending b'" for b'
    by (rule ep_ok_buffer [OF inv u(1,2), where b = b']) (use fr that in \<open>auto simp: put_buffer_def\<close>)
  show "ep_ok base ls (put_buffer a (shift_out (nat r) b) s2) \<and> keeps p s (put_buffer a (shift_out (nat r) b) s2)"
    if "0 < r" "nat r < b_size b"
    by (rule put) (use shift_out_ok [OF b, of "nat r"] log that in force)+
  show "ep_ok base ls (put_buffer a (b\<lparr>b_size := 0\<rparr>) s2) \<and> keeps p s (put_buffer a (b\<lparr>b_size := 0\<rparr>) s2)"
    if "0 < r" "\<not> nat r < b_size b"
    by (rule put) (use empty_ok [OF b] log that len in force)+
qed

lemma on_writable_ok:
  assumes inv: "ep_ok base ls s" and c: "conn_of ls s p u a b"
  shows "on_writable p a s = Inl Killed \<or>
    (\<exists>go s'. on_writable p a s = Inr (go, s') \<and> ep_ok base ls s' \<and> keeps p s s' \<and>
      (go \<longrightarrow> (\<exists>b'. conn_of ls s' p u a b')))"
proof -
  note b = conn_of_ok [OF inv c]
  have same: "bufs s = (bufs s)(a \<mapsto> b)" using c unfolding conn_of_def by (metis fun_upd_triv)
  have u: "deref p s = Inr u" "get_buffer a s = Inr b" "puds s p = Some u"
    "\<not> third s \<longrightarrow> rcvd s (ud_fd u) = sent s (ud_fd u) @ pending b"
    "\<forall>f. f \<noteq> ud_fd u \<longrightarrow> sent s f = sent s f \<and> rcvd s f = rcvd s f"
    using c inv by (auto simp: conn_of_def deref_def get_buffer_def ep_okx_def echo_ok_def)
  consider "do_send (ud_fd u) (b_data b) (b_size b) s = Inl Killed" | r s1 where
    "do_send (ud_fd u) (b_data b) (b_size b) s = Inr (r, s1)" "sends (ud_fd u) s s1"
    using do_send_returns [of "b_size b" "b_data b" "ud_fd u" s] b by (metis buf_ok_def)
  then show ?thesis
  proof cases
    case 1
    then show ?thesis using u by (simp add: on_writable_def)
  next
    case d: (2 r s1)
    note snd = send_buffer_ok [OF inv c b refl refl refl same refl u(5,4) d(1)]
    have puds: "puds s1 = puds s" using sends_ep [OF d(2)] by simp
    show ?thesis
    proof (cases "r \<le> 0")
      case True
      have "on_writable p a s = andthen (cleanup p s1) (\<lambda>s2. Inr (False, s2))"
        using u d True by (simp add: on_writable_def)
      then show ?thesis using snd(1) [OF True] by auto
    next
      case False
      define b' where "b' = (if nat r < b_size b then shift_out (nat r) b else b\<lparr>b_size := 0\<rparr>)"
      have "on_writable p a s = Inr (True, put_buffer a b' s1)"
        using u(1,2) d(1) False by (simp add: on_writable_def b'_def)
      moreover have "conn_of ls (put_buffer a b' s1) p u a b'"
        using c puds by (simp add: conn_of_def put_buffer_def)
      moreover have "ep_ok base ls (put_buffer a b' s1) \<and> keeps p s (put_buffer a b' s1)"
        using snd(2,3) False by (simp add: b'_def)
      ultimately show ?thesis by blast
    qed
  qed
qed

lemma recv_loop_ok:
  "ep_ok base ls s \<Longrightarrow> conn_of ls s p u a b \<Longrightarrow> b_size b = 0 \<Longrightarrow>
    recv_loop p a s = Inl Killed \<or> (\<exists>s'. recv_loop p a s = Inr s' \<and> ep_ok base ls s' \<and> keeps p s s')"
proof (induction p a s arbitrary: b rule: recv_loop.induct)
  case (1 p a s)
  note inv = "1.prems"(1) and c = "1.prems"(2)
  note b = conn_of_ok [OF inv c]
  have u: "deref p s = Inr u" "get_buffer a s = Inr b" "puds s p = Some u" "ud_fd u \<notin> set ls"
    "\<not> third s \<Longrightarrow> rcvd s (ud_fd u) = sent s (ud_fd u)"
    using c inv "1.prems"(3)
    by (auto simp: conn_of_def deref_def get_buffer_def ep_okx_def echo_ok_def pending_def)
  obtain x s1 where x: "sys_recv (ud_fd u) s = (x, s1)" by fastforce
  note step = recv_loop.simps [of p a s]
  have stay: "ep_ok base ls (s\<lparr>answers := as\<rparr>) \<and> keeps p s (s\<lparr>answers := as\<rparr>)" for as
    by (rule ep_ok_undone [OF inv]) auto
  have clean: "\<exists>s'. cleanup p (s\<lparr>answers := as\<rparr>) = Inr s' \<and> ep_ok base ls s' \<and> keeps p s s'" for as
  proof -
    have "puds (s\<lparr>answers := as\<rparr>) p = Some u" using u(3) by simp
    then show ?thesis using cleanup_conn [OF conjunct1 [OF stay]] stay u(4) keeps_trans by meson
  qed
  show ?case
  proof (cases x)
    case (Inl e)
    then obtain as where "s1 = s\<lparr>answers := as\<rparr>"
      using x by (auto simp: sys_recv_def split: prod.splits answer.splits dest: ask_upd)
    then show ?thesis using step u x Inl stay clean by (cases e) auto
  next
    case (Inr bs)
    then obtain as where s1: "s1 = s\<lparr>answers := as, rcvd := (rcvd s)(ud_fd u := rcvd s (ud_fd u) @ bs)\<rparr>"
      and len: "length bs \<le> BUF_CAPACITY"
      using x by (auto simp: sys_recv_def split: prod.splits answer.splits dest!: ask_upd)
    show ?thesis
    proof (cases "bs = []")
      case True
      then have "s1 = s\<lparr>answers := as\<rparr>" using s1 by simp
      then show ?thesis using step u x Inr True clean by simp
    next
      case False
      let ?b = "fill bs b" and ?s1 = "put_buffer a (fill bs b) s1"
      note fb = fill_ok [OF b len]
      consider "do_send (ud_fd u) (b_data ?b) (b_size ?b) ?s1 = Inl Killed" | r s2 where
        "do_send (ud_fd u) (b_data ?b) (b_size ?b) ?s1 = Inr (r, s2)" "sends (ud_fd u) ?s1 s2"
        using do_send_returns [of "b_size ?b" "b_data ?b" "ud_fd u" ?s1] fb by (metis buf_ok_def)
      then show ?thesis
      proof cases
        case 1
        then show ?thesis using step u x Inr False by simp
      next
        case d: (2 r s2)
        have "fds ?s1 = fds s" "lim ?s1 = lim s" "os.more ?s1 = os.more s" "bufs ?s1 = (bufs s)(a \<mapsto> ?b)"
          "third ?s1 = third s" "\<forall>f. f \<noteq> ud_fd u \<longrightarrow> sent ?s1 f = sent s f \<and> rcvd ?s1 f = rcvd s f"
          "\<not> third s \<longrightarrow> rcvd ?s1 (ud_fd u) = sent ?s1 (ud_fd u) @ pending ?b"
          using s1 u(5) fb by (simp_all add: put_buffer_def)
        note snd = send_buffer_ok [OF inv c conjunct1 [OF fb] this d(1)]
        have s2: "puds s2 = puds s" using sends_ep [OF d(2)] s1 by (simp add: put_buffer_def)
        let ?s3 = "put_buffer a (?b\<lparr>b_size := 0\<rparr>) s2"
        consider "r \<le> 0" | "0 < r" "nat r < b_size ?b" | "0 < r" "\<not> nat r < b_size ?b" by linarith
        then show ?thesis
        proof cases
          case 1
          then show ?thesis using step u x Inr False d(1) snd(1) by simp
        next
          case 2
          then show ?thesis using step u x Inr False d(1) snd(2) by simp
        next
          case 3
          have conn: "conn_of ls ?s3 p u a (?b\<lparr>b_size := 0\<rparr>)" using c s2 by (simp add: conn_of_def put_buffer_def)
          have nr: "\<not> r \<le> 0" using 3(1) by simp
          have "recv_loop p a s = recv_loop p a ?s3" using step u x Inr False d(1) 3 by simp
          then consider "recv_loop p a s = Inl Killed"
            | s' where "recv_loop p a s = Inr s'" "ep_ok base ls s'" "keeps p ?s3 s'"
            using "1.IH" [OF u(1,2) x [symmetric] Inr False d(1) refl nr 3(2) conjunct1 [OF snd(3) [OF 3]] conn]
            by auto
          then show ?thesis using keeps_trans [OF conjunct2 [OF snd(3) [OF 3]]] by cases blast+
        qed
      qed
    qed
  qed
qed

section \<open>Events\<close>

lemma handle_event_ok:
  assumes inv: "ep_ok base ls s" and u: "puds s p = Some u"
  shows "handle_event ls ev p s = Inl Killed \<or>
    (\<exists>stop s'. handle_event ls ev p s = Inr (stop, s') \<and> ep_ok base ls s' \<and> keeps p s s')"
proof (cases "ud_fd u \<in> set ls")
  case True
  then show ?thesis
    using accept_loop_ok [OF inv u, of p] u by (auto simp: handle_event_def deref_def)
next
  case False
  obtain a b where c: "conn_of ls s p u a b"
    using inv u False unfolding conn_of_def ep_okx_def puds_ok_def by (metis not_Some_eq)
  then have d: "deref p s = Inr u" "the_buf u = Inr a" "get_buffer a s = Inr b"
    by (simp_all add: conn_of_def deref_def the_buf_def get_buffer_def)
  obtain s' where clean: "cleanup p s = Inr s'" "ep_ok base ls s'" "keeps p s s'"
    using cleanup_conn [OF inv u False] by blast
  show ?thesis
  proof (cases "ev AND EPOLLRDHUP \<noteq> 0 \<or> ev AND EPOLLHUP \<noteq> 0 \<or> \<not> (ev AND EPOLLIN \<noteq> 0 \<or> ev AND EPOLLOUT \<noteq> 0)")
    case True
    then show ?thesis using clean d False by (auto simp: handle_event_def)
  next
    case io: False
    define out where "out = (if ev AND EPOLLOUT \<noteq> 0 \<and> 0 < b_size b then on_writable p a s else Inr (True, s))"
    consider "out = Inl Killed" | go s1 where "out = Inr (go, s1)" "ep_ok base ls s1" "keeps p s s1"
      "go \<longrightarrow> (\<exists>b'. conn_of ls s1 p u a b')"
      using on_writable_ok [OF inv c] inv c by (cases "ev AND EPOLLOUT \<noteq> 0 \<and> 0 < b_size b") (auto simp: out_def)
    note out = this
    have step: "handle_event ls ev p s = andthen out (\<lambda>(go, s1).
        if \<not> go then Inr (False, s1)
        else andthen (get_buffer a s1) (\<lambda>b1.
          if ev AND EPOLLIN \<noteq> 0 \<and> b_size b1 = 0
          then andthen (recv_loop p a s1) (\<lambda>s2. Inr (False, s2)) else Inr (False, s1)))"
      using d False io by (simp add: handle_event_def out_def)
    from out show ?thesis
    proof cases
      case 1
      then show ?thesis using step by simp
    next
      case s1: (2 go s1)
      show ?thesis
      proof (cases go)
        case False
        then show ?thesis using step s1 by auto
      next
        case True
        then obtain b' where b': "conn_of ls s1 p u a b'" using s1(4) by blast
        then have g: "get_buffer a s1 = Inr b'" by (simp add: conn_of_def get_buffer_def)
        show ?thesis
        proof (cases "ev AND EPOLLIN \<noteq> 0 \<and> b_size b' = 0")
          case recv: True
          then consider "recv_loop p a s1 = Inl Killed"
            | s2 where "recv_loop p a s1 = Inr s2" "ep_ok base ls s2" "keeps p s1 s2"
            using recv_loop_ok [OF s1(2) b'] by blast
          then show ?thesis using step s1(1) True g recv keeps_trans [OF s1(3)] by cases auto
        next
          case False
          then show ?thesis using step s1 True g by auto
        qed
      qed
    qed
  qed
qed

lemma handle_events_ok:
  "ep_ok base ls s \<Longrightarrow> distinct (map snd evs) \<Longrightarrow> \<forall>p\<in>snd ` set evs. puds s p \<noteq> None \<Longrightarrow>
    handle_events ls evs s = Inl Killed \<or>
    (\<exists>stop s'. handle_events ls evs s = Inr (stop, s') \<and> ep_ok base ls s' \<and> epfd s' = epfd s)"
proof (induction evs arbitrary: s)
  case (Cons e evs)
  obtain ev p where e: "e = (ev, p)" by fastforce
  obtain u where "puds s p = Some u" using Cons.prems(3) e by auto
  then consider "handle_event ls ev p s = Inl Killed"
    | stop s1 where "handle_event ls ev p s = Inr (stop, s1)" "ep_ok base ls s1" "keeps p s s1"
    using handle_event_ok [OF Cons.prems(1)] by blast
  then show ?case
  proof cases
    case 1
    then show ?thesis by (simp add: e)
  next
    case s1: (2 stop s1)
    have "puds s1 q \<noteq> None" if "q \<in> snd ` set evs" for q
    proof -
      have "q \<noteq> p" "puds s q \<noteq> None" using Cons.prems(2,3) e that by auto
      then show ?thesis using s1(3) by (simp add: keeps_def)
    qed
    then show ?thesis using Cons.IH [OF s1(2)] Cons.prems(2) s1 e by (auto simp: keeps_def)
  qed
qed auto

lemma ready_ok:
  assumes "ep_ok base ls s"
  shows "distinct (map snd (ready batch s)) \<and> (\<forall>p\<in>snd ` set (ready batch s). puds s p \<noteq> None)"
proof -
  define f where "f = (\<lambda>fd. case interest s fd of None \<Rightarrow> None
    | Some (m, p) \<Rightarrow> map_option (\<lambda>ev. (ev, p)) (map_of batch fd))"
  have pud: "\<exists>u. puds s p = Some u \<and> ud_fd u = fd" if "f fd = Some (ev, p)" for fd ev p
    using assms that unfolding f_def ep_okx_def reg_ok_def by (auto split: option.splits)
  have "distinct (map snd (List.map_filter f fs)) \<and>
      (\<forall>x\<in>set (List.map_filter f fs). \<exists>u. puds s (snd x) = Some u \<and> ud_fd u \<in> set fs)"
    if "distinct fs" for fs
    using that
  proof (induction fs)
    case (Cons fd fs)
    then show ?case
    proof (cases "f fd")
      case (Some x)
      then obtain ev p where x: "f fd = Some (ev, p)" by (cases x) auto
      then show ?thesis using Cons pud [OF x] by (fastforce simp: map_filter_simps)
    qed (auto simp: map_filter_simps)
  qed (simp add: map_filter_simps)
  from this [of "remdups (map fst batch)"] show ?thesis
    unfolding ready_def f_def [symmetric] by (auto simp: take_map [symmetric] dest!: in_set_takeD)
qed

section \<open>The loop\<close>

lemma ep_ok_closing: "ep_ok base ls s \<Longrightarrow> closing_ok ls s"
  by (auto simp: ep_okx_def reg_ok_def echo_ok_def closing_ok_def)

lemma poll_loop_ok:
  "ep_ok base ls s \<Longrightarrow> epfd s \<in> base \<Longrightarrow>
    poll_loop ls ws s = Inl Killed \<or>
    (\<exists>r s'. poll_loop ls ws s = Inr (r, s') \<and> closing_ok ls s' \<and> (\<forall>k. r = Some k \<longrightarrow> k \<in> {0, 6}) \<and>
      (r = None \<longrightarrow> epfd s' = epfd s \<and> ep_ok base ls s'))"
proof (induction ls ws s rule: poll_loop.induct)
  case (1 ls s)
  then show ?case using ep_ok_closing by auto
next
  case (2 ls ws s)
  then show ?case using ep_ok_closing by auto
next
  case (3 ls batch ws s)
  consider "handle_events ls (ready batch s) s = Inl Killed" | stop s1 where
    "handle_events ls (ready batch s) s = Inr (stop, s1)" "ep_ok base ls s1" "epfd s1 = epfd s"
    using handle_events_ok ready_ok "3.prems"(1) by metis
  then show ?case
  proof cases
    case 1
    then show ?thesis by simp
  next
    case s1: (2 stop s1)
    show ?thesis
    proof (cases stop)
      case True
      have e: "epfd s1 \<in> set (fds s1)" "epfd s1 \<notin> set ls"
        using s1 "3.prems"(2) unfolding ep_okx_def reg_ok_def by auto
      then have "closing_ok ls (s1\<lparr>fds := remove1 (epfd s1) (fds s1)\<rparr>)"
        using ep_ok_closing [OF s1(2)] by (auto simp: closing_ok_def)
      then show ?thesis using s1(1) True e by (simp add: sys_close_def)
    next
      case False
      then show ?thesis using "3.IH" [OF s1(1) refl] s1 "3.prems"(2) by simp
    qed
  qed
qed

lemma ep_ok_listen:
  fixes s s' :: ep
  assumes inv: "ep_ok base ls s" and l: "l \<in> base"
    and s': "s' = s\<lparr>answers := as, lim := Suc (lim s), puds := (puds s)(lim s \<mapsto> \<lparr>ud_fd = l, ud_buffer = None\<rparr>),
        interest := (interest s)(l \<mapsto> (m, lim s))\<rparr>"
  shows "ep_ok (base - {l}) (l # ls) s'"
proof -
  have l': "interest s l = None" using inv l unfolding ep_okx_def reg_ok_def by auto
  have below: "q < lim s \<and> ud_fd v \<noteq> l" if "puds s q = Some v" for q v
    using inv that l' unfolding ep_okx_def puds_ok_def by (metis option.distinct(1))
  have low: "q < lim s" if "interest s f = Some (m', q)" for f m' q
    using inv that below unfolding ep_okx_def reg_ok_def by blast
  have "reg_ok (base - {l}) (l # ls) s'"
    using inv l l' unfolding ep_okx_def reg_ok_def s' by (auto dest: low)
  moreover have "puds_ok (l # ls) s'"
    using inv below unfolding ep_okx_def puds_ok_def s' by (auto simp: less_SucI)
  moreover have "bufs_ok s'"
    using inv below unfolding ep_okx_def bufs_ok_def s' by (simp add: less_SucI) (metis less_irrefl)
  moreover have "single_ok s'"
    using inv unfolding ep_okx_def single_ok_def s' by (simp split: if_splits)
  moreover have "echo_ok {} s'" using inv unfolding ep_okx_def echo_ok_def s' by simp
  ultimately show ?thesis by (simp add: ep_okx_def)
qed

lemma ep_ok_cong: "set ls = set ls' \<Longrightarrow> ep_okx X base ls s \<longleftrightarrow> ep_okx X base ls' s"
  by (simp add: ep_okx_def reg_ok_def puds_ok_def)

lemma add_listeners_ok:
  "ep_ok base ds s \<Longrightarrow> distinct ls \<Longrightarrow> set ls \<subseteq> base \<Longrightarrow>
    \<exists>ok s'. add_listeners ls s = (ok, s') \<and> epfd s' = epfd s \<and> fds s' = fds s \<and>
      (closing_ok xs s \<longrightarrow> closing_ok xs s') \<and>
      (ok \<longrightarrow> ep_ok (base - set ls) (ls @ ds) s')"
proof (induction ls arbitrary: base ds s)
  case (Cons l ls)
  obtain r s1 where r: "ep_add l (EPOLLIN OR EPOLLET) None s = (r, s1)" by fastforce
  show ?case
  proof (cases "r < 0")
    case True
    then obtain as where "s1 = s\<lparr>answers := as\<rparr> \<or>
        s1 = s\<lparr>answers := as, lim := Suc (lim s), puds := (puds s)(lim s := None)\<rparr>"
      using ep_add_upd [OF r] by blast
    then show ?thesis using r True by (auto simp: closing_ok_def)
  next
    case False
    then obtain as where s1: "s1 = s\<lparr>answers := as, lim := Suc (lim s),
        puds := (puds s)(lim s \<mapsto> \<lparr>ud_fd = l, ud_buffer = None\<rparr>), interest := (interest s)(l \<mapsto> (EPOLLIN OR EPOLLET, lim s))\<rparr>"
      using ep_add_upd [OF r] by blast
    have "ep_ok (base - {l}) (l # ds) s1"
      by (rule ep_ok_listen [OF Cons.prems(1) _ s1]) (use Cons.prems(3) in simp)
    then obtain ok s' where s': "add_listeners ls s1 = (ok, s')" "epfd s' = epfd s1" "fds s' = fds s1"
      "closing_ok xs s1 \<longrightarrow> closing_ok xs s'"
      "ok \<longrightarrow> ep_ok (base - {l} - set ls) (ls @ l # ds) s'"
      using Cons.IH [of "base - {l}" "l # ds" s1] Cons.prems(2,3) by auto
    moreover have "base - {l} - set ls = base - set (l # ls)" by auto
    moreover have "closing_ok xs s \<longrightarrow> closing_ok xs s1" using s1 by (simp add: closing_ok_def)
    ultimately show ?thesis
      using r False s1 ep_ok_cong [of "ls @ l # ds" "(l # ls) @ ds"] by simp
  qed
qed auto

end
