(* ===== verification/ShoutKqueue.thy ===== *)
theory ShoutKqueue
  imports ShoutOs
begin

unbundle bit_operations_syntax

text \<open>
  The BSD event loop of \<open>shout_server.c\<close> (\<open>kq_change\<close>, \<open>cleanup\<close>, \<open>queue\<close>). The kernel's filters
  are keyed by descriptor and filter; an entry says whether it is enabled and holds the \<open>udata\<close>
  it hands back, here the address of the connection's buffer.
\<close>

datatype filt = EVFILT_READ | EVFILT_WRITE

definition EV_ADD :: "16 word" where "EV_ADD = 0x0001"
definition EV_DELETE :: "16 word" where "EV_DELETE = 0x0002"
definition EV_ENABLE :: "16 word" where "EV_ENABLE = 0x0004"
definition EV_DISABLE :: "16 word" where "EV_DISABLE = 0x0008"
definition EV_KEEPUDATA :: "16 word" where "EV_KEEPUDATA = 0x0200"
definition EV_EOF :: "16 word" where "EV_EOF = 0x8000"
definition EV_ERROR :: "16 word" where "EV_ERROR = 0x4000"

record kq = os +
  kqfd :: nat
  filters :: "nat \<times> filt \<rightharpoonup> bool \<times> nat option"

record kevent =
  ke_ident :: nat
  ke_filter :: filt
  ke_flags :: "16 word"
  ke_fflags :: u32
  ke_udata :: "nat option"

definition KQ_MAX_EVENTS :: nat where
  "KQ_MAX_EVENTS = 100"

text \<open>
  What the kernel does with one change: an entry is added if the flags say so and must be there
  otherwise; \<open>EV_KEEPUDATA\<close> keeps the \<open>udata\<close> of an entry that is there.
\<close>

definition change :: "nat \<Rightarrow> filt \<Rightarrow> 16 word \<Rightarrow> nat option \<Rightarrow> (nat \<times> filt \<rightharpoonup> bool \<times> nat option) \<Rightarrow>
    (nat \<times> filt \<rightharpoonup> bool \<times> nat option) option" where
  "change fd f flags udata ents =
     (case ents (fd, f) of
        None \<Rightarrow> if flags AND EV_ADD \<noteq> 0
               then Some (ents((fd, f) \<mapsto> (flags AND EV_DISABLE = 0, udata))) else None
      | Some (on, d) \<Rightarrow>
          if flags AND EV_DELETE \<noteq> 0 then Some (ents((fd, f) := None))
          else Some (ents((fd, f) \<mapsto>
            (if flags AND EV_DISABLE \<noteq> 0 then False else if flags AND EV_ENABLE \<noteq> 0 then True else on,
             if flags AND EV_KEEPUDATA \<noteq> 0 then d else udata))))"

definition kq_change :: "nat \<Rightarrow> filt \<Rightarrow> 16 word \<Rightarrow> nat option \<Rightarrow> kq \<Rightarrow> int \<times> kq" where
  "kq_change fd f flags udata s =
     (let (ok, s') = call s
      in case (if ok then change fd f flags udata (filters s') else None) of
           None \<Rightarrow> (-1, s')
         | Some ents \<Rightarrow> (0, s'\<lparr>filters := ents\<rparr>))"

text \<open>\<open>cleanup\<close>: both entries are deleted, where they are there, then descriptor and buffer go.\<close>

definition kq_delete :: "nat \<Rightarrow> filt \<Rightarrow> kq \<Rightarrow> kq" where
  "kq_delete fd f s =
     (case change fd f EV_DELETE None (filters s) of None \<Rightarrow> s | Some ents \<Rightarrow> s\<lparr>filters := ents\<rparr>)"

definition kq_cleanup :: "nat \<Rightarrow> nat option \<Rightarrow> kq \<Rightarrow> kq res" where
  "kq_cleanup fd buf s =
     andthen (sys_close fd (kq_delete fd EVFILT_WRITE (kq_delete fd EVFILT_READ s))) (free_if buf)"

section \<open>New connections\<close>

lemma kq_change_answers: "kq_change fd f flags udata s = (r, s') \<Longrightarrow> length (answers s') \<le> length (answers s)"
  by (auto simp: kq_change_def Let_def split: prod.splits option.splits if_splits dest!: call_answers)

function kq_accept_loop :: "nat \<Rightarrow> kq \<Rightarrow> kq res" where
  "kq_accept_loop fd s =
     (case sys_accept s of
       (Inl e, s1) \<Rightarrow> Inr s1
     | (Inr conn_sockfd, s1) \<Rightarrow>
         (case set_nonblocking s1 of (r, s2) \<Rightarrow>
          if r < 0 then sys_close conn_sockfd s2
          else (case calloc_buffer s2 of
              (None, s3) \<Rightarrow> Inr s3
            | (Some new_buf, s3) \<Rightarrow>
                (case kq_change conn_sockfd EVFILT_READ (EV_ADD OR EV_ENABLE) (Some new_buf) s3 of (r', s4) \<Rightarrow>
                 if r' < 0 then andthen (sys_close conn_sockfd s4) (free_buffer new_buf)
                 else kq_accept_loop fd s4))))"
  by pat_completeness auto
termination
proof (relation "measure (\<lambda>(fd, s). length (answers s))", goal_cases)
  case (2 fd s x s1 conn r s2 b s3 buf r' s4)
  have "length (answers s1) < length (answers s)" "length (answers s2) \<le> length (answers s1)"
    "length (answers s3) \<le> length (answers s2)" "length (answers s4) \<le> length (answers s3)"
    using 2 sys_accept_answers set_nonblocking_answers calloc_buffer_answers kq_change_answers by metis+
  then show ?case by simp
qed simp

declare kq_accept_loop.simps [simp del]

section \<open>Events of a connection\<close>

definition the_udata :: "nat option \<Rightarrow> nat res" where
  "the_udata buf = (case buf of None \<Rightarrow> Inl NullDeref | Some a \<Rightarrow> Inr a)"

text \<open>\<open>EVFILT_WRITE\<close>: the rest of the buffer; once it is out, reading is switched on again.\<close>

definition kq_write :: "nat \<Rightarrow> nat \<Rightarrow> kq \<Rightarrow> kq res" where
  "kq_write fd a s =
     andthen (get_buffer a s) (\<lambda>b.
     andthen (do_send fd (b_data b) (b_size b) s) (\<lambda>(sent, s1).
       if 0 \<ge> sent then kq_cleanup fd (Some a) s1
       else if nat sent < b_size b then Inr (put_buffer a (shift_out (nat sent) b) s1)
       else (case kq_change fd EVFILT_WRITE (EV_DISABLE OR EV_KEEPUDATA) None (put_buffer a (b\<lparr>b_size := 0\<rparr>) s1) of
          (r, s2) \<Rightarrow>
            if r < 0 then kq_cleanup fd (Some a) s2
            else (case kq_change fd EVFILT_READ (EV_ENABLE OR EV_KEEPUDATA) None s2 of
               (r', s3) \<Rightarrow> if r' < 0 then kq_cleanup fd (Some a) s3 else Inr s3))))"

text \<open>After a partial \<open>do_send\<close> in the loop below: reading is switched off, writing on.\<close>

definition kq_to_write :: "nat \<Rightarrow> nat \<Rightarrow> kq \<Rightarrow> kq res" where
  "kq_to_write fd a s =
     (case kq_change fd EVFILT_READ (EV_DISABLE OR EV_KEEPUDATA) None s of
        (r, s1) \<Rightarrow>
          if r < 0 then kq_cleanup fd (Some a) s1
          else (case kq_change fd EVFILT_WRITE (EV_ADD OR EV_ENABLE) (Some a) s1 of
             (r', s2) \<Rightarrow> if r' < 0 then kq_cleanup fd (Some a) s2 else Inr s2))"

function kq_recv_loop :: "nat \<Rightarrow> nat \<Rightarrow> kq \<Rightarrow> kq res" where
  "kq_recv_loop fd a s =
     andthen (get_buffer a s) (\<lambda>b.
     case sys_recv fd s of
       (Inl EAGAIN, s1) \<Rightarrow> Inr s1
     | (Inl EOther, s1) \<Rightarrow> kq_cleanup fd (Some a) s1
     | (Inr bs, s1) \<Rightarrow>
         if bs = [] then kq_cleanup fd (Some a) s1
         else andthen (do_send fd (b_data (fill bs b)) (b_size (fill bs b)) (put_buffer a (fill bs b) s1))
           (\<lambda>(sent, s2).
             if 0 \<ge> sent then kq_cleanup fd (Some a) s2
             else if nat sent < b_size (fill bs b)
             then kq_to_write fd a (put_buffer a (shift_out (nat sent) (fill bs b)) s2)
             else kq_recv_loop fd a (put_buffer a ((fill bs b)\<lparr>b_size := 0\<rparr>) s2)))"
  by pat_completeness auto
termination
proof (relation "measure (\<lambda>(fd, a, s). length (answers s))", goal_cases)
  case (2 fd a s b x s1 bs y sent s2)
  have "length (answers s1) < length (answers s)" using 2 sys_recv_answers by metis
  moreover have "length (answers s2) \<le> length (answers (put_buffer a (fill bs b) s1))"
    using 2 do_send_answers by metis
  ultimately show ?case by (simp add: put_buffer_def)
qed simp

declare kq_recv_loop.simps [simp del]

text \<open>One event: \<open>True\<close> where it ends the server (\<open>goto end\<close>).\<close>

definition kq_handle :: "nat list \<Rightarrow> kevent \<Rightarrow> kq \<Rightarrow> (bool \<times> kq) res" where
  "kq_handle lsockfds ev s =
     (let fd = ke_ident ev; buf = ke_udata ev
      in if ke_fflags ev AND ucast EV_EOF \<noteq> 0 \<or> ke_fflags ev AND ucast EV_ERROR \<noteq> 0
         then andthen (kq_cleanup fd buf s) (\<lambda>s'. Inr (False, s'))
         else if is_lsockfd fd lsockfds then andthen (kq_accept_loop fd s) (\<lambda>s'. Inr (False, s'))
         else if ke_filter ev = EVFILT_WRITE
         then andthen (the_udata buf) (\<lambda>a. andthen (get_buffer a s) (\<lambda>b.
           if 0 < b_size b then andthen (kq_write fd a s) (\<lambda>s'. Inr (False, s'))
           else andthen (kq_cleanup fd buf s) (\<lambda>s'. Inr (True, s'))))
         else andthen (the_udata buf) (\<lambda>a. andthen (get_buffer a s) (\<lambda>b.
           if b_size b = 0 then andthen (kq_recv_loop fd a s) (\<lambda>s'. Inr (False, s'))
           else andthen (kq_cleanup fd buf s) (\<lambda>s'. Inr (True, s')))))"

fun kq_handle_all :: "nat list \<Rightarrow> kevent list \<Rightarrow> kq \<Rightarrow> (bool \<times> kq) res" where
  "kq_handle_all lsockfds [] s = Inr (False, s)"
| "kq_handle_all lsockfds (ev # evs) s =
     andthen (kq_handle lsockfds ev s) (\<lambda>(stop, s').
       if stop then Inr (True, s') else kq_handle_all lsockfds evs s')"

section \<open>The loop\<close>

text \<open>
  What \<open>kevent\<close> returns when the filters of a batch have events, each with its flags and the
  socket's error: one event for each of them that is enabled, with its \<open>udata\<close>. An error number
  fits a byte.
\<close>

datatype kwait = Kwait_error | Kwait_events "((nat \<times> filt) \<times> 16 word \<times> u8) list"

definition kq_ready :: "((nat \<times> filt) \<times> 16 word \<times> u8) list \<Rightarrow> kq \<Rightarrow> kevent list" where
  "kq_ready batch s = take KQ_MAX_EVENTS (List.map_filter (\<lambda>k.
     case filters s k of
       Some (True, d) \<Rightarrow> map_option (\<lambda>(flags, e). \<lparr>ke_ident = fst k, ke_filter = snd k, ke_flags = flags,
           ke_fflags = ucast e, ke_udata = d\<rparr>) (map_of batch k)
     | _ \<Rightarrow> None) (remdups (map fst batch)))"

fun queue_loop :: "nat list \<Rightarrow> kwait list \<Rightarrow> kq \<Rightarrow> (int option \<times> kq) res" where
  "queue_loop lsockfds [] s = Inr (None, s)"
| "queue_loop lsockfds (Kwait_error # ws) s = Inr (Some 6, s)"
| "queue_loop lsockfds (Kwait_events batch # ws) s =
     andthen (kq_handle_all lsockfds (kq_ready batch s) s) (\<lambda>(stop, s').
       if stop then andthen (sys_close (kqfd s') s') (\<lambda>s''. Inr (Some 0, s''))
       else queue_loop lsockfds ws s')"

fun kq_listen_all :: "nat list \<Rightarrow> kq \<Rightarrow> bool \<times> kq" where
  "kq_listen_all [] s = (True, s)"
| "kq_listen_all (l # ls) s =
     (case kq_change l EVFILT_READ (EV_ADD OR EV_ENABLE) None s of (r, s') \<Rightarrow>
       if r < 0 then (False, s') else kq_listen_all ls s')"

definition queue_bsd :: "kwait list \<Rightarrow> nat list \<Rightarrow> kq \<Rightarrow> (int option \<times> kq) res" where
  "queue_bsd ws lsockfds s =
     (case sys_socket s of
        (None, s1) \<Rightarrow> Inr (Some 4, s1)
      | (Some k, s1) \<Rightarrow>
          (case kq_listen_all lsockfds (s1\<lparr>kqfd := k\<rparr>) of
             (False, s2) \<Rightarrow> Inr (Some 5, s2)
           | (True, s2) \<Rightarrow> queue_loop lsockfds ws s2))"

end
