(* ===== verification/ShoutPipe.thy ===== *)
theory ShoutPipe
  imports ShoutEpoll ShoutKqueue ShoutMain
begin

text \<open>
  What can kill the shout server: only a script with a \<open>Pipe\<close> in it. A run consumes its script
  from the front, so what is left of one without a \<open>Pipe\<close> has none, and without one no operation
  of either event loop ends in \<open>Killed\<close>.
\<close>

definition np :: "'a os_scheme \<Rightarrow> bool" where
  "np s \<longleftrightarrow> Pipe \<notin> set (answers s)"

text \<open>An outcome without a kill, whose state \<open>st\<close> again has no \<open>Pipe\<close> to come.\<close>

definition survives :: "('b \<Rightarrow> 'a os_scheme) \<Rightarrow> 'b res \<Rightarrow> bool" where
  "survives st r \<longleftrightarrow> (case r of Inl e \<Rightarrow> e \<noteq> Killed | Inr x \<Rightarrow> np (st x))"

lemma survives_Inr [simp]: "survives st (Inr x) = np (st x)"
  by (simp add: survives_def)

lemma survives_Inl [simp]: "survives st (Inl e) = (e \<noteq> Killed)"
  by (simp add: survives_def)

lemma survives_andthen:
  assumes "survives st r" and "\<And>x. r = Inr x \<Longrightarrow> np (st x) \<Longrightarrow> survives st' (f x)"
  shows "survives st' (andthen r f)"
  using assms by (cases r) auto

lemma survives_pure:
  assumes "r \<noteq> Inl Killed" and "\<And>x. r = Inr x \<Longrightarrow> survives st' (f x)"
  shows "survives st' (andthen r f)"
  using assms by (cases r) auto

section \<open>Calls\<close>

lemma np_upd [simp]:
  "np (s\<lparr>fds := a\<rparr>) = np s" "np (s\<lparr>bufs := b\<rparr>) = np s" "np (s\<lparr>lim := c\<rparr>) = np s"
  "np (s\<lparr>sent := d\<rparr>) = np s" "np (s\<lparr>rcvd := d\<rparr>) = np s" "np (s\<lparr>third := t\<rparr>) = np s"
  by (simp_all add: np_def)

lemma np_ep [simp]:
  "np (s\<lparr>epfd := e\<rparr>) = np s" "np (s\<lparr>interest := i\<rparr>) = np s" "np (s\<lparr>puds := p\<rparr>) = np s"
  by (simp_all add: np_def)

lemma np_kq [simp]: "np (s\<lparr>kqfd := e\<rparr>) = np s" "np (s\<lparr>filters := f\<rparr>) = np s"
  by (simp_all add: np_def)

lemma np_put_buffer [simp]: "np (put_buffer a b s) = np s"
  by (simp add: put_buffer_def)

lemma ask_np: "ask s = (a, s') \<Longrightarrow> np s \<Longrightarrow> a \<noteq> Pipe \<and> np s'"
  by (auto simp: ask_def np_def split: list.splits)

lemma call_np: "call s = (ok, s') \<Longrightarrow> np s \<Longrightarrow> np s'"
  by (auto simp: call_def split: prod.splits dest: ask_np)

lemma calls_np: "calls k s = (ok, s') \<Longrightarrow> np s \<Longrightarrow> np s'"
  by (induction k arbitrary: s) (auto simp: Let_def split: prod.splits if_splits dest: call_np)

lemma sys_socket_np: "sys_socket s = (r, s') \<Longrightarrow> np s \<Longrightarrow> np s'"
  by (auto simp: sys_socket_def Let_def split: prod.splits if_splits dest!: call_np)

lemma sys_accept_np: "sys_accept s = (r, s') \<Longrightarrow> np s \<Longrightarrow> np s'"
  by (auto simp: sys_accept_def Let_def split: prod.splits answer.splits dest!: ask_np)

lemma sys_recv_np: "sys_recv fd s = (r, s') \<Longrightarrow> np s \<Longrightarrow> np s'"
  by (auto simp: sys_recv_def split: prod.splits answer.splits dest!: ask_np)

lemma set_nonblocking_np: "set_nonblocking s = (r, s') \<Longrightarrow> np s \<Longrightarrow> np s'"
  by (auto simp: set_nonblocking_def Let_def split: prod.splits if_splits dest!: call_np)

lemma calloc_buffer_np: "calloc_buffer s = (r, s') \<Longrightarrow> np s \<Longrightarrow> np s'"
  by (auto simp: calloc_buffer_def Let_def split: prod.splits if_splits dest!: call_np)

lemma sys_send_survives: "np s \<Longrightarrow> survives snd (sys_send fd bs s)"
  by (auto simp: sys_send_def split: prod.splits answer.splits dest: ask_np)

lemma sys_close_survives: "np s \<Longrightarrow> survives id (sys_close fd s)"
  by (simp add: sys_close_def)

lemma free_buffer_survives: "np s \<Longrightarrow> survives id (free_buffer a s)"
  by (simp add: free_buffer_def)

lemma free_if_survives: "np s \<Longrightarrow> survives id (free_if p s)"
  by (simp add: free_if_def free_buffer_def split: option.splits)

lemma get_buffer_pure: "get_buffer a s \<noteq> Inl Killed"
  by (simp add: get_buffer_def split: option.splits)

lemma wr_pure: "wr xs i x \<noteq> Inl Killed"
  by (simp add: wr_def)

lemma rd_range_pure: "rd_range data off n \<noteq> Inl Killed"
  by (simp add: rd_range_def)

lemma send_loop_survives: "np s \<Longrightarrow> survives snd (send_loop fd data prev left tot c s)"
proof (induction fd data prev left tot c s rule: send_loop.induct)
  case (1 fd data prev left tot c s)
  show ?case
    unfolding send_loop.simps [of fd data prev left tot c s]
  proof (cases "0 < left"; simp only: if_True if_False)
    assume left: "0 < left"
    show "survives snd (andthen (rd_range data prev left) (\<lambda>bs. andthen (sys_send fd bs s) (\<lambda>r. case r of
          (Inl EAGAIN, s') \<Rightarrow> Inr (int tot, s')
        | (Inl EOther, s') \<Rightarrow> Inr (-1, s')
        | (Inr n, s') \<Rightarrow> send_loop fd data n (left - n) (tot + n) (Suc c) (s'\<lparr>third := third s' \<or> 2 \<le> c\<rparr>))))"
      by (intro survives_pure survives_andthen [OF sys_send_survives [OF "1.prems"]] rd_range_pure)
        (auto split: prod.splits sum.splits errno.splits intro!: "1.IH" [OF left] simp: "1.prems")
  qed (simp_all add: "1.prems")
qed

lemma do_send_survives: "np s \<Longrightarrow> survives snd (do_send fd data left s)"
  by (simp add: do_send_def send_loop_survives)

section \<open>\<open>main\<close>\<close>

lemma listen_loop_survives: "np s \<Longrightarrow> survives (snd \<circ> snd) (listen_loop mx k lfds n s)"
proof (induction k arbitrary: lfds n s)
  case (Suc k)
  obtain f s1 where f: "sys_socket s = (f, s1)" by fastforce
  obtain ok s2 where ok: "calls 3 s1 = (ok, s2)" by fastforce
  have np: "np s1" "np s2" using sys_socket_np [OF f] calls_np [OF ok] Suc.prems by auto
  have "survives (snd \<circ> snd) (andthen (sys_close l s2) (listen_loop mx k lfds n))" for l
    by (rule survives_andthen [OF sys_close_survives [OF np(2)]]) (simp add: Suc.IH)
  moreover have "survives (snd \<circ> snd) (andthen (wr lfds n l) (\<lambda>lfds'. if mx \<le> Suc n then Inr (Suc n, lfds', s2)
      else listen_loop mx k lfds' (Suc n) s2))" for l
    by (rule survives_pure [OF wr_pure]) (simp add: np Suc.IH)
  ultimately show ?case using f ok Suc.IH [OF np(1)] by (auto simp: comp_def split: option.split bool.split)
qed simp

lemma nonblocking_all_np: "nonblocking_all ls s = (ok, s') \<Longrightarrow> np s \<Longrightarrow> np s'"
  by (induction ls arbitrary: s) (auto split: prod.splits if_splits dest: set_nonblocking_np)

lemma close_all_survives: "np s \<Longrightarrow> survives id (close_all ls s)"
  by (induction ls arbitrary: s) (auto intro!: survives_andthen [OF sys_close_survives])

lemma shout_main_survives:
  assumes "\<And>ls t. np t \<Longrightarrow> survives snd (loop ls t)" and "np s"
  shows "survives snd (shout_main loop addrs s)"
proof -
  have init: "survives (snd \<circ> snd) (init_listen_fds addrs arr mx s)" for arr mx
  proof -
    obtain ok s' where ok: "call s = (ok, s')" by fastforce
    then have np: "np s'" using call_np assms(2) by blast
    have "survives (snd \<circ> snd) (andthen (listen_loop mx addrs arr 0 s') (\<lambda>(n, lfds', s''). Inr (int n, lfds', s'')))"
      by (rule survives_andthen [OF listen_loop_survives [OF np]]) auto
    then show ?thesis using ok np by (simp add: init_listen_fds_def)
  qed
  show ?thesis
    unfolding shout_main_def Let_def
    by (rule survives_andthen [OF init])
      (auto split: prod.splits bool.splits option.splits dest: nonblocking_all_np calls_np
        intro!: survives_andthen [OF assms(1)] survives_andthen [OF close_all_survives])
qed

section \<open>The loop of Linux\<close>

lemma ep_add_np: "ep_add fd m buf s = (r, s') \<Longrightarrow> np s \<Longrightarrow> np s'"
  by (auto simp: ep_add_def Let_def split: prod.splits if_splits dest!: call_np)

lemma deref_pure: "deref p s \<noteq> Inl Killed"
  by (simp add: deref_def split: option.splits)

lemma the_buf_pure: "the_buf u \<noteq> Inl Killed"
  by (simp add: the_buf_def split: option.splits)

lemma cleanup_survives: "np s \<Longrightarrow> survives id (cleanup p s)"
  unfolding cleanup_def
  by (intro survives_pure deref_pure survives_andthen [OF sys_close_survives] survives_andthen [OF free_if_survives]) auto

lemma accept_loop_survives: "np s \<Longrightarrow> survives id (accept_loop p s)"
proof (induction p s rule: accept_loop.induct)
  case (1 p s)
  show ?case
    unfolding accept_loop.simps [of p s]
  proof (rule survives_pure [OF deref_pure])
    fix u assume u: "deref p s = Inr u"
    obtain x s1 where x: "sys_accept s = (x, s1)" by fastforce
    obtain r s2 where r: "set_nonblocking s1 = (r, s2)" by fastforce
    obtain m s3 where m: "calloc_buffer s2 = (m, s3)" by fastforce
    have np: "np s1" "np s2" "np s3"
      using sys_accept_np [OF x] set_nonblocking_np [OF r] calloc_buffer_np [OF m] "1.prems" by auto
    have "survives id (case ep_add fd conn_events (Some b) s3 of (r', s4) \<Rightarrow>
        if r' < 0 then andthen (free_buffer b s4) (sys_close fd) else accept_loop p s4)"
      if y: "x = Inr fd" "\<not> r < 0" "m = Some b" for fd b
    proof -
      obtain r' s4 where r': "ep_add fd conn_events (Some b) s3 = (r', s4)" by fastforce
      then have np4: "np s4" using ep_add_np np(3) by blast
      then have "survives id (andthen (free_buffer b s4) (sys_close fd))"
        by (intro survives_andthen [OF free_buffer_survives] sys_close_survives) simp_all
      moreover have "survives id (accept_loop p s4)" if "\<not> r' < 0"
        using "1.IH" [OF u x [symmetric] y(1) r [symmetric] y(2) m [symmetric] y(3) r' [symmetric] that] np4 .
      ultimately show ?thesis using r' by simp
    qed
    then show "survives id (case sys_accept s of (Inl e, s1) \<Rightarrow> Inr s1
     | (Inr conn_sockfd, s1) \<Rightarrow> (case set_nonblocking s1 of (r, s2) \<Rightarrow>
          if r < 0 then sys_close conn_sockfd s2
          else (case calloc_buffer s2 of (None, s3) \<Rightarrow> sys_close conn_sockfd s3
            | (Some buf, s3) \<Rightarrow> (case ep_add conn_sockfd conn_events (Some buf) s3 of (r', s4) \<Rightarrow>
                 if r' < 0 then andthen (free_buffer buf s4) (sys_close conn_sockfd) else accept_loop p s4))))"
      using x r m np sys_close_survives by (auto split: sum.split option.split)
  qed
qed

lemma on_writable_survives: "np s \<Longrightarrow> survives snd (on_writable p a s)"
  unfolding on_writable_def
  by (intro survives_pure deref_pure get_buffer_pure survives_andthen [OF do_send_survives])
    (auto split: prod.splits intro!: survives_andthen [OF cleanup_survives])

lemma recv_loop_survives: "np s \<Longrightarrow> survives id (recv_loop p a s)"
proof (induction p a s rule: recv_loop.induct)
  case (1 p a s)
  show ?case
    unfolding recv_loop.simps [of p a s]
  proof (intro survives_pure deref_pure get_buffer_pure)
    fix u b assume u: "deref p s = Inr u" "get_buffer a s = Inr b"
    obtain x s1 where x: "sys_recv (ud_fd u) s = (x, s1)" by fastforce
    have np: "np s1" using sys_recv_np [OF x "1.prems"] .
    have "survives id (andthen (do_send (ud_fd u) (b_data (fill bs b)) (b_size (fill bs b)) (put_buffer a (fill bs b) s1))
        (\<lambda>(sent, s2). if 0 \<ge> sent then cleanup p s2
           else if nat sent < b_size (fill bs b) then Inr (put_buffer a (shift_out (nat sent) (fill bs b)) s2)
           else recv_loop p a (put_buffer a ((fill bs b)\<lparr>b_size := 0\<rparr>) s2)))"
      if "x = Inr bs" "bs \<noteq> []" for bs
    proof (rule survives_andthen [OF do_send_survives])
      fix y assume y: "do_send (ud_fd u) (b_data (fill bs b)) (b_size (fill bs b)) (put_buffer a (fill bs b) s1) = Inr y"
        "np (snd y)"
      obtain r s2 where r: "y = (r, s2)" by fastforce
      show "survives id (case y of (k, s2) \<Rightarrow> if 0 \<ge> k then cleanup p s2
           else if nat k < b_size (fill bs b) then Inr (put_buffer a (shift_out (nat k) (fill bs b)) s2)
           else recv_loop p a (put_buffer a ((fill bs b)\<lparr>b_size := 0\<rparr>) s2))"
        using "1.IH" [OF u x [symmetric] that y(1) r [symmetric]] y(2) r cleanup_survives by (simp add: id_def)
    qed (simp add: np)
    then show "survives id (case sys_recv (ud_fd u) s of
       (Inl EAGAIN, s1) \<Rightarrow> Inr s1
     | (Inl EOther, s1) \<Rightarrow> cleanup p s1
     | (Inr bs, s1) \<Rightarrow>
         if bs = [] then cleanup p s1
         else andthen (do_send (ud_fd u) (b_data (fill bs b)) (b_size (fill bs b)) (put_buffer a (fill bs b) s1))
           (\<lambda>(sent, s2).
             if 0 \<ge> sent then cleanup p s2
             else if nat sent < b_size (fill bs b)
             then Inr (put_buffer a (shift_out (nat sent) (fill bs b)) s2)
             else recv_loop p a (put_buffer a ((fill bs b)\<lparr>b_size := 0\<rparr>) s2)))"
      using x np cleanup_survives by (auto split: sum.split errno.split)
  qed
qed

lemma handle_event_survives: "np s \<Longrightarrow> survives snd (handle_event ls ev p s)"
  unfolding handle_event_def
  by (intro survives_pure [OF deref_pure])
    (auto split: prod.splits intro!: survives_andthen [OF accept_loop_survives] survives_andthen [OF cleanup_survives]
      survives_pure [OF the_buf_pure] survives_pure [OF get_buffer_pure] survives_andthen [OF on_writable_survives]
      survives_andthen [OF recv_loop_survives])

lemma handle_events_survives: "np s \<Longrightarrow> survives snd (handle_events ls evs s)"
  by (induction ls evs s rule: handle_events.induct)
    (auto split: prod.splits intro!: survives_andthen [OF handle_event_survives])

lemma poll_loop_survives: "np s \<Longrightarrow> survives snd (poll_loop ls ws s)"
  by (induction ls ws s rule: poll_loop.induct)
    (auto split: prod.splits intro!: survives_andthen [OF handle_events_survives] survives_andthen [OF sys_close_survives])

lemma add_listeners_np: "add_listeners ls s = (ok, s') \<Longrightarrow> np s \<Longrightarrow> np s'"
  by (induction ls arbitrary: s) (auto split: prod.splits if_splits dest: ep_add_np)

lemma poll_survives: "np s \<Longrightarrow> survives snd (poll ws ls s)"
  by (auto simp: poll_def split: prod.splits option.splits bool.splits dest!: sys_socket_np add_listeners_np
      intro!: poll_loop_survives)

section \<open>The loop of BSD\<close>

lemma kq_change_np: "kq_change fd f flags udata s = (r, s') \<Longrightarrow> np s \<Longrightarrow> np s'"
  by (auto simp: kq_change_def Let_def split: prod.splits option.splits if_splits dest!: call_np)

lemma kq_delete_np [simp]: "np (kq_delete fd f s) = np s"
  by (simp add: kq_delete_def split: option.splits)

lemma the_udata_pure: "the_udata buf \<noteq> Inl Killed"
  by (simp add: the_udata_def split: option.splits)

lemma kq_cleanup_survives: "np s \<Longrightarrow> survives id (kq_cleanup fd buf s)"
  unfolding kq_cleanup_def
  by (intro survives_andthen [OF sys_close_survives] free_if_survives) simp_all

lemma kq_accept_loop_survives: "np s \<Longrightarrow> survives id (kq_accept_loop fd s)"
proof (induction fd s rule: kq_accept_loop.induct)
  case (1 fd s)
  obtain x s1 where x: "sys_accept s = (x, s1)" by fastforce
  obtain r s2 where r: "set_nonblocking s1 = (r, s2)" by fastforce
  obtain m s3 where m: "calloc_buffer s2 = (m, s3)" by fastforce
  have np: "np s1" "np s2" "np s3"
    using sys_accept_np [OF x] set_nonblocking_np [OF r] calloc_buffer_np [OF m] "1.prems" by auto
  have "survives id (case kq_change c EVFILT_READ (EV_ADD OR EV_ENABLE) (Some b) s3 of (r', s4) \<Rightarrow>
      if r' < 0 then andthen (sys_close c s4) (free_buffer b) else kq_accept_loop fd s4)"
    if y: "x = Inr c" "\<not> r < 0" "m = Some b" for c b
  proof -
    obtain r' s4 where r': "kq_change c EVFILT_READ (EV_ADD OR EV_ENABLE) (Some b) s3 = (r', s4)" by fastforce
    then have np4: "np s4" using kq_change_np np(3) by blast
    then have "survives id (andthen (sys_close c s4) (free_buffer b))"
      by (intro survives_andthen [OF sys_close_survives] free_buffer_survives) simp_all
    moreover have "survives id (kq_accept_loop fd s4)" if "\<not> r' < 0"
      using "1.IH" [OF x [symmetric] y(1) r [symmetric] y(2) m [symmetric] y(3) r' [symmetric] that] np4 .
    ultimately show ?thesis using r' by simp
  qed
  then show ?case
    using x r m np sys_close_survives
    by (auto simp: kq_accept_loop.simps [of fd s] id_def split: sum.split option.split)
qed

lemma kq_write_survives: "np s \<Longrightarrow> survives id (kq_write fd a s)"
  unfolding kq_write_def
  by (intro survives_pure get_buffer_pure survives_andthen [OF do_send_survives])
    (auto split: prod.splits intro!: kq_cleanup_survives dest!: kq_change_np)

lemma kq_to_write_survives: "np s \<Longrightarrow> survives id (kq_to_write fd a s)"
  unfolding kq_to_write_def
  by (auto split: prod.splits intro!: kq_cleanup_survives dest!: kq_change_np)

lemma kq_recv_loop_survives: "np s \<Longrightarrow> survives id (kq_recv_loop fd a s)"
proof (induction fd a s rule: kq_recv_loop.induct)
  case (1 fd a s)
  show ?case
    unfolding kq_recv_loop.simps [of fd a s]
  proof (intro survives_pure get_buffer_pure)
    fix b assume u: "get_buffer a s = Inr b"
    obtain x s1 where x: "sys_recv fd s = (x, s1)" by fastforce
    have np: "np s1" using sys_recv_np [OF x "1.prems"] .
    have "survives id (andthen (do_send fd (b_data (fill bs b)) (b_size (fill bs b)) (put_buffer a (fill bs b) s1))
        (\<lambda>(sent, s2). if 0 \<ge> sent then kq_cleanup fd (Some a) s2
           else if nat sent < b_size (fill bs b) then kq_to_write fd a (put_buffer a (shift_out (nat sent) (fill bs b)) s2)
           else kq_recv_loop fd a (put_buffer a ((fill bs b)\<lparr>b_size := 0\<rparr>) s2)))"
      if "x = Inr bs" "bs \<noteq> []" for bs
    proof (rule survives_andthen [OF do_send_survives])
      fix y assume y: "do_send fd (b_data (fill bs b)) (b_size (fill bs b)) (put_buffer a (fill bs b) s1) = Inr y"
        "np (snd y)"
      obtain r s2 where r: "y = (r, s2)" by fastforce
      show "survives id (case y of (k, s2) \<Rightarrow> if 0 \<ge> k then kq_cleanup fd (Some a) s2
           else if nat k < b_size (fill bs b) then kq_to_write fd a (put_buffer a (shift_out (nat k) (fill bs b)) s2)
           else kq_recv_loop fd a (put_buffer a ((fill bs b)\<lparr>b_size := 0\<rparr>) s2))"
        using "1.IH" [OF u x [symmetric] that y(1) r [symmetric]] y(2) r kq_cleanup_survives kq_to_write_survives
        by (simp add: id_def)
    qed (simp add: np)
    then show "survives id (case sys_recv fd s of
       (Inl EAGAIN, s1) \<Rightarrow> Inr s1
     | (Inl EOther, s1) \<Rightarrow> kq_cleanup fd (Some a) s1
     | (Inr bs, s1) \<Rightarrow>
         if bs = [] then kq_cleanup fd (Some a) s1
         else andthen (do_send fd (b_data (fill bs b)) (b_size (fill bs b)) (put_buffer a (fill bs b) s1))
           (\<lambda>(sent, s2).
             if 0 \<ge> sent then kq_cleanup fd (Some a) s2
             else if nat sent < b_size (fill bs b)
             then kq_to_write fd a (put_buffer a (shift_out (nat sent) (fill bs b)) s2)
             else kq_recv_loop fd a (put_buffer a ((fill bs b)\<lparr>b_size := 0\<rparr>) s2)))"
      using x np kq_cleanup_survives by (auto split: sum.split errno.split)
  qed
qed

lemma kq_handle_survives: "np s \<Longrightarrow> survives snd (kq_handle ls ev s)"
  unfolding kq_handle_def Let_def
  by (auto intro!: survives_andthen [OF kq_accept_loop_survives] survives_andthen [OF kq_cleanup_survives]
      survives_pure [OF the_udata_pure] survives_pure [OF get_buffer_pure] survives_andthen [OF kq_write_survives]
      survives_andthen [OF kq_recv_loop_survives])

lemma kq_handle_all_survives: "np s \<Longrightarrow> survives snd (kq_handle_all ls evs s)"
  by (induction ls evs s rule: kq_handle_all.induct)
    (auto split: prod.splits intro!: survives_andthen [OF kq_handle_survives])

lemma queue_loop_survives: "np s \<Longrightarrow> survives snd (queue_loop ls ws s)"
  by (induction ls ws s rule: queue_loop.induct)
    (auto split: prod.splits intro!: survives_andthen [OF kq_handle_all_survives] survives_andthen [OF sys_close_survives])

lemma kq_listen_all_np: "kq_listen_all ls s = (ok, s') \<Longrightarrow> np s \<Longrightarrow> np s'"
  by (induction ls arbitrary: s) (auto split: prod.splits if_splits dest: kq_change_np)

lemma queue_bsd_survives: "np s \<Longrightarrow> survives snd (queue_bsd ws ls s)"
  by (auto simp: queue_bsd_def split: prod.splits option.splits bool.splits dest!: sys_socket_np kq_listen_all_np
      intro!: queue_loop_survives)

section \<open>Kills\<close>

lemma poll_main_killed:
  "shout_main (poll ws) addrs s = Inl Killed \<Longrightarrow> Pipe \<in> set (answers s)"
  using shout_main_survives [of "poll ws" s addrs] poll_survives by (force simp: np_def)

lemma queue_main_killed:
  "shout_main (queue_bsd ws) addrs s = Inl Killed \<Longrightarrow> Pipe \<in> set (answers s)"
  using shout_main_survives [of "queue_bsd ws" s addrs] queue_bsd_survives by (force simp: np_def)

text \<open>
  A peer that sends something and closes its end at once kills the server: the first \<open>send\<close> of the
  echo raises \<open>SIGPIPE\<close>.
\<close>

lemma closed_peer_kills:
  assumes "deref p s = Inr u" "get_buffer a s = Inr b" and "buf_ok b" and "answers s = Data bs # Pipe # as" "bs \<noteq> []"
  shows "recv_loop p a s = Inl Killed"
proof -
  have "0 < BUF_CAPACITY" by (simp add: BUF_CAPACITY_def)
  then show ?thesis
    using assms
    by (simp add: recv_loop.simps put_buffer_def sys_recv_def ask_def do_send_def
        send_loop.simps rd_range_def sys_send_def fill_def to_upper_case_def buf_ok_def)
qed

end
