(* ===== verification/ShoutEpollClaims.thy ===== *)
theory ShoutEpollClaims
  imports ShoutEpollInv ShoutPipe
begin

text \<open>
  The Linux shout server as a whole: \<open>main\<close> with \<open>poll\<close> from its start on, whatever the kernel
  answers and whichever events it reports, and what \<open>do_send\<close> gets wrong.
\<close>

definition ep_start :: "answer list \<Rightarrow> ep" where
  "ep_start script = \<lparr>answers = script, fds = [0, 1, 2], bufs = Map.empty, lim = 0, sent = (\<lambda>_. []),
     rcvd = (\<lambda>_. []), third = False, epfd = 0, interest = Map.empty, puds = Map.empty\<rparr>"

definition ep_idle :: "ep \<Rightarrow> bool" where
  "ep_idle s \<longleftrightarrow> interest s = Map.empty \<and> puds s = Map.empty \<and> bufs s = Map.empty \<and>
     (\<forall>fd. \<exists>zs. rcvd s fd = sent s fd @ zs)"

text \<open>
  A server that goes on: besides \<open>base\<close> and the epoll descriptor, the open descriptors are those
  of the interest list, and the tables are as \<open>ep_ok\<close> says.
\<close>

definition ep_serving :: "nat set \<Rightarrow> nat list \<Rightarrow> ep \<Rightarrow> bool" where
  "ep_serving base ls s \<longleftrightarrow> epfd s \<notin> base \<and> ep_ok (insert (epfd s) base) ls s"

lemma poll_ok:
  assumes idle: "ep_idle s" and dist: "distinct (fds s)" and ls: "distinct ls" "set ls \<subseteq> set (fds s)"
  shows "poll ws ls s = Inl Killed \<or>
    (\<exists>r s'. poll ws ls s = Inr (r, s') \<and> closing_ok ls s' \<and> (\<forall>k. r = Some k \<longrightarrow> k \<in> {0, 4, 5, 6}) \<and>
      (r = None \<longrightarrow> ep_serving (set (fds s) - set ls) ls s'))"
proof -
  have close: "closing_ok ls t" if "fds t = fds s \<or> (\<exists>e. e \<notin> set (fds s) \<and> fds t = e # fds s)"
    "sent t = sent s" "rcvd t = rcvd s" for t :: ep
    using that idle dist ls by (auto simp: closing_ok_def ep_idle_def)
  obtain ok s0 where call: "call s = (ok, s0)" by fastforce
  obtain as where s0: "s0 = s\<lparr>answers := as\<rparr>" using call_upd [OF call] by blast
  show ?thesis
  proof (cases ok)
    case False
    then have "poll ws ls s = Inr (Some 4, s0)" using call by (simp add: poll_def sys_socket_def)
    then show ?thesis using close [of s0] s0 by simp
  next
    case True
    define e where "e = free_fd (fds s)"
    have e: "e \<notin> set (fds s)" by (simp add: e_def free_fd_fresh)
    define s1 where "s1 = s0\<lparr>fds := e # fds s, epfd := e\<rparr>"
    have run: "poll ws ls s = (case add_listeners ls s1 of (False, s2) \<Rightarrow> Inr (Some 5, s2)
        | (True, s2) \<Rightarrow> poll_loop ls ws s2)"
      using call True s0 by (simp add: poll_def sys_socket_def s1_def e_def)
    have "ep_ok (set (fds s1)) [] s1"
      using idle dist e s0
      by (simp add: s1_def ep_idle_def ep_okx_def reg_ok_def puds_ok_def bufs_ok_def single_ok_def echo_ok_def)
    then obtain ok2 s2 where s2: "add_listeners ls s1 = (ok2, s2)" "epfd s2 = epfd s1" "closing_ok ls s2"
      "ok2 \<longrightarrow> ep_ok (set (fds s1) - set ls) ls s2"
      using add_listeners_ok [of "set (fds s1)" "[]" s1 ls ls] ls close [of s1] s0 e by (auto simp: s1_def)
    have base: "set (fds s1) - set ls = insert (epfd s2) (set (fds s) - set ls)" "epfd s2 \<notin> set (fds s)"
      using s2(2) e ls by (auto simp: s1_def)
    show ?thesis
    proof (cases ok2)
      case False
      then show ?thesis using run s2 by simp
    next
      case True
      then consider "poll_loop ls ws s2 = Inl Killed" | r s3 where
        "\<forall>k. r = Some k \<longrightarrow> k \<in> {0, 6}" "poll_loop ls ws s2 = Inr (r, s3)" "closing_ok ls s3" "epfd s3 = epfd s2 \<or> r \<noteq> None"
        "r = None \<longrightarrow> ep_ok (insert (epfd s2) (set (fds s) - set ls)) ls s3"
        using poll_loop_ok [of "set (fds s1) - set ls" ls s2 ws] s2 base by auto
      then show ?thesis using run s2(1) True base(2) by cases (auto simp: ep_serving_def)
    qed
  qed
qed

interpretation epl: event_loop "poll ws" ep_idle ep_serving "{0, 4, 5, 6}" for ws
proof
  show "ep_idle s \<Longrightarrow> same_but_fds s s' \<Longrightarrow> ep_idle s'" for s s'
    using ep_more_eq [of s' s] by (auto simp: ep_idle_def same_but_fds_def)
  show "ep_idle s \<Longrightarrow> \<exists>zs. rcvd s fd = sent s fd @ zs" for s fd
    by (simp add: ep_idle_def)
qed (rule poll_ok)

lemma ep_start_main:
  "shout_main (poll ws) addrs (ep_start script) = Inl Killed \<and> Pipe \<in> set script \<or>
    (\<exists>r s'. shout_main (poll ws) addrs (ep_start script) = Inr (r, s') \<and>
      (\<not> third s' \<longrightarrow> (\<forall>fd. \<exists>zs. rcvd s' fd = sent s' fd @ zs)) \<and>
      (\<forall>k. r = Some k \<longrightarrow> k \<in> {0, 4, 5, 6} \<union> {1, 2, 3}) \<and>
      (r = None \<longrightarrow>
        (\<exists>ls. distinct ls \<and> ls \<noteq> [] \<and> length ls \<le> MAX_LISTEN_SOCK_FDS \<and> ep_serving {0, 1, 2} ls s')))"
proof -
  have start: "ep_idle (ep_start script)" "distinct (fds (ep_start script))" "set (fds (ep_start script)) = {0, 1, 2}"
    "answers (ep_start script) = script"
    by (auto simp: ep_start_def ep_idle_def)
  show ?thesis
    using epl.main_ok [OF start(1,2), of ws addrs] poll_main_killed [of ws addrs "ep_start script"]
    unfolding start(3,4) by blast
qed

section \<open>The server\<close>

text \<open>
  C3: The Linux server uses its memory and its descriptors right. Whatever the kernel answers and
  whichever events it reports, \<open>main\<close> runs without an access to freed memory, a second release, a
  \<open>close\<close> of a descriptor that is not open or an access outside an array; while it goes on, it
  listens on one to four sockets, and the open descriptors are the standard ones, the epoll
  descriptor and those in the interest list, each of which has its own \<open>user_data\<close> block, and each
  connection its own buffer: nothing leaks. It ends with a status between 0 and 6, unless a \<open>send\<close>
  to a peer that has closed the connection kills it.
\<close>

theorem shout_epoll_safe:
  "case shout_main (poll ws) addrs (ep_start script) of
     Inl e \<Rightarrow> e = Killed \<and> Pipe \<in> set script
   | Inr (r, s) \<Rightarrow> (\<forall>k. r = Some k \<longrightarrow> 0 \<le> k \<and> k \<le> 6) \<and>
       (r = None \<longrightarrow> (\<exists>ls. ls \<noteq> [] \<and> length ls \<le> MAX_LISTEN_SOCK_FDS \<and> ep_serving {0, 1, 2} ls s))"
proof -
  have "\<forall>k. k \<in> {0, 4, 5, 6} \<union> {1, 2, 3} \<longrightarrow> 0 \<le> k \<and> k \<le> (6::int)" by auto
  then show ?thesis using ep_start_main [of ws addrs script] by (elim disjE exE conjE) auto
qed

definition demo_script :: "answer list" where
  "demo_script = replicate 11 Fine @ replicate 6 Fine @ [Again] @ [Data [97, 98], Room 5, Again]"

definition demo_waits :: "wait list" where
  "demo_waits = [Wait_events [(3, EPOLLIN)], Wait_events [(5, EPOLLIN)]]"

lemma demo_run:
  "(case shout_main (poll demo_waits) 1 (ep_start demo_script) of
      Inr (None, s) \<Rightarrow> sent s 5 = [97, 98] \<and> fds s = [5, 4, 3, 0, 1, 2] \<and> \<not> third s | _ \<Rightarrow> False)"
  by code_simp

lemma shout_epoll_safe_witness:
  "\<exists>s ls. shout_main (poll demo_waits) 1 (ep_start demo_script) = Inr (None, s) \<and>
     sent s 5 = [97, 98] \<and> ep_serving {0, 1, 2} ls s"
  using shout_epoll_safe [where ws = demo_waits and addrs = 1 and script = demo_script] demo_run by (auto split: sum.splits prod.splits option.splits)

text \<open>
  C4: The Linux server sends back what it receives. As long as no call of \<open>do_send\<close> has needed a
  third successful \<open>send\<close>, the bytes sent on a connection are a prefix of those received on it, and
  on an open connection exactly those that its buffer does not hold any more.
\<close>

theorem shout_epoll_echo:
  assumes "shout_main (poll ws) addrs (ep_start script) = Inr (r, s)" and "\<not> third s"
  shows "(\<exists>zs. rcvd s fd = sent s fd @ zs) \<and>
    (r = None \<and> puds s p = Some u \<and> ud_buffer u = Some a \<and> bufs s a = Some b \<longrightarrow>
       rcvd s (ud_fd u) = sent s (ud_fd u) @ pending b)"
  using ep_start_main [of ws addrs script] assms by (auto simp: ep_serving_def ep_okx_def echo_ok_def)

lemma shout_epoll_echo_witness:
  "\<exists>s. shout_main (poll demo_waits) 1 (ep_start demo_script) = Inr (None, s) \<and>
     (\<exists>zs. rcvd s 5 = sent s 5 @ zs) \<and> sent s 5 = [97, 98]"
proof -
  obtain s where "shout_main (poll demo_waits) 1 (ep_start demo_script) = Inr (None, s)"
    "sent s 5 = [97, 98]" "\<not> third s"
    using demo_run by (auto split: sum.splits prod.splits option.splits)
  then show ?thesis using shout_epoll_echo [of demo_waits 1 demo_script None s 5] by auto
qed

section \<open>Faults of \<open>do_send\<close>\<close>

lemma send_loop_part:
  assumes "0 < k" "k \<le> left" "prev + left \<le> length data" "answers s = Room k # as"
  shows "send_loop fd data prev left tot c s = send_loop fd data k (left - k) (tot + k) (Suc c)
    (s\<lparr>answers := as, sent := (sent s)(fd := sent s fd @ take k (drop prev data)), third := third s \<or> 2 \<le> c\<rparr>)"
proof -
  have bs: "rd_range data prev left = Inr (take left (drop prev data))" "length (take left (drop prev data)) = left"
    using assms(3) by (simp_all add: rd_range_def)
  have "sys_send fd (take left (drop prev data)) s =
      Inr (Inr k, s\<lparr>answers := as, sent := (sent s)(fd := sent s fd @ take k (drop prev data))\<rparr>)"
    using assms bs(2) by (simp add: sys_send_def ask_def min_def)
  then show ?thesis using assms(1,2) bs(1) by (simp add: send_loop.simps [of fd data prev left])
qed

text \<open>
  C32: The third call of \<open>send\<close> in one \<open>do_send\<close> sends the wrong bytes: they start at the size of
  the second part, not behind the first two. The call still reports success.
\<close>

theorem do_send_third_part:
  assumes "0 < i" "0 < j" "0 < k" and "i + j + k \<le> length data" and "answers s = Room i # Room j # Room k # as"
  shows "\<exists>s'. do_send fd data (i + j + k) s = Inr (int (i + j + k), s') \<and> third s' \<and>
    sent s' fd = sent s fd @ take i data @ take j (drop i data) @ take k (drop j data)"
proof -
  let ?s1 = "s\<lparr>answers := Room j # Room k # as, sent := (sent s)(fd := sent s fd @ take i data)\<rparr>"
  let ?s2 = "?s1\<lparr>answers := Room k # as, sent := (sent ?s1)(fd := sent ?s1 fd @ take j (drop i data))\<rparr>"
  let ?s3 = "?s2\<lparr>answers := as, sent := (sent ?s2)(fd := sent ?s2 fd @ take k (drop j data)), third := True\<rparr>"
  have "do_send fd data (i + j + k) s = send_loop fd data i (j + k) i 1 ?s1"
    using send_loop_part [of i "i + j + k" 0 data s "Room j # Room k # as" fd 0 0] assms
    by (simp add: do_send_def)
  also have "\<dots> = send_loop fd data j k (i + j) 2 ?s2"
    using send_loop_part [of j "j + k" i data ?s1 "Room k # as" fd i 1] assms by (simp add: numeral_2_eq_2)
  also have "\<dots> = send_loop fd data k 0 (i + j + k) 3 ?s3"
    using send_loop_part [of k k j data ?s2 as fd "i + j" 2] assms by (simp add: numeral_3_eq_3)
  also have "\<dots> = Inr (int (i + j + k), ?s3)" by (simp add: send_loop.simps)
  finally show ?thesis by simp
qed

lemma do_send_third_part_witness:
  "\<exists>s'. do_send 5 [1, 2, 3] 3 (ep_start [Room 1, Room 1, Room 1]) = Inr (3, s') \<and> sent s' 5 = [1, 2, 2]"
  using do_send_third_part [of 1 1 1 "[1, 2, 3]" "ep_start [Room 1, Room 1, Room 1]" "[]" 5]
  by (auto simp: ep_start_def numeral_3_eq_3)

text \<open>
  C33: A connection whose peer does not read fast enough is dropped: where the socket has no room
  left, \<open>do_send\<close> returns 0, which the event loop takes for an error, so it closes the connection
  and loses the bytes it has just received.
\<close>

theorem full_socket_drops:
  assumes "puds s p = Some u" "ud_buffer u = Some a" "bufs s a = Some b" "buf_ok b"
    and "distinct (fds s)" "ud_fd u \<in> set (fds s)" and "answers s = Data bs # Again # as" "bs \<noteq> []"
  shows "\<exists>s'. recv_loop p a s = Inr s' \<and> ud_fd u \<notin> set (fds s') \<and> puds s' p = None \<and> bufs s' a = None \<and>
    rcvd s' (ud_fd u) = rcvd s (ud_fd u) @ take BUF_CAPACITY bs \<and> sent s' (ud_fd u) = sent s (ud_fd u)"
proof -
  have "0 < BUF_CAPACITY" by (simp add: BUF_CAPACITY_def)
  then show ?thesis
    using assms
    by (simp add: recv_loop.simps deref_def get_buffer_def put_buffer_def sys_recv_def ask_def do_send_def
        send_loop.simps rd_range_def sys_send_def cleanup_def sys_close_def free_if_def free_buffer_def
        fill_def to_upper_case_def buf_ok_def)
qed

lemma full_socket_drops_witness:
  "\<exists>s'. recv_loop 1 0 ((ep_start [Data [7], Again])\<lparr>fds := [5, 0, 1, 2],
      puds := [1 \<mapsto> \<lparr>ud_fd = 5, ud_buffer = Some 0\<rparr>],
      bufs := [0 \<mapsto> \<lparr>b_size = 0, b_data = replicate BUF_CAPACITY 0\<rparr>]\<rparr>) = Inr s' \<and>
    5 \<notin> set (fds s') \<and> rcvd s' 5 = [7] \<and> sent s' 5 = []"
  using full_socket_drops [of "(ep_start [Data [7], Again])\<lparr>fds := [5, 0, 1, 2],
      puds := [1 \<mapsto> \<lparr>ud_fd = 5, ud_buffer = Some 0\<rparr>],
      bufs := [0 \<mapsto> \<lparr>b_size = 0, b_data = replicate BUF_CAPACITY 0\<rparr>]\<rparr>" 1 "\<lparr>ud_fd = 5, ud_buffer = Some 0\<rparr>" 0
      "\<lparr>b_size = 0, b_data = replicate BUF_CAPACITY 0\<rparr>" "[7]" "[]"]
  by (fastforce simp: ep_start_def buf_ok_def BUF_CAPACITY_def)

end
