(* ===== verification/ShoutKqueueInv.thy ===== *)
theory ShoutKqueueInv
  imports ShoutKqueue ShoutMain
begin

text \<open>
  The invariant of the BSD event loop: each registered connection has its own buffer, and exactly
  one of its two filters is enabled, reading while the buffer is empty and writing while it is not.
\<close>

definition kconn :: "kq \<Rightarrow> nat \<Rightarrow> nat \<Rightarrow> bool \<Rightarrow> buffer \<Rightarrow> bool" where
  "kconn s fd a on b \<longleftrightarrow> filters s (fd, EVFILT_READ) = Some (on, Some a) \<and> bufs s a = Some b"

definition toggled :: "kq \<Rightarrow> nat \<Rightarrow> nat \<Rightarrow> bool \<Rightarrow> buffer \<Rightarrow> bool" where
  "toggled s fd a on b \<longleftrightarrow> (on \<longleftrightarrow> b_size b = 0) \<and>
     (filters s (fd, EVFILT_WRITE) = Some (\<not> on, Some a) \<or> on \<and> filters s (fd, EVFILT_WRITE) = None)"

definition kreg_ok :: "nat set \<Rightarrow> nat list \<Rightarrow> kq \<Rightarrow> bool" where
  "kreg_ok base ls s \<longleftrightarrow> distinct (fds s) \<and> base \<subseteq> set (fds s) \<and> set ls \<subseteq> set (fds s) \<and> set ls \<inter> base = {} \<and>
     (\<forall>fd f. filters s (fd, f) \<noteq> None \<longrightarrow> fd \<in> set (fds s) \<and> fd \<notin> base) \<and>
     (\<forall>l\<in>set ls. filters s (l, EVFILT_READ) = Some (True, None) \<and> filters s (l, EVFILT_WRITE) = None)"

text \<open>The connections \<open>X\<close> are about to be released or changed further.\<close>

definition kconns_ok :: "nat set \<Rightarrow> nat list \<Rightarrow> kq \<Rightarrow> bool" where
  "kconns_ok X ls s \<longleftrightarrow> (\<forall>fd f. fd \<notin> set ls \<longrightarrow> filters s (fd, f) \<noteq> None \<longrightarrow>
     (\<exists>a on b. kconn s fd a on b \<and> buf_ok b \<and> (fd \<notin> X \<longrightarrow> toggled s fd a on b)))"

definition kbufs_ok :: "kq \<Rightarrow> bool" where
  "kbufs_ok s \<longleftrightarrow> (\<forall>a. bufs s a \<noteq> None \<longrightarrow>
     a < lim s \<and> (\<exists>fd on. filters s (fd, EVFILT_READ) = Some (on, Some a)))"

definition ksingle_ok :: "kq \<Rightarrow> bool" where
  "ksingle_ok s \<longleftrightarrow> (\<forall>a fd on fd' on'. filters s (fd, EVFILT_READ) = Some (on, Some a) \<longrightarrow>
     filters s (fd', EVFILT_READ) = Some (on', Some a) \<longrightarrow> fd = fd')"

definition kecho_ok :: "nat set \<Rightarrow> kq \<Rightarrow> bool" where
  "kecho_ok X s \<longleftrightarrow> (\<not> third s \<longrightarrow> (\<forall>fd. \<exists>zs. rcvd s fd = sent s fd @ zs) \<and>
     (\<forall>fd a on b. fd \<notin> X \<longrightarrow> kconn s fd a on b \<longrightarrow> rcvd s fd = sent s fd @ pending b))"

definition kq_okx :: "nat set \<Rightarrow> nat set \<Rightarrow> nat list \<Rightarrow> kq \<Rightarrow> bool" where
  "kq_okx X base ls s \<longleftrightarrow> kreg_ok base ls s \<and> kconns_ok X ls s \<and> kbufs_ok s \<and> ksingle_ok s \<and> kecho_ok X s"

abbreviation kq_ok :: "nat set \<Rightarrow> nat list \<Rightarrow> kq \<Rightarrow> bool" where
  "kq_ok \<equiv> kq_okx {}"

definition kkeeps :: "nat \<Rightarrow> kq \<Rightarrow> kq \<Rightarrow> bool" where
  "kkeeps fd s s' \<longleftrightarrow> kqfd s' = kqfd s \<and>
     (\<forall>fd' f. fd' \<noteq> fd \<longrightarrow> filters s (fd', f) \<noteq> None \<longrightarrow> filters s' (fd', f) = filters s (fd', f))"

lemma kkeeps_refl [simp]: "kkeeps fd s s"
  by (simp add: kkeeps_def)

lemma kkeeps_trans: "kkeeps fd s s' \<Longrightarrow> kkeeps fd s' s'' \<Longrightarrow> kkeeps fd s s''"
  by (simp add: kkeeps_def)

lemma kq_more_eq:
  fixes s s' :: kq
  assumes "os.more s' = os.more s"
  shows "filters s' = filters s \<and> kqfd s' = kqfd s"
  using assms by (cases s, cases s') simp

lemma sends_kq:
  fixes s s' :: kq
  assumes "sends fd s s'"
  shows "filters s' = filters s \<and> kqfd s' = kqfd s"
proof -
  have "os.more s' = os.more s" using assms by (simp add: sends_def)
  then show ?thesis by (rule kq_more_eq)
qed

lemma kreg_open:
  "kq_okx X base ls s \<Longrightarrow> filters s (fd, f) \<noteq> None \<Longrightarrow> fd \<in> set (fds s) \<and> fd \<notin> base"
  unfolding kq_okx_def kreg_ok_def by blast

section \<open>Changes to one connection\<close>

text \<open>
  The buffer, the entries and the bytes of one connection change, everything else stays.
\<close>

lemma kq_ok_update:
  fixes s s' :: kq
  assumes inv: "kq_okx Y base ls s" and c: "kconn s fd a on0 b0" and fd: "fd \<notin> set ls" and Y: "Y \<subseteq> {fd}"
    and same: "fds s' = fds s" "lim s' = lim s" "kqfd s' = kqfd s"
    and ents: "\<And>fd' f. fd' \<noteq> fd \<Longrightarrow> filters s' (fd', f) = filters s (fd', f)"
      "filters s' (fd, EVFILT_READ) = Some (on, Some a)" "fd \<notin> X \<Longrightarrow> toggled s' fd a on b"
    and b: "bufs s' = (bufs s)(a \<mapsto> b)" "buf_ok b"
    and other: "\<And>f. f \<noteq> fd \<Longrightarrow> sent s' f = sent s f \<and> rcvd s' f = rcvd s f" "third s \<longrightarrow> third s'"
    and cur: "\<not> third s' \<Longrightarrow> \<exists>zs. rcvd s' fd = sent s' fd @ zs \<and> (fd \<notin> X \<longrightarrow> zs = pending b)"
  shows "kq_okx X base ls s' \<and> kkeeps fd s s'"
proof -
  have reg: "filters s (fd, EVFILT_READ) = Some (on0, Some a)" using c by (simp add: kconn_def)
  have other_a: "a' \<noteq> a" if "filters s (fd', EVFILT_READ) = Some (on', Some a')" "fd' \<noteq> fd" for fd' on' a'
    using inv reg that unfolding kq_okx_def ksingle_ok_def by blast
  have "kreg_ok base ls s'"
    unfolding kreg_ok_def
  proof (intro conjI allI impI ballI)
    fix fd' f
    assume "filters s' (fd', f) \<noteq> None"
    then have "\<exists>f. filters s (fd', f) \<noteq> None" using ents(1) reg by (cases "fd' = fd") auto
    then show "fd' \<in> set (fds s')" "fd' \<notin> base" using inv same unfolding kq_okx_def kreg_ok_def by auto
  next
    fix l assume l: "l \<in> set ls"
    then have "l \<noteq> fd" using fd by blast
    with l show "filters s' (l, EVFILT_READ) = Some (True, None)" "filters s' (l, EVFILT_WRITE) = None"
      using inv ents(1) [of l] unfolding kq_okx_def kreg_ok_def by auto
  qed (use inv same in \<open>auto simp: kq_okx_def kreg_ok_def\<close>)
  moreover have "kconns_ok X ls s'"
    unfolding kconns_ok_def
  proof (intro allI impI)
    fix fd' f
    assume l: "fd' \<notin> set ls" and e: "filters s' (fd', f) \<noteq> None"
    show "\<exists>a on b. kconn s' fd' a on b \<and> buf_ok b \<and> (fd' \<notin> X \<longrightarrow> toggled s' fd' a on b)"
    proof (cases "fd' = fd")
      case True
      then show ?thesis using ents b by (auto simp: kconn_def)
    next
      case False
      then obtain a' on' b' where k: "kconn s fd' a' on' b'" "buf_ok b'" "toggled s fd' a' on' b'"
        using inv l e ents(1) [OF False] Y unfolding kq_okx_def kconns_ok_def by (metis singletonD subset_eq)
      moreover have "a' \<noteq> a" using k(1) False other_a unfolding kconn_def by blast
      ultimately have "kconn s' fd' a' on' b'" "toggled s' fd' a' on' b'"
        using ents(1) [OF False] b(1) by (auto simp: kconn_def toggled_def)
      then show ?thesis using k(2) by blast
    qed
  qed
  moreover have "kbufs_ok s'"
    unfolding kbufs_ok_def
  proof (intro allI impI)
    fix x
    assume x: "bufs s' x \<noteq> None"
    have "bufs s a \<noteq> None" using c by (simp add: kconn_def)
    then have "bufs s x \<noteq> None" using x b(1) by (auto split: if_splits)
    then obtain fd' on' where "x < lim s" "filters s (fd', EVFILT_READ) = Some (on', Some x)"
      using inv unfolding kq_okx_def kbufs_ok_def by blast
    then show "x < lim s' \<and> (\<exists>fd on. filters s' (fd, EVFILT_READ) = Some (on, Some x))"
      using ents reg same by (metis option.sel prod.inject)
  qed
  moreover have "ksingle_ok s'"
    unfolding ksingle_ok_def
  proof (intro allI impI)
    fix x f1 o1 f2 o2
    assume h: "filters s' (f1, EVFILT_READ) = Some (o1, Some x)" "filters s' (f2, EVFILT_READ) = Some (o2, Some x)"
    have "\<exists>on'. filters s (g, EVFILT_READ) = Some (on', Some x)"
      if "filters s' (g, EVFILT_READ) = Some (on1, Some x)" for g on1
      using that ents reg by (cases "g = fd") auto
    then show "f1 = f2" using inv h unfolding kq_okx_def ksingle_ok_def by metis
  qed
  moreover have "kecho_ok X s'"
    unfolding kecho_ok_def
  proof (intro impI conjI allI)
    assume t: "\<not> third s'"
    then have old: "\<And>g. \<exists>zs. rcvd s g = sent s g @ zs"
      "\<And>g c o1 d. g \<notin> Y \<Longrightarrow> kconn s g c o1 d \<Longrightarrow> rcvd s g = sent s g @ pending d"
      using inv other(2) unfolding kq_okx_def kecho_ok_def by auto
    show "\<exists>zs. rcvd s' g = sent s' g @ zs" for g
      using cur [OF t] old(1) [of g] other(1) [of g] by (cases "g = fd") auto
    show "rcvd s' g = sent s' g @ pending d" if "g \<notin> X" "kconn s' g c o1 d" for g c o1 d
    proof (cases "g = fd")
      case True
      then show ?thesis using that cur [OF t] ents(2) b by (auto simp: kconn_def)
    next
      case False
      then have k: "filters s (g, EVFILT_READ) = Some (o1, Some c)" using that(2) ents(1) by (simp add: kconn_def)
      then have "kconn s g c o1 d" using other_a [OF k False] that(2) b(1) by (simp add: kconn_def)
      then show ?thesis using old(2) [of g] Y False other(1) [OF False] by (metis singletonD subset_eq)
    qed
  qed
  ultimately show ?thesis using same ents(1) by (simp add: kq_okx_def kkeeps_def)
qed

section \<open>\<open>cleanup\<close>\<close>

lemma kq_delete_filters:
  "kq_delete fd f s = s\<lparr>filters := (filters s)((fd, f) := None)\<rparr>"
  by (cases "filters s (fd, f)")
    (auto simp: kq_delete_def change_def EV_DELETE_def EV_ADD_def fun_upd_idem split: option.splits)

lemma kq_cleanup_ok:
  assumes inv: "kq_okx {fd} base ls s" and c: "kconn s fd a on b" and fd: "fd \<notin> set ls"
  shows "\<exists>s'. kq_cleanup fd (Some a) s = Inr s' \<and> kq_ok base ls s' \<and> kkeeps fd s s'"
proof -
  have reg: "filters s (fd, EVFILT_READ) = Some (on, Some a)" "bufs s a = Some b"
    using c by (auto simp: kconn_def)
  have open_fd: "fd \<in> set (fds s)" "fd \<notin> base"
    using inv reg(1) unfolding kq_okx_def kreg_ok_def by blast+
  define ents where "ents = (filters s)((fd, EVFILT_READ) := None, (fd, EVFILT_WRITE) := None)"
  define s' where "s' = s\<lparr>filters := ents, fds := remove1 fd (fds s), bufs := (bufs s)(a := None)\<rparr>"
  have gone: "ents (fd, f) = None" for f by (cases f) (simp_all add: ents_def)
  have stay: "ents (g, f) = filters s (g, f)" if "g \<noteq> fd" for g f using that by (simp add: ents_def)
  have other_a: "a' \<noteq> a" if "filters s (g, EVFILT_READ) = Some (on', Some a')" "g \<noteq> fd" for g on' a'
    using inv reg that unfolding kq_okx_def ksingle_ok_def by blast
  have "kq_cleanup fd (Some a) s = Inr s'"
    using open_fd reg
    by (simp add: kq_cleanup_def kq_delete_filters sys_close_def free_if_def free_buffer_def s'_def ents_def)
  moreover have "kreg_ok base ls s'"
    unfolding kreg_ok_def
  proof (intro conjI allI impI ballI)
    fix g f assume "filters s' (g, f) \<noteq> None"
    then have "g \<noteq> fd \<and> filters s (g, f) \<noteq> None" using gone stay by (cases "g = fd") (auto simp: s'_def)
    then show "g \<in> set (fds s')" "g \<notin> base"
      using kreg_open [OF inv] inv by (auto simp: s'_def kq_okx_def kreg_ok_def)
  next
    fix l assume l: "l \<in> set ls"
    then have "l \<noteq> fd" using fd by blast
    with l show "filters s' (l, EVFILT_READ) = Some (True, None)" "filters s' (l, EVFILT_WRITE) = None"
      using inv stay [of l] unfolding kq_okx_def kreg_ok_def s'_def by auto
  qed (use inv open_fd fd in \<open>auto simp: kq_okx_def kreg_ok_def s'_def\<close>)
  moreover have "kconns_ok {} ls s'"
    unfolding kconns_ok_def
  proof (intro allI impI)
    fix g f assume l: "g \<notin> set ls" and e: "filters s' (g, f) \<noteq> None"
    then have g: "g \<noteq> fd" using gone by (auto simp: s'_def)
    then have e': "filters s (g, f) \<noteq> None" using e stay by (simp add: s'_def)
    then obtain a' on' b' where k: "kconn s g a' on' b'" "buf_ok b'" "toggled s g a' on' b'"
      using inv l e' g unfolding kq_okx_def kconns_ok_def by blast
    moreover have "a' \<noteq> a" using k(1) g other_a unfolding kconn_def by blast
    ultimately have "kconn s' g a' on' b'" "toggled s' g a' on' b'"
      using stay [OF g] by (auto simp: kconn_def toggled_def s'_def)
    then show "\<exists>a on b. kconn s' g a on b \<and> buf_ok b \<and> (g \<notin> {} \<longrightarrow> toggled s' g a on b)" using k(2) by blast
  qed
  moreover have "kbufs_ok s'"
    unfolding kbufs_ok_def
  proof (intro allI impI)
    fix x assume "bufs s' x \<noteq> None"
    then have x: "x \<noteq> a" "bufs s x \<noteq> None" by (auto simp: s'_def split: if_splits)
    then obtain g on' where g: "x < lim s" "filters s (g, EVFILT_READ) = Some (on', Some x)"
      using inv unfolding kq_okx_def kbufs_ok_def by blast
    then have "g \<noteq> fd" using reg x(1) by auto
    then have "filters s' (g, EVFILT_READ) = Some (on', Some x)" using g(2) stay by (simp add: s'_def)
    then show "x < lim s' \<and> (\<exists>fd on. filters s' (fd, EVFILT_READ) = Some (on, Some x))"
      using g(1) by (auto simp: s'_def)
  qed
  moreover have "ksingle_ok s'"
    unfolding ksingle_ok_def
  proof (intro allI impI)
    fix x f1 o1 f2 o2
    assume h: "filters s' (f1, EVFILT_READ) = Some (o1, Some x)" "filters s' (f2, EVFILT_READ) = Some (o2, Some x)"
    then have "f1 \<noteq> fd" "f2 \<noteq> fd" using gone by (auto simp: s'_def)
    then show "f1 = f2" using inv h stay unfolding kq_okx_def ksingle_ok_def s'_def by simp
  qed
  moreover have "kecho_ok {} s'"
    unfolding kecho_ok_def
  proof (intro impI conjI allI)
    assume t: "\<not> third s'"
    then have old: "\<And>g. \<exists>zs. rcvd s g = sent s g @ zs"
      "\<And>g c o1 d. g \<noteq> fd \<Longrightarrow> kconn s g c o1 d \<Longrightarrow> rcvd s g = sent s g @ pending d"
      using inv unfolding kq_okx_def kecho_ok_def s'_def by auto
    show "\<exists>zs. rcvd s' g = sent s' g @ zs" for g using old(1) [of g] by (simp add: s'_def)
    show "rcvd s' g = sent s' g @ pending d" if "kconn s' g c o1 d" for g c o1 d
    proof -
      have "g \<noteq> fd" using that gone by (auto simp: s'_def kconn_def)
      moreover have "kconn s g c o1 d"
        using that stay [OF calculation] by (auto simp: s'_def kconn_def split: if_splits)
      ultimately show ?thesis using old(2) by (simp add: s'_def)
    qed
  qed
  moreover have "kkeeps fd s s'" using stay by (simp add: kkeeps_def s'_def)
  ultimately show ?thesis by (auto simp: kq_okx_def)
qed

section \<open>New connections\<close>

lemma change_simps:
  "ents (fd, f) = None \<Longrightarrow> change fd f (EV_ADD OR EV_ENABLE) d ents = Some (ents((fd, f) \<mapsto> (True, d)))"
  "ents (fd, f) = Some (on, c) \<Longrightarrow> change fd f (EV_ADD OR EV_ENABLE) d ents = Some (ents((fd, f) \<mapsto> (True, d)))"
  "ents (fd, f) = Some (on, c) \<Longrightarrow>
    change fd f (EV_DISABLE OR EV_KEEPUDATA) d ents = Some (ents((fd, f) \<mapsto> (False, c)))"
  "ents (fd, f) = Some (on, c) \<Longrightarrow>
    change fd f (EV_ENABLE OR EV_KEEPUDATA) d ents = Some (ents((fd, f) \<mapsto> (True, c)))"
  by (simp_all add: change_def EV_ADD_def EV_DELETE_def EV_ENABLE_def EV_DISABLE_def EV_KEEPUDATA_def)

lemma kq_change_cases:
  assumes "kq_change fd f flags d s = (r, s')"
  obtains (failed) as where "r < 0" "s' = s\<lparr>answers := as\<rparr>"
  | (changed) as ents where "\<not> r < 0" "change fd f flags d (filters s) = Some ents"
      "s' = s\<lparr>answers := as, filters := ents\<rparr>"
proof -
  obtain ok s0 where call: "call s = (ok, s0)" by fastforce
  obtain as where "s0 = s\<lparr>answers := as\<rparr>" using call_upd [OF call] by blast
  then have s0: "s0 = s\<lparr>answers := as\<rparr>" "filters s0 = filters s" by simp_all
  have step: "(case (if ok then change fd f flags d (filters s) else None) of
      None \<Rightarrow> (-1, s0) | Some ents \<Rightarrow> (0, s0\<lparr>filters := ents\<rparr>)) = (r, s')"
    using assms unfolding kq_change_def call Let_def prod.case s0(2) .
  show ?thesis
  proof (cases "if ok then change fd f flags d (filters s) else None")
    case None
    then show ?thesis using step s0(1) failed [of as] by auto
  next
    case (Some ents)
    then have "change fd f flags d (filters s) = Some ents" by (simp split: if_splits)
    then show ?thesis using step s0(1) Some changed [of ents as] by auto
  qed
qed

lemma kfresh:
  assumes inv: "kq_okx X base ls s"
  shows "bufs s (lim s) = None \<and> filters s (fd, EVFILT_READ) \<noteq> Some (on, Some (lim s))"
proof -
  have none: "bufs s (lim s) = None" using inv unfolding kq_okx_def kbufs_ok_def by blast
  have "\<exists>b. bufs s (lim s) = Some b" if e: "filters s (fd, EVFILT_READ) = Some (on, Some (lim s))"
  proof -
    have "fd \<notin> set ls" using inv e unfolding kq_okx_def kreg_ok_def by auto
    then obtain a on' b where "kconn s fd a on' b" using inv e unfolding kq_okx_def kconns_ok_def by blast
    then show ?thesis using e by (auto simp: kconn_def)
  qed
  then show ?thesis using none by auto
qed

text \<open>An attempt that was undone, or has left a descriptor open.\<close>

lemma kq_ok_undone:
  fixes s s' :: kq
  assumes inv: "kq_ok base ls s"
    and same: "bufs s' = bufs s" "filters s' = filters s" "kqfd s' = kqfd s" "lim s \<le> lim s'" "third s' = third s"
    and fds: "fds s' = fds s \<or> (\<exists>fd. fd \<notin> set (fds s) \<and> fds s' = fd # fds s)"
    and log: "\<And>f. (sent s' f = sent s f \<and> rcvd s' f = rcvd s f) \<or>
      (f \<notin> set (fds s) \<and> sent s' f = [] \<and> rcvd s' f = [])"
  shows "kq_ok base ls s' \<and> kkeeps fd s s'"
proof -
  have k: "kconn s' g a on b \<longleftrightarrow> kconn s g a on b" "toggled s' g a on b \<longleftrightarrow> toggled s g a on b" for g a on b
    using same by (simp_all add: kconn_def toggled_def)
  have "kreg_ok base ls s'"
    unfolding kreg_ok_def
  proof (intro conjI allI impI ballI)
    fix g f assume "filters s' (g, f) \<noteq> None"
    then show "g \<in> set (fds s')" "g \<notin> base" using kreg_open [OF inv, of g f] same(2) fds by auto
  qed (use inv same(2) fds in \<open>auto simp: kq_okx_def kreg_ok_def\<close>)
  moreover have "kconns_ok {} ls s'" "ksingle_ok s'"
    using inv same(2) by (simp_all add: kq_okx_def kconns_ok_def ksingle_ok_def k)
  moreover have "kbufs_ok s'"
    using inv same(1,2) order.strict_trans2 [OF _ same(4)] unfolding kq_okx_def kbufs_ok_def by simp
  moreover have "kecho_ok {} s'"
    unfolding kecho_ok_def
  proof (intro impI conjI allI)
    assume t: "\<not> third s'"
    show "\<exists>zs. rcvd s' f = sent s' f @ zs" for f
      using log [of f] inv t same(5) unfolding kq_okx_def kecho_ok_def by auto
    show "rcvd s' g = sent s' g @ pending d" if v: "kconn s' g c o1 d" for g c o1 d
    proof -
      have "filters s (g, EVFILT_READ) \<noteq> None" using v same by (simp add: kconn_def)
      then have "g \<in> set (fds s)" using kreg_open [OF inv] by blast
      then have "sent s' g = sent s g \<and> rcvd s' g = rcvd s g" using log [of g] by auto
      then show ?thesis using inv t v same(5) by (simp add: kq_okx_def kecho_ok_def k)
    qed
  qed
  ultimately show ?thesis using same by (simp add: kq_okx_def kkeeps_def)
qed

lemma kq_ok_new:
  fixes s s' :: kq
  assumes inv: "kq_ok base ls s" and fd: "fd \<notin> set (fds s)"
    and s': "s' = s\<lparr>answers := as, fds := fd # fds s, sent := (sent s)(fd := []), rcvd := (rcvd s)(fd := []),
        bufs := (bufs s)(lim s \<mapsto> \<lparr>b_size = 0, b_data = replicate BUF_CAPACITY 0\<rparr>), lim := Suc (lim s),
        filters := (filters s)((fd, EVFILT_READ) \<mapsto> (True, Some (lim s)))\<rparr>"
  shows "kq_ok base ls s' \<and> kkeeps fd' s s'"
proof -
  note fresh = kfresh [OF inv]
  have none: "filters s (fd, f) = None" for f using kreg_open [OF inv] fd by blast
  have fd': "fd \<notin> base" "fd \<notin> set ls" using inv fd unfolding kq_okx_def kreg_ok_def by auto
  have ents: "filters s' (g, f) = filters s (g, f)" if "g \<noteq> fd" for g f using that by (simp add: s')
  have old: "kconn s' g a on b \<longleftrightarrow> kconn s g a on b" "toggled s' g a on b \<longleftrightarrow> toggled s g a on b"
    if "g \<noteq> fd" for g a on b
    using that fresh by (auto simp: kconn_def toggled_def s')
  have "kreg_ok base ls s'"
    unfolding kreg_ok_def
  proof (intro conjI allI impI ballI)
    fix g f assume "filters s' (g, f) \<noteq> None"
    then show "g \<in> set (fds s')" "g \<notin> base"
      using kreg_open [OF inv, of g] fd' ents [of g] by (cases "g = fd"; auto simp: s')+
  next
    fix l assume l: "l \<in> set ls"
    then have "l \<noteq> fd" using fd' by blast
    with l show "filters s' (l, EVFILT_READ) = Some (True, None)" "filters s' (l, EVFILT_WRITE) = None"
      using inv ents [of l] unfolding kq_okx_def kreg_ok_def by auto
  qed (use inv fd in \<open>auto simp: kq_okx_def kreg_ok_def s'\<close>)
  moreover have "kconns_ok {} ls s'"
    unfolding kconns_ok_def
  proof (intro allI impI)
    fix g f assume l: "g \<notin> set ls" and e: "filters s' (g, f) \<noteq> None"
    show "\<exists>a on b. kconn s' g a on b \<and> buf_ok b \<and> (g \<notin> {} \<longrightarrow> toggled s' g a on b)"
    proof (cases "g = fd")
      case True
      then show ?thesis using none by (auto simp: kconn_def toggled_def s' buf_ok_def)
    next
      case False
      then have "filters s (g, f) \<noteq> None" using e ents by simp
      then obtain a on b where "kconn s g a on b" "buf_ok b" "toggled s g a on b"
        using inv l unfolding kq_okx_def kconns_ok_def by blast
      then show ?thesis using old [OF False] by auto
    qed
  qed
  moreover have "kbufs_ok s'"
    unfolding kbufs_ok_def
  proof (intro allI impI)
    fix x assume x: "bufs s' x \<noteq> None"
    show "x < lim s' \<and> (\<exists>fd on. filters s' (fd, EVFILT_READ) = Some (on, Some x))"
    proof (cases "x = lim s")
      case True
      then show ?thesis by (auto simp: s')
    next
      case False
      then obtain g on where g: "x < lim s" "filters s (g, EVFILT_READ) = Some (on, Some x)"
        using inv x unfolding kq_okx_def kbufs_ok_def s' by (auto split: if_splits)
      then have "g \<noteq> fd" using none by auto
      then have "filters s' (g, EVFILT_READ) = Some (on, Some x)" using g(2) ents by simp
      moreover have "x < lim s'" using g(1) by (simp add: s')
      ultimately show ?thesis by blast
    qed
  qed
  moreover have "ksingle_ok s'"
    unfolding ksingle_ok_def
  proof (intro allI impI)
    fix x f1 o1 f2 o2
    assume h: "filters s' (f1, EVFILT_READ) = Some (o1, Some x)" "filters s' (f2, EVFILT_READ) = Some (o2, Some x)"
    have "filters s (g, EVFILT_READ) = Some (on1, Some x) \<and> x \<noteq> lim s"
      if "filters s' (g, EVFILT_READ) = Some (on1, Some x)" "g \<noteq> fd" for g on1
      using that ents fresh by metis
    moreover have "x = lim s" if "filters s' (fd, EVFILT_READ) = Some (on1, Some x)" for on1
      using that by (simp add: s')
    ultimately show "f1 = f2" using inv h unfolding kq_okx_def ksingle_ok_def by metis
  qed
  moreover have "kecho_ok {} s'"
    unfolding kecho_ok_def
  proof (intro impI conjI allI)
    assume t: "\<not> third s'"
    then have echo: "\<And>g. \<exists>zs. rcvd s g = sent s g @ zs"
      "\<And>g c o1 d. kconn s g c o1 d \<Longrightarrow> rcvd s g = sent s g @ pending d"
      using inv unfolding kq_okx_def kecho_ok_def s' by auto
    show "\<exists>zs. rcvd s' g = sent s' g @ zs" for g using echo(1) [of g] by (simp add: s')
    show "rcvd s' g = sent s' g @ pending d" if "kconn s' g c o1 d" for g c o1 d
    proof (cases "g = fd")
      case True
      then show ?thesis using that by (auto simp: kconn_def s' pending_def)
    next
      case False
      then show ?thesis using that old echo(2) by (simp add: s')
    qed
  qed
  moreover have "kkeeps fd' s s'" using none by (auto simp: kkeeps_def s')
  ultimately show ?thesis by (simp add: kq_okx_def)
qed

lemma kq_accept_loop_ok:
  "kq_ok base ls s \<Longrightarrow> \<exists>s'. kq_accept_loop fd s = Inr s' \<and> kq_ok base ls s' \<and> kkeeps q s s'"
proof (induction fd s rule: kq_accept_loop.induct)
  case (1 fd s)
  note inv = "1.prems"
  note undone = kq_ok_undone [OF inv, where fd = q]
  have idem: "(bufs s)(lim s := None) = bufs s" using kfresh [OF inv] by (simp add: fun_upd_idem)
  obtain x s1 where x: "sys_accept s = (x, s1)" by fastforce
  note step = kq_accept_loop.simps [of fd s]
  show ?case
  proof (cases x)
    case (Inl e)
    then obtain as where "s1 = s\<lparr>answers := as\<rparr>" using sys_accept_Inl x by blast
    then show ?thesis using step x Inl undone [of s1] by simp
  next
    case (Inr c)
    obtain as where c: "c \<notin> set (fds s)" and s1: "s1 = s\<lparr>answers := as,
        fds := c # fds s, sent := (sent s)(c := []), rcvd := (rcvd s)(c := [])\<rparr>"
      using sys_accept_Inr x Inr by blast
    obtain r s2 where r: "set_nonblocking s1 = (r, s2)" by fastforce
    then obtain as2 where s2: "s2 = s1\<lparr>answers := as2\<rparr>" using set_nonblocking_upd by blast
    obtain m s3 where m: "calloc_buffer s2 = (m, s3)" by fastforce
    show ?thesis
    proof (cases "r < 0 \<or> m = None")
      case True
      define t where "t = (if r < 0 then s2\<lparr>fds := fds s\<rparr> else s3)"
      have "\<exists>as f. t = s1\<lparr>answers := as, fds := f\<rparr> \<and> (f = fds s \<or> f = c # fds s)"
      proof (cases "r < 0")
        case True
        then show ?thesis using s2 by (auto simp: t_def)
      next
        case False
        then obtain as3 where "s3 = s2\<lparr>answers := as3\<rparr>" using m \<open>r < 0 \<or> m = None\<close> calloc_buffer_None by blast
        then have "t = s1\<lparr>answers := as3, fds := c # fds s\<rparr>" using False s2 s1 by (simp add: t_def)
        then show ?thesis by blast
      qed
      then have "kq_ok base ls t \<and> kkeeps q s t" using s1 c by (intro undone) auto
      moreover have "kq_accept_loop fd s = Inr t"
        using True step x Inr r m s2 s1 by (auto simp: t_def sys_close_def)
      ultimately show ?thesis by blast
    next
      case False
      then obtain b where b: "m = Some b" "\<not> r < 0" by auto
      obtain as3 where s3: "b = lim s2" "s3 = s2\<lparr>answers := as3,
          bufs := (bufs s2)(lim s2 \<mapsto> \<lparr>b_size = 0, b_data = replicate BUF_CAPACITY 0\<rparr>), lim := Suc (lim s2)\<rparr>"
        using calloc_buffer_Some m b(1) by blast
      obtain r' s4 where r': "kq_change c EVFILT_READ (EV_ADD OR EV_ENABLE) (Some b) s3 = (r', s4)" by fastforce
      from r' show ?thesis
      proof (cases rule: kq_change_cases)
        case (failed as4)
        then have "kq_accept_loop fd s = andthen (sys_close c s4) (free_buffer b)"
          using step x Inr r m b r' by simp
        moreover have "\<dots> = Inr (s4\<lparr>fds := fds s, bufs := bufs s\<rparr>)"
          using failed s3 s2 s1 idem by (simp add: sys_close_def free_buffer_def)
        moreover have "kq_ok base ls (s4\<lparr>fds := fds s, bufs := bufs s\<rparr>) \<and> kkeeps q s (s4\<lparr>fds := fds s, bufs := bufs s\<rparr>)"
          using failed s3 s2 s1 c by (intro undone) auto
        ultimately show ?thesis by simp
      next
        case (changed as4 ents)
        have none: "filters s (c, EVFILT_READ) = None" using kreg_open [OF inv] c by blast
        then have "ents = (filters s)((c, EVFILT_READ) \<mapsto> (True, Some b))"
          using changed(2) s3 s2 s1 by (simp add: change_simps(1))
        then have new: "kq_ok base ls s4 \<and> kkeeps q s s4"
          using changed(3) s3 s2 s1 by (intro kq_ok_new [OF inv c, where as = as4]) simp
        have "kq_accept_loop fd s = kq_accept_loop fd s4"
          using step x Inr r m b r' changed(1) by simp
        moreover obtain s' where "kq_accept_loop fd s4 = Inr s'" "kq_ok base ls s'" "kkeeps q s4 s'"
          using "1.IH" [OF x [symmetric] Inr r [symmetric] b(2) m [symmetric] b(1) r' [symmetric] changed(1)] new
          by blast
        ultimately show ?thesis using kkeeps_trans [OF conjunct2 [OF new]] by auto
      qed
    qed
  qed
qed

section \<open>Events of a connection\<close>

text \<open>A changed connection can be released.\<close>

lemma kq_ok_drop:
  fixes s s' :: kq
  assumes inv: "kq_okx Y base ls s" and c: "kconn s fd a on0 b0" and fd: "fd \<notin> set ls" and Y: "Y \<subseteq> {fd}"
    and same: "fds s' = fds s" "lim s' = lim s" "kqfd s' = kqfd s"
    and ents: "\<And>fd' f. fd' \<noteq> fd \<Longrightarrow> filters s' (fd', f) = filters s (fd', f)"
      "filters s' (fd, EVFILT_READ) = Some (on, Some a)"
    and b: "bufs s' = (bufs s)(a \<mapsto> b)" "buf_ok b"
    and other: "\<And>f. f \<noteq> fd \<Longrightarrow> sent s' f = sent s f \<and> rcvd s' f = rcvd s f" "third s \<longrightarrow> third s'"
    and cur: "\<not> third s' \<Longrightarrow> \<exists>zs. rcvd s' fd = sent s' fd @ zs"
  shows "\<exists>s''. kq_cleanup fd (Some a) s' = Inr s'' \<and> kq_ok base ls s'' \<and> kkeeps fd s s''"
proof -
  have up: "kq_okx {fd} base ls s' \<and> kkeeps fd s s'"
    by (rule kq_ok_update [OF inv c fd Y same ents _ b other]) (use cur in auto)
  moreover have "kconn s' fd a on b" using ents(2) b(1) by (simp add: kconn_def)
  ultimately show ?thesis using kq_cleanup_ok [of fd base ls s' a on b] fd kkeeps_trans by blast
qed

lemma kconn_bufs: "kconn s fd a on b \<Longrightarrow> bufs s = (bufs s)(a \<mapsto> b)"
  unfolding kconn_def by (metis fun_upd_triv)

lemma kq_to_write_ok:
  assumes inv: "kq_okx {fd} base ls s" and c: "kconn s fd a True b" and fd: "fd \<notin> set ls"
    and b: "buf_ok b" "0 < b_size b" and cur: "\<not> third s \<Longrightarrow> rcvd s fd = sent s fd @ pending b"
  shows "\<exists>s'. kq_to_write fd a s = Inr s' \<and> kq_ok base ls s' \<and> kkeeps fd s s'"
proof -
  have reg: "filters s (fd, EVFILT_READ) = Some (True, Some a)" using c by (simp add: kconn_def)
  note bufs = kconn_bufs [OF c]
  note drop = kq_ok_drop [OF inv c fd subset_refl, where b = b]
  obtain r s1 where r: "kq_change fd EVFILT_READ (EV_DISABLE OR EV_KEEPUDATA) None s = (r, s1)" by fastforce
  from r show ?thesis
  proof (cases rule: kq_change_cases)
    case (failed as)
    have "\<exists>s'. kq_cleanup fd (Some a) s1 = Inr s' \<and> kq_ok base ls s' \<and> kkeeps fd s s'"
      by (rule drop) (use failed reg bufs b cur in auto)
    then show ?thesis using r failed(1) by (simp add: kq_to_write_def)
  next
    case (changed as ents)
    have ents: "ents = (filters s)((fd, EVFILT_READ) \<mapsto> (False, Some a))"
      using changed(2) reg by (simp add: change_simps)
    obtain r' s2 where r': "kq_change fd EVFILT_WRITE (EV_ADD OR EV_ENABLE) (Some a) s1 = (r', s2)" by fastforce
    from r' show ?thesis
    proof (cases rule: kq_change_cases)
      case (failed as2)
      have "\<exists>s'. kq_cleanup fd (Some a) s2 = Inr s' \<and> kq_ok base ls s' \<and> kkeeps fd s s'"
        by (rule drop) (use failed changed(3) ents bufs b cur in auto)
      then show ?thesis using r changed(1) r' failed(1) by (simp add: kq_to_write_def)
    next
      case ch2: (changed as2 ents2)
      have "ents2 = ents((fd, EVFILT_WRITE) \<mapsto> (True, Some a))"
        using ch2(2) changed(3) change_simps(1,2) [of ents fd EVFILT_WRITE]
        by (cases "ents (fd, EVFILT_WRITE)") auto
      then have "kq_ok base ls s2 \<and> kkeeps fd s s2"
        using ch2(3) changed(3) ents bufs b cur
        by (intro kq_ok_update [OF inv c fd subset_refl, where b = b and on = False]) (auto simp: toggled_def)
      then show ?thesis using r changed(1) r' ch2(1) by (simp add: kq_to_write_def)
    qed
  qed
qed

text \<open>Sending the contents of a connection's buffer, which \<open>b\<close> is.\<close>

lemma kq_send_ok:
  fixes s s1 :: kq
  assumes inv: "kq_ok base ls s" and c: "kconn s fd a on b0" and fd: "fd \<notin> set ls" and b: "buf_ok b"
    and s1: "fds s1 = fds s" "lim s1 = lim s" "os.more s1 = os.more s" "bufs s1 = (bufs s)(a \<mapsto> b)"
      "third s1 = third s" "\<forall>f. f \<noteq> fd \<longrightarrow> sent s1 f = sent s f \<and> rcvd s1 f = rcvd s f"
      "\<not> third s \<longrightarrow> rcvd s1 fd = sent s1 fd @ pending b"
    and d: "do_send fd (b_data b) (b_size b) s1 = Inr (r, s2)"
  shows "r \<le> 0 \<Longrightarrow> \<exists>s'. kq_cleanup fd (Some a) s2 = Inr s' \<and> kq_ok base ls s' \<and> kkeeps fd s s'"
    and "0 < r \<Longrightarrow> b' = (if nat r < b_size b then shift_out (nat r) b else b\<lparr>b_size := 0\<rparr>) \<Longrightarrow>
      s' = put_buffer a b' s2 \<Longrightarrow> (fd \<notin> X \<Longrightarrow> toggled s fd a on b') \<Longrightarrow>
      kq_okx X base ls s' \<and> kkeeps fd s s' \<and> kconn s' fd a on b' \<and> buf_ok b' \<and>
      (\<not> third s' \<longrightarrow> rcvd s' fd = sent s' fd @ pending b') \<and> filters s' = filters s"
proof -
  have reg: "filters s (fd, EVFILT_READ) = Some (on, Some a)" using c by (simp add: kconn_def)
  note snd = send_loop_sends [OF d [unfolded do_send_def]]
  have fr: "fds s2 = fds s" "lim s2 = lim s" "filters s2 = filters s" "kqfd s2 = kqfd s" "bufs s2 = (bufs s)(a \<mapsto> b)"
    "\<And>f. f \<noteq> fd \<Longrightarrow> sent s2 f = sent s f \<and> rcvd s2 f = rcvd s f" "third s \<longrightarrow> third s2" "rcvd s2 = rcvd s1"
    using snd s1 sends_kq [OF snd] kq_more_eq [OF s1(3)] by (auto simp: sends_def)
  have len: "length (pending b) = b_size b" using b by (simp add: pending_def buf_ok_def)
  have log: "\<exists>k\<le>b_size b. rcvd s2 fd = sent s2 fd @ drop k (pending b) \<and> (r = -1 \<or> r = int k)"
    if t: "\<not> third s2"
  proof -
    obtain k where k: "k \<le> b_size b" "sent s2 fd = sent s1 fd @ take k (b_data b)" "r = -1 \<or> r = int k"
      using do_send_exact [OF d t] by blast
    have "take k (b_data b) = take k (pending b)" using k(1) by (simp add: pending_def min_absorb1)
    then show ?thesis using k s1(7) fr(7,8) t by (intro exI [of _ k]) simp
  qed
  show "\<exists>s'. kq_cleanup fd (Some a) s2 = Inr s' \<and> kq_ok base ls s' \<and> kkeeps fd s s'" if "r \<le> 0"
    by (rule kq_ok_drop [OF inv c fd empty_subsetI fr(1,2,4) _ _ fr(5) b fr(6,7)]) (use fr(3) reg log in auto)
  show "kq_okx X base ls s' \<and> kkeeps fd s s' \<and> kconn s' fd a on b' \<and> buf_ok b' \<and>
      (\<not> third s' \<longrightarrow> rcvd s' fd = sent s' fd @ pending b') \<and> filters s' = filters s"
    if r: "0 < r" and b': "b' = (if nat r < b_size b then shift_out (nat r) b else b\<lparr>b_size := 0\<rparr>)"
      and s': "s' = put_buffer a b' s2" and tog: "fd \<notin> X \<Longrightarrow> toggled s fd a on b'"
  proof -
    have ok: "buf_ok b'" using b' shift_out_ok [OF b] empty_ok [OF b] by simp
    have cur: "rcvd s2 fd = sent s2 fd @ pending b'" if t: "\<not> third s2"
    proof -
      obtain k where k: "k \<le> b_size b" "rcvd s2 fd = sent s2 fd @ drop k (pending b)" "r = int k"
        using log [OF t] r by auto
      then show ?thesis using b' shift_out_ok [OF b, of k] empty_ok [OF b] len by auto
    qed
    have "kq_okx X base ls s' \<and> kkeeps fd s s'"
      by (rule kq_ok_update [OF inv c fd empty_subsetI, where b = b' and on = on])
        (use fr reg ok cur s' tog in \<open>auto simp: put_buffer_def toggled_def\<close>)
    then show ?thesis using ok cur s' fr(3) reg by (auto simp: kconn_def put_buffer_def)
  qed
qed

lemma kecho_conn: "kq_ok base ls s \<Longrightarrow> kconn s fd a on b \<Longrightarrow> \<not> third s \<longrightarrow> rcvd s fd = sent s fd @ pending b"
  by (simp add: kq_okx_def kecho_ok_def)

text \<open>The two changes after the buffer has been emptied.\<close>

definition kq_drained :: "nat \<Rightarrow> nat \<Rightarrow> kq \<Rightarrow> kq res" where
  "kq_drained fd a s =
     (case kq_change fd EVFILT_WRITE (EV_DISABLE OR EV_KEEPUDATA) None s of
        (r, s2) \<Rightarrow>
          if r < 0 then kq_cleanup fd (Some a) s2
          else (case kq_change fd EVFILT_READ (EV_ENABLE OR EV_KEEPUDATA) None s2 of
             (r', s3) \<Rightarrow> if r' < 0 then kq_cleanup fd (Some a) s3 else Inr s3))"

lemma kq_drained_ok:
  assumes inv: "kq_okx {fd} base ls s" and c: "kconn s fd a False b" and fd: "fd \<notin> set ls"
    and w: "filters s (fd, EVFILT_WRITE) = Some (True, Some a)"
    and b: "buf_ok b" "b_size b = 0" and cur: "\<not> third s \<Longrightarrow> rcvd s fd = sent s fd @ pending b"
  shows "\<exists>s'. kq_drained fd a s = Inr s' \<and> kq_ok base ls s' \<and> kkeeps fd s s'"
proof -
  have reg: "filters s (fd, EVFILT_READ) = Some (False, Some a)" using c by (simp add: kconn_def)
  note bufs = kconn_bufs [OF c]
  note drop = kq_ok_drop [OF inv c fd subset_refl, where b = b]
  obtain r s1 where r: "kq_change fd EVFILT_WRITE (EV_DISABLE OR EV_KEEPUDATA) None s = (r, s1)" by fastforce
  from r show ?thesis
  proof (cases rule: kq_change_cases)
    case (failed as)
    have "\<exists>s'. kq_cleanup fd (Some a) s1 = Inr s' \<and> kq_ok base ls s' \<and> kkeeps fd s s'"
      by (rule drop) (use failed reg bufs b cur in auto)
    then show ?thesis using r failed(1) by (simp add: kq_drained_def)
  next
    case (changed as ents)
    have ents: "ents = (filters s)((fd, EVFILT_WRITE) \<mapsto> (False, Some a))"
      using changed(2) w by (simp add: change_simps)
    obtain r' s2 where r': "kq_change fd EVFILT_READ (EV_ENABLE OR EV_KEEPUDATA) None s1 = (r', s2)" by fastforce
    from r' show ?thesis
    proof (cases rule: kq_change_cases)
      case (failed as2)
      have "\<exists>s'. kq_cleanup fd (Some a) s2 = Inr s' \<and> kq_ok base ls s' \<and> kkeeps fd s s'"
        by (rule drop) (use failed changed(3) ents reg bufs b cur in auto)
      then show ?thesis using r changed(1) r' failed(1) by (simp add: kq_drained_def)
    next
      case ch2: (changed as2 ents2)
      have "ents (fd, EVFILT_READ) = Some (False, Some a)" using ents reg by simp
      then have "ents2 = ents((fd, EVFILT_READ) \<mapsto> (True, Some a))"
        using ch2(2) changed(3) change_simps(4) [of ents fd EVFILT_READ False "Some a" None] by simp
      then have "kq_ok base ls s2 \<and> kkeeps fd s s2"
        using ch2(3) changed(3) ents bufs b cur
        by (intro kq_ok_update [OF inv c fd subset_refl, where b = b and on = True]) (auto simp: toggled_def)
      then show ?thesis using r changed(1) r' ch2(1) by (simp add: kq_drained_def)
    qed
  qed
qed

lemma kq_write_ok:
  assumes inv: "kq_ok base ls s" and c: "kconn s fd a False b" and fd: "fd \<notin> set ls" and b: "buf_ok b"
    and tog: "toggled s fd a False b"
  shows "kq_write fd a s = Inl Killed \<or> (\<exists>s'. kq_write fd a s = Inr s' \<and> kq_ok base ls s' \<and> kkeeps fd s s')"
proof -
  have g: "get_buffer a s = Inr b" using c by (simp add: kconn_def get_buffer_def)
  consider "do_send fd (b_data b) (b_size b) s = Inl Killed" | r s1 where "do_send fd (b_data b) (b_size b) s = Inr (r, s1)"
    using do_send_returns [of "b_size b" "b_data b" fd s] b by (metis buf_ok_def)
  then show ?thesis
  proof cases
    case 1
    then show ?thesis using g by (simp add: kq_write_def)
  next
    case d: (2 r s1)
    note snd = kq_send_ok [OF inv c fd b refl refl refl kconn_bufs [OF c] refl _ kecho_conn [OF inv c] d]
    consider "r \<le> 0" | "0 < r" "nat r < b_size b" | "0 < r" "\<not> nat r < b_size b" by linarith
    then show ?thesis
    proof cases
      case 1
      then show ?thesis using snd(1) g d by (simp add: kq_write_def)
    next
      case 2
      have "0 < b_size (shift_out (nat r) b)" using 2 by (simp add: shift_out_def Let_def)
      then have "toggled s fd a False (shift_out (nat r) b)" using tog by (simp add: toggled_def)
      then show ?thesis
        using snd(2) [where X = "{}" and b' = "shift_out (nat r) b"] 2 g d by (simp add: kq_write_def)
    next
      case 3
      let ?b = "b\<lparr>b_size := 0\<rparr>" and ?s = "put_buffer a (b\<lparr>b_size := 0\<rparr>) s1"
      have st: "kq_okx {fd} base ls ?s \<and> kkeeps fd s ?s \<and> kconn ?s fd a False ?b \<and> buf_ok ?b \<and>
          (\<not> third ?s \<longrightarrow> rcvd ?s fd = sent ?s fd @ pending ?b) \<and> filters ?s = filters s"
        by (rule snd(2)) (use 3 in auto)
      have w: "filters ?s (fd, EVFILT_WRITE) = Some (True, Some a)" using tog st by (simp add: toggled_def)
      have "kq_write fd a s = kq_drained fd a ?s" using g d 3 by (simp add: kq_write_def kq_drained_def)
      moreover obtain s' where "kq_drained fd a ?s = Inr s'" "kq_ok base ls s'" "kkeeps fd ?s s'"
        using kq_drained_ok [of fd base ls ?s a ?b] st fd w by auto
      ultimately show ?thesis using st kkeeps_trans by metis
    qed
  qed
qed

lemma kq_recv_loop_ok:
  "kq_ok base ls s \<Longrightarrow> kconn s fd a True b \<Longrightarrow> fd \<notin> set ls \<Longrightarrow> toggled s fd a True b \<Longrightarrow> buf_ok b \<Longrightarrow>
    kq_recv_loop fd a s = Inl Killed \<or>
    (\<exists>s'. kq_recv_loop fd a s = Inr s' \<and> kq_ok base ls s' \<and> kkeeps fd s s')"
proof (induction fd a s arbitrary: b rule: kq_recv_loop.induct)
  case (1 fd a s)
  note inv = "1.prems"(1) and c = "1.prems"(2) and fd = "1.prems"(3) and b = "1.prems"(5)
  have g: "get_buffer a s = Inr b" using c by (simp add: kconn_def get_buffer_def)
  have sz: "b_size b = 0" using "1.prems"(4) by (simp add: toggled_def)
  then have echo: "\<not> third s \<Longrightarrow> rcvd s fd = sent s fd" using kecho_conn [OF inv c] by (simp add: pending_def)
  obtain x s1 where x: "sys_recv fd s = (x, s1)" by fastforce
  note step = kq_recv_loop.simps [of fd a s]
  have stay: "kq_ok base ls (s\<lparr>answers := as\<rparr>) \<and> kkeeps fd s (s\<lparr>answers := as\<rparr>)" for as
    by (rule kq_ok_undone [OF inv]) auto
  have clean: "\<exists>s'. kq_cleanup fd (Some a) (s\<lparr>answers := as\<rparr>) = Inr s' \<and> kq_ok base ls s' \<and> kkeeps fd s s'" for as
    by (rule kq_ok_drop [OF inv c fd empty_subsetI, where b = b and on = True])
      (use kconn_bufs [OF c] b c echo in \<open>auto simp: kconn_def\<close>)
  show ?case
  proof (cases x)
    case (Inl e)
    then obtain as where "s1 = s\<lparr>answers := as\<rparr>"
      using x by (auto simp: sys_recv_def split: prod.splits answer.splits dest: ask_upd)
    then show ?thesis using step g x Inl stay clean by (cases e) auto
  next
    case (Inr bs)
    then obtain as where s1: "s1 = s\<lparr>answers := as, rcvd := (rcvd s)(fd := rcvd s fd @ bs)\<rparr>"
      and len: "length bs \<le> BUF_CAPACITY"
      using x by (auto simp: sys_recv_def split: prod.splits answer.splits dest!: ask_upd)
    show ?thesis
    proof (cases "bs = []")
      case True
      then have "s1 = s\<lparr>answers := as\<rparr>" using s1 by simp
      then show ?thesis using step g x Inr True clean by simp
    next
      case False
      let ?b = "fill bs b" and ?s1 = "put_buffer a (fill bs b) s1"
      note fb = fill_ok [OF b len]
      consider "do_send fd (b_data ?b) (b_size ?b) ?s1 = Inl Killed"
        | r s2 where "do_send fd (b_data ?b) (b_size ?b) ?s1 = Inr (r, s2)"
        using do_send_returns [of "b_size ?b" "b_data ?b" fd ?s1] fb by (metis buf_ok_def)
      then show ?thesis
      proof cases
        case 1
        then show ?thesis using step g x Inr False by simp
      next
        case d: (2 r s2)
        have "fds ?s1 = fds s" "lim ?s1 = lim s" "os.more ?s1 = os.more s" "bufs ?s1 = (bufs s)(a \<mapsto> ?b)"
          "third ?s1 = third s" "\<forall>f. f \<noteq> fd \<longrightarrow> sent ?s1 f = sent s f \<and> rcvd ?s1 f = rcvd s f"
          "\<not> third s \<longrightarrow> rcvd ?s1 fd = sent ?s1 fd @ pending ?b"
          using s1 echo fb by (simp_all add: put_buffer_def)
        note snd = kq_send_ok [OF inv c fd conjunct1 [OF fb] this d]
        let ?b2 = "if nat r < b_size ?b then shift_out (nat r) ?b else ?b\<lparr>b_size := 0\<rparr>"
        let ?s3 = "put_buffer a ?b2 s2"
        consider "r \<le> 0" | "0 < r" "nat r < b_size ?b" | "0 < r" "\<not> nat r < b_size ?b" by linarith
        then show ?thesis
        proof cases
          case 1
          then show ?thesis using step g x Inr False d snd(1) by simp
        next
          case 2
          have st: "kq_okx {fd} base ls ?s3 \<and> kkeeps fd s ?s3 \<and> kconn ?s3 fd a True ?b2 \<and> buf_ok ?b2 \<and>
              (\<not> third ?s3 \<longrightarrow> rcvd ?s3 fd = sent ?s3 fd @ pending ?b2) \<and> filters ?s3 = filters s"
            by (rule snd(2)) (use 2 in auto)
          have "0 < b_size ?b2" using 2 by (simp add: shift_out_def Let_def)
          then obtain s' where "kq_to_write fd a ?s3 = Inr s'" "kq_ok base ls s'" "kkeeps fd ?s3 s'"
            using kq_to_write_ok [of fd base ls ?s3 a ?b2] st fd by blast
          moreover have "kq_recv_loop fd a s = kq_to_write fd a ?s3" using step g x Inr False d 2 by simp
          ultimately show ?thesis using st kkeeps_trans by metis
        next
          case 3
          have "b_size ?b2 = 0" using 3 by simp
          then have tog: "toggled s fd a True ?b2" using "1.prems"(4) by (simp add: toggled_def)
          then have st: "kq_ok base ls ?s3 \<and> kkeeps fd s ?s3 \<and> kconn ?s3 fd a True ?b2 \<and> buf_ok ?b2 \<and>
              (\<not> third ?s3 \<longrightarrow> rcvd ?s3 fd = sent ?s3 fd @ pending ?b2) \<and> filters ?s3 = filters s"
            by (intro snd(2)) (use 3 in auto)
          have tog3: "toggled ?s3 fd a True ?b2" using tog st by (simp add: toggled_def)
          have nr: "\<not> r \<le> 0" and eq: "?s3 = put_buffer a (?b\<lparr>b_size := 0\<rparr>) s2" using 3 by simp_all
          have "kq_recv_loop fd a s = kq_recv_loop fd a ?s3" using step g x Inr False d 3 by simp
          moreover have "kq_recv_loop fd a ?s3 = Inl Killed \<or>
              (\<exists>s'. kq_recv_loop fd a ?s3 = Inr s' \<and> kq_ok base ls s' \<and> kkeeps fd ?s3 s')"
            using "1.IH" [OF g x [symmetric] Inr False d refl nr 3(2), folded eq, of ?b2] st fd tog3 by blast
          ultimately show ?thesis using st kkeeps_trans by metis
        qed
      qed
    qed
  qed
qed

section \<open>Events\<close>

text \<open>An event that the kernel reports: an enabled filter, its \<open>udata\<close>, a small error number.\<close>

definition kevent_ok :: "kq \<Rightarrow> kevent \<Rightarrow> bool" where
  "kevent_ok s ev \<longleftrightarrow> filters s (ke_ident ev, ke_filter ev) = Some (True, ke_udata ev) \<and>
     (\<exists>e::u8. ke_fflags ev = ucast e)"

lemma fflags_small:
  fixes e :: u8
  shows "(ucast e :: u32) AND ucast EV_EOF = 0 \<and> (ucast e :: u32) AND ucast EV_ERROR = 0"
proof -
  have no: "\<not> bit (0x8000 :: u32) n \<and> \<not> bit (0x4000 :: u32) n" if "n < 8" for n
  proof -
    have "n = 0 \<or> n = 1 \<or> n = 2 \<or> n = 3 \<or> n = 4 \<or> n = 5 \<or> n = 6 \<or> n = 7" using that by arith
    then show ?thesis by (elim disjE) simp_all
  qed
  have "(ucast e :: u32) AND 0x8000 = 0" "(ucast e :: u32) AND 0x4000 = 0"
    by (rule bit_word_eqI; use no in \<open>auto simp: bit_simps dest: bit_imp_le_length\<close>)+
  then show ?thesis by (simp add: EV_EOF_def EV_ERROR_def)
qed

lemma kq_handle_ok:
  assumes inv: "kq_ok base ls s" and ev: "kevent_ok s ev"
  shows "kq_handle ls ev s = Inl Killed \<or>
    (\<exists>s'. kq_handle ls ev s = Inr (False, s') \<and> kq_ok base ls s' \<and> kkeeps (ke_ident ev) s s')"
proof -
  let ?fd = "ke_ident ev"
  have e: "filters s (?fd, ke_filter ev) = Some (True, ke_udata ev)"
    "ke_fflags ev AND ucast EV_EOF = 0" "ke_fflags ev AND ucast EV_ERROR = 0"
    using ev fflags_small by (auto simp: kevent_ok_def)
  show ?thesis
  proof (cases "?fd \<in> set ls")
    case True
    then show ?thesis using kq_accept_loop_ok [OF inv, of ?fd ?fd] e by (auto simp: kq_handle_def)
  next
    case False
    then obtain a on b where k: "kconn s ?fd a on b" "buf_ok b" "toggled s ?fd a on b"
      using inv e(1) unfolding kq_okx_def kconns_ok_def by blast
    then have g: "get_buffer a s = Inr b" by (simp add: kconn_def get_buffer_def)
    show ?thesis
    proof (cases "ke_filter ev")
      case EVFILT_READ
      then have on: "ke_udata ev = Some a" "on" "b_size b = 0" using e(1) k by (auto simp: kconn_def toggled_def)
      then have "kconn s ?fd a True b" "toggled s ?fd a True b" using k by simp_all
      then have "kq_recv_loop ?fd a s = Inl Killed \<or>
          (\<exists>s'. kq_recv_loop ?fd a s = Inr s' \<and> kq_ok base ls s' \<and> kkeeps ?fd s s')"
        using kq_recv_loop_ok [OF inv _ False _ k(2)] by blast
      then show ?thesis using on e False g EVFILT_READ by (auto simp: kq_handle_def the_udata_def)
    next
      case EVFILT_WRITE
      then have on: "ke_udata ev = Some a" "\<not> on" "b_size b \<noteq> 0" using e(1) k by (auto simp: toggled_def)
      then have "kconn s ?fd a False b" "toggled s ?fd a False b" using k by simp_all
      then have "kq_write ?fd a s = Inl Killed \<or>
          (\<exists>s'. kq_write ?fd a s = Inr s' \<and> kq_ok base ls s' \<and> kkeeps ?fd s s')"
        using kq_write_ok [OF inv _ False k(2)] by blast
      then show ?thesis using on e False g EVFILT_WRITE by (auto simp: kq_handle_def the_udata_def)
    qed
  qed
qed

text \<open>No two enabled filters share a descriptor, so the events of a batch do not disturb each other.\<close>

lemma one_filter:
  assumes inv: "kq_ok base ls s" and e: "filters s (fd, f) = Some (True, d)" "filters s (fd, f') = Some (True, d')"
  shows "f = f'"
proof (cases "fd \<in> set ls")
  case True
  then have "filters s (fd, EVFILT_WRITE) = None" using inv unfolding kq_okx_def kreg_ok_def by blast
  then show ?thesis using e by (cases f; cases f') auto
next
  case False
  then obtain a on b where "kconn s fd a on b" "toggled s fd a on b"
    using inv e(1) unfolding kq_okx_def kconns_ok_def by blast
  then show ?thesis using e by (cases f; cases f') (auto simp: kconn_def toggled_def)
qed

lemma kq_handle_all_ok:
  "kq_ok base ls s \<Longrightarrow> distinct (map ke_ident evs) \<Longrightarrow> \<forall>ev\<in>set evs. kevent_ok s ev \<Longrightarrow>
    kq_handle_all ls evs s = Inl Killed \<or>
    (\<exists>s'. kq_handle_all ls evs s = Inr (False, s') \<and> kq_ok base ls s' \<and> kqfd s' = kqfd s)"
proof (induction evs arbitrary: s)
  case (Cons ev evs)
  consider "kq_handle ls ev s = Inl Killed"
    | s1 where "kq_handle ls ev s = Inr (False, s1)" "kq_ok base ls s1" "kkeeps (ke_ident ev) s s1"
    using kq_handle_ok [OF Cons.prems(1)] Cons.prems(3) by force
  then show ?case
  proof cases
    case 1
    then show ?thesis by simp
  next
    case s1: (2 s1)
    have "kevent_ok s1 e" if "e \<in> set evs" for e
    proof -
      have "ke_ident ev \<notin> ke_ident ` set evs" using Cons.prems(2) by simp
      then have "ke_ident e \<noteq> ke_ident ev" using that by (metis imageI)
      moreover have "kevent_ok s e" using Cons.prems(3) that by simp
      moreover have "filters s1 (ke_ident e, ke_filter e) = filters s (ke_ident e, ke_filter e)"
        using s1(3) calculation unfolding kkeeps_def kevent_ok_def by (metis option.distinct(1))
      ultimately show ?thesis by (simp add: kevent_ok_def)
    qed
    then show ?thesis using Cons.IH [OF s1(2)] Cons.prems(2) s1 by (auto simp: kkeeps_def)
  qed
qed simp

lemma kq_ready_ok:
  assumes inv: "kq_ok base ls s"
  shows "distinct (map ke_ident (kq_ready batch s)) \<and> (\<forall>ev\<in>set (kq_ready batch s). kevent_ok s ev)"
proof -
  define f where "f = (\<lambda>k. case filters s k of
       Some (True, d) \<Rightarrow> map_option (\<lambda>(flags, e::u8). \<lparr>ke_ident = fst k, ke_filter = snd k, ke_flags = flags,
           ke_fflags = ucast e, ke_udata = d\<rparr>) (map_of batch k)
     | _ \<Rightarrow> None)"
  have ok: "kevent_ok s ev \<and> k = (ke_ident ev, ke_filter ev)" if "f k = Some ev" for k ev
    using that by (cases k) (auto simp: f_def kevent_ok_def split: option.splits prod.splits bool.splits)
  have "distinct (map ke_ident (List.map_filter f ks)) \<and>
      (\<forall>x\<in>set (List.map_filter f ks). kevent_ok s x \<and> (ke_ident x, ke_filter x) \<in> set ks)"
    if "distinct ks" for ks
    using that
  proof (induction ks)
    case (Cons k ks)
    show ?case
    proof (cases "f k")
      case (Some x)
      have "ke_ident y \<noteq> ke_ident x" if y: "y \<in> set (List.map_filter f ks)" for y
      proof
        assume same: "ke_ident y = ke_ident x"
        have yk: "kevent_ok s y" "(ke_ident y, ke_filter y) \<in> set ks" using Cons y by auto
        then have "ke_filter y = ke_filter x"
          using one_filter [OF inv] ok [OF Some] same by (metis kevent_ok_def)
        then show False using yk(2) ok [OF Some] same Cons.prems by simp
      qed
      then have "ke_ident x \<notin> ke_ident ` set (List.map_filter f ks)" by force
      then show ?thesis using Cons Some ok [OF Some] by (simp add: map_filter_simps)
    qed (use Cons in \<open>auto simp: map_filter_simps\<close>)
  qed (simp add: map_filter_simps)
  from this [of "remdups (map fst batch)"] show ?thesis
    unfolding kq_ready_def f_def [symmetric] by (auto simp: take_map [symmetric] dest!: in_set_takeD)
qed

section \<open>The loop\<close>

lemma kq_ok_closing: "kq_ok base ls s \<Longrightarrow> closing_ok ls s"
  by (auto simp: kq_okx_def kreg_ok_def kecho_ok_def closing_ok_def)

lemma queue_loop_ok:
  "kq_ok base ls s \<Longrightarrow>
    queue_loop ls ws s = Inl Killed \<or>
    (\<exists>r s'. queue_loop ls ws s = Inr (r, s') \<and> kqfd s' = kqfd s \<and> kq_ok base ls s' \<and> (r = None \<or> r = Some 6))"
proof (induction ls ws s rule: queue_loop.induct)
  case (3 ls batch ws s)
  consider "kq_handle_all ls (kq_ready batch s) s = Inl Killed"
    | s1 where "kq_handle_all ls (kq_ready batch s) s = Inr (False, s1)" "kq_ok base ls s1" "kqfd s1 = kqfd s"
    using kq_handle_all_ok [OF "3.prems"] kq_ready_ok [OF "3.prems"] by blast
  then show ?case
  proof cases
    case 2
    then show ?thesis using "3.IH" [OF 2(1) refl] by simp
  qed simp
qed auto

end
