(* ===== verification/ShoutKqueueClaims.thy ===== *)
theory ShoutKqueueClaims
  imports ShoutKqueueInv ShoutPipe
begin

text \<open>
  The BSD shout server as a whole: \<open>main\<close> with \<open>queue\<close> from its start on, whatever the kernel
  answers and whichever events it reports.
\<close>

definition kq_start :: "answer list \<Rightarrow> kq" where
  "kq_start script = \<lparr>answers = script, fds = [0, 1, 2], bufs = Map.empty, lim = 0, sent = (\<lambda>_. []),
     rcvd = (\<lambda>_. []), third = False, kqfd = 0, filters = Map.empty\<rparr>"












text \<open>
  The BSD server leaks a descriptor for each connection it has no memory for: where \<open>calloc\<close>
  fails, the accepted socket stays open, in no filter and with no buffer.
\<close>

theorem kq_accept_leak:
  assumes "answers s = Fine # Fine # Fine # Fails # as"
  shows "\<exists>s'. kq_accept_loop lfd s = Inr s' \<and> fds s' = free_fd (fds s) # fds s \<and>
    filters s' = filters s \<and> bufs s' = bufs s"
  using assms
  by (simp add: kq_accept_loop.simps sys_accept_def ask_def Let_def set_nonblocking_def call_def calloc_buffer_def)

lemma kq_accept_leak_witness:
  "\<exists>s'. kq_accept_loop 3 (kq_start [Fine, Fine, Fine, Fails]) = Inr s' \<and> fds s' = [3, 0, 1, 2] \<and> filters s' = Map.empty"
  using kq_accept_leak [of "kq_start [Fine, Fine, Fine, Fails]" "[]" 3]
  by (auto simp: kq_start_def free_fd_def)

end
