(* ===== verification/Tokens.thy ===== *)
theory Tokens
  imports Prelude
begin

text \<open>
  \<open>strtok\<close> over the separators blank, tab and newline, as the shells use it to cut a line into
  words, and the words of a line as a reference: its maximal runs without a separator.
\<close>

definition is_delim :: "char \<Rightarrow> bool" where
  "is_delim c \<longleftrightarrow> c = CHR '' '' \<or> c = CHR 0x09 \<or> c = CHR 0x0A"

text \<open>A call of \<open>strtok\<close>: the token, and what the next call goes on with.\<close>

definition strtok :: "string \<Rightarrow> (string \<times> string) option" where
  "strtok s = (let t = dropWhile is_delim s
     in if t = [] then None
        else Some (takeWhile (\<lambda>c. \<not> is_delim c) t, drop 1 (dropWhile (\<lambda>c. \<not> is_delim c) t)))"

fun fields :: "string \<Rightarrow> string list" where
  "fields [] = [[]]"
| "fields (c # cs) =
     (if is_delim c then [] # fields cs
      else (case fields cs of [] \<Rightarrow> [[c]] | f # fs \<Rightarrow> (c # f) # fs))"

definition words :: "string \<Rightarrow> string list" where
  "words s = filter (\<lambda>f. f \<noteq> []) (fields s)"

lemma fields_not_Nil [simp]: "fields s \<noteq> []"
  by (induction s) (auto split: list.splits)

lemma words_Nil [simp]: "words [] = []"
  by (simp add: words_def)

lemma words_skip: "is_delim c \<Longrightarrow> words (c # s) = words s"
  by (simp add: words_def)

lemma words_dropWhile: "words (dropWhile is_delim s) = words s"
  by (induction s) (auto simp: words_skip)

lemma fields_run:
  "\<forall>c\<in>set f. \<not> is_delim c \<Longrightarrow> fields (f @ s) = (f @ hd (fields s)) # tl (fields s)"
  by (induction f) (auto split: list.splits)

lemma words_run:
  assumes "f \<noteq> []" "\<forall>c\<in>set f. \<not> is_delim c" "s = [] \<or> is_delim (hd s)"
  shows "words (f @ s) = f # words (drop 1 s)"
  using assms fields_run [OF assms(2), of s] by (cases s) (auto simp: words_def)

lemma words_token:
  assumes "t \<noteq> []" "\<not> is_delim (hd t)"
  shows "takeWhile (\<lambda>c. \<not> is_delim c) t \<noteq> []"
    and "words t = takeWhile (\<lambda>c. \<not> is_delim c) t # words (drop 1 (dropWhile (\<lambda>c. \<not> is_delim c) t))"
proof -
  let ?f = "takeWhile (\<lambda>c. \<not> is_delim c) t" and ?r = "dropWhile (\<lambda>c. \<not> is_delim c) t"
  show f: "?f \<noteq> []" using assms by (cases t) simp_all
  have "?r = [] \<or> is_delim (hd ?r)" using hd_dropWhile [of "\<lambda>c. \<not> is_delim c" t] by blast
  moreover have "\<forall>c\<in>set ?f. \<not> is_delim c" by (blast dest: set_takeWhileD)
  ultimately have "words (?f @ ?r) = ?f # words (drop 1 ?r)" using f by (intro words_run)
  then show "words t = ?f # words (drop 1 ?r)" by simp
qed

lemma strtok_None: "strtok s = None \<longleftrightarrow> words s = []"
proof (cases "dropWhile is_delim s = []")
  case True
  have "words s = words []" using words_dropWhile [of s] unfolding True by (rule sym)
  then show ?thesis using True by (simp add: strtok_def)
next
  case False
  then show ?thesis
    using words_token(2) [OF False hd_dropWhile [OF False]] words_dropWhile [of s]
    by (simp add: strtok_def Let_def)
qed

lemma strtok_Some:
  assumes "strtok s = Some (tok, rest)"
  shows "words s = tok # words rest \<and> length rest < length s"
proof -
  let ?t = "dropWhile is_delim s" and ?p = "\<lambda>c. \<not> is_delim c"
  have t: "?t \<noteq> []" "tok = takeWhile ?p ?t" "rest = drop 1 (dropWhile ?p ?t)"
    using assms by (simp_all add: strtok_def Let_def split: if_splits)
  note tw = words_token [OF t(1) hd_dropWhile [OF t(1)]]
  have "length (takeWhile ?p ?t @ dropWhile ?p ?t) \<le> length s"
    unfolding takeWhile_dropWhile_id by (rule length_dropWhile_le)
  then have "length tok + length (dropWhile ?p ?t) \<le> length s" unfolding length_append t(2) .
  moreover have "0 < length tok" using tw(1) t(2) by simp
  moreover have "length rest \<le> length (dropWhile ?p ?t)" using t(3) by simp
  ultimately have "length rest < length s" by linarith
  then show ?thesis using tw(2) t words_dropWhile [of s] by simp
qed

lemma words_no_delim: "w \<in> set (words s) \<Longrightarrow> w \<noteq> [] \<and> (\<forall>c\<in>set w. \<not> is_delim c)"
proof -
  have "\<forall>f\<in>set (fields s). \<forall>c\<in>set f. \<not> is_delim c"
    by (induction s) (auto split: list.splits)
  then show "w \<in> set (words s) \<Longrightarrow> w \<noteq> [] \<and> (\<forall>c\<in>set w. \<not> is_delim c)" by (auto simp: words_def)
qed

section \<open>Cells of an argument vector\<close>

datatype cell = Raw | Nul | Tok string

type_synonym argv = "cell list"

text \<open>The arguments before the terminating \<open>NULL\<close>.\<close>

fun args :: "argv \<Rightarrow> string list" where
  "args (Tok t # cs) = t # args cs"
| "args _ = []"

lemma args_toks [simp]: "args (map Tok ws @ Nul # cs) = ws"
  by (induction ws) auto

end
