(* ===== verification/Shell.thy ===== *)
theory Shell
  imports Tokens
begin

text \<open>
  The shell of
  \<open>05-operating-systems/02-programs-and-processes/03-custom-shell-basic-execution/shell_basic.c\<close> and
  \<open>old/headache_shell.c\<close>, which differs from it in \<open>parse_cmd\<close>. Allocation and \<open>fork\<close> are parameters that say
  when they succeed; what the terminal and the child do is a sequence of events. A line is the
  text that \<open>getline\<close> returns, with its newline.
\<close>

section \<open>Parsing\<close>

definition INIT_ARG_CNT :: nat where
  "INIT_ARG_CNT = 10"

text \<open>An operation that may end the process: its exit status or its value.\<close>

type_synonym 'a run = "(nat + 'a) res"

abbreviation EXIT_FAILURE :: nat where
  "EXIT_FAILURE \<equiv> 1"

abbreviation EXIT_SUCCESS :: nat where
  "EXIT_SUCCESS \<equiv> 0"

text \<open>
  The loop of \<open>parse_cmd\<close>: \<open>sz\<close> cells are allocated, \<open>n\<close> are written, \<open>s\<close> is left of the line.
  \<open>alloc\<close> says whether an array of so many cells can be had; the cells \<open>reallocarray\<close> adds are
  not initialised. \<open>sz\<close> is an \<open>int\<close>: to double it beyond \<open>INT_MAX\<close> is a fault. \<open>n\<close> never exceeds \<open>sz\<close>.
\<close>

function parse_loop :: "(nat \<Rightarrow> bool) \<Rightarrow> argv \<Rightarrow> nat \<Rightarrow> nat \<Rightarrow> string \<Rightarrow> argv run" where
  "parse_loop alloc cmd sz n s =
     (case strtok s of
        None \<Rightarrow> andthen (wr cmd n Nul) (\<lambda>cmd'. Inr (Inr cmd'))
      | Some (token, rest) \<Rightarrow>
          andthen (wr cmd n (Tok token)) (\<lambda>cmd'.
            if Suc n = sz
            then (if INT_MAX < 2 * int sz then Inl Overflow
                  else if alloc (2 * sz)
                  then parse_loop alloc (cmd' @ replicate sz Raw) (2 * sz) (Suc n) rest
                  else Inr (Inl EXIT_FAILURE))
            else parse_loop alloc cmd' sz (Suc n) rest))"
  by pat_completeness auto
termination
  by (relation "measure (\<lambda>(alloc, cmd, sz, n, s). length s)") (auto dest: strtok_Some)

declare parse_loop.simps [simp del]

definition parse_cmd :: "(nat \<Rightarrow> bool) \<Rightarrow> string \<Rightarrow> argv run" where
  "parse_cmd alloc line =
     (if alloc INIT_ARG_CNT then parse_loop alloc (replicate INIT_ARG_CNT Nul) INIT_ARG_CNT 0 line
      else Inr (Inl EXIT_FAILURE))"

text \<open>The older version tests for growth before each token and writes the \<open>NULL\<close> after the loop.\<close>

function old_parse_loop :: "(nat \<Rightarrow> bool) \<Rightarrow> argv \<Rightarrow> nat \<Rightarrow> nat \<Rightarrow> string \<Rightarrow> argv run" where
  "old_parse_loop alloc cmd sz n s =
     (case strtok s of
        None \<Rightarrow> andthen (wr cmd n Nul) (\<lambda>cmd'. Inr (Inr cmd'))
      | Some (token, rest) \<Rightarrow>
          (if n = sz
           then (if INT_MAX < 2 * int sz then Inl Overflow
                 else if alloc (2 * sz)
                 then andthen (wr (cmd @ replicate sz Raw) n (Tok token)) (\<lambda>cmd'.
                        old_parse_loop alloc cmd' (2 * sz) (Suc n) rest)
                 else Inr (Inl EXIT_FAILURE))
           else andthen (wr cmd n (Tok token)) (\<lambda>cmd'. old_parse_loop alloc cmd' sz (Suc n) rest)))"
  by pat_completeness auto
termination
  by (relation "measure (\<lambda>(alloc, cmd, sz, n, s). length s)") (auto dest: strtok_Some)

declare old_parse_loop.simps [simp del]

definition old_parse_cmd :: "(nat \<Rightarrow> bool) \<Rightarrow> string \<Rightarrow> argv run" where
  "old_parse_cmd alloc line =
     (if alloc INIT_ARG_CNT then old_parse_loop alloc (replicate INIT_ARG_CNT Nul) INIT_ARG_CNT 0 line
      else Inr (Inl EXIT_FAILURE))"

section \<open>Builtins\<close>

text \<open>\<open>strcmp\<close> of the first cell with a literal.\<close>

definition strcmp0 :: "argv \<Rightarrow> string \<Rightarrow> bool res" where
  "strcmp0 cmd lit = andthen (rd cmd 0) (\<lambda>c.
     case c of Raw \<Rightarrow> Inl Uninit | Nul \<Rightarrow> Inl NullDeref | Tok t \<Rightarrow> Inr (t = lit))"

definition handle_builtin :: "argv \<Rightarrow> bool run" where
  "handle_builtin cmd =
     andthen (strcmp0 cmd ''help'') (\<lambda>b.
       if b then Inr (Inr True)
       else andthen (strcmp0 cmd ''quit'') (\<lambda>b'.
         if b' then Inr (Inl EXIT_SUCCESS) else Inr (Inr False)))"

section \<open>The shell\<close>

text \<open>The prompts: clown, monkey after an interrupt, knife after a killed child, or after a failed one.\<close>

datatype prompt = Clown | Monkey | Knife | Poop

datatype out = Prompt prompt | Help | Skull | Spawn "string list" | Kill

datatype cld = CLD_NONE | CLD_EXITED | CLD_KILLED

record siginfo =
  si_code :: cld
  si_status :: nat

text \<open>
  Where the shell is: in \<open>getline\<close>, in \<open>waitid\<close> for a child, at its end, or stopped by a fault.
  \<open>SIGINT\<close> is let through while it reads, and while it waits until the first one: the jump out of
  the handler goes back to the signal mask that \<open>sigsetjmp\<close> has saved, which blocks it, and only
  the next \<open>handle_input\<close> lets it through again. \<open>sh_pending\<close> is a blocked signal.
\<close>

datatype phase = Reading | Waiting bool | Ended nat | Faulted fault

record shell =
  phase :: phase
  sh_pending :: bool
  sh_log :: "out list"

datatype sev = Line string | Eof | Sigint | Child siginfo

definition emit :: "out list \<Rightarrow> shell \<Rightarrow> shell" where
  "emit os s = s\<lparr>sh_log := sh_log s @ os\<rparr>"

text \<open>
  The start of \<open>handle_input\<close>: the prompt for the last child, then \<open>unblock_sigint\<close>, where a
  pending signal jumps back to a new prompt, and \<open>getline\<close>.
\<close>

definition first_prompt :: "siginfo \<Rightarrow> prompt" where
  "first_prompt info = (if si_code info = CLD_KILLED then Knife else if si_status info \<noteq> 0 then Poop else Clown)"

definition handle_input :: "siginfo \<Rightarrow> shell \<Rightarrow> shell" where
  "handle_input info s =
     (emit (Prompt (first_prompt info) # (if sh_pending s then [Prompt Monkey] else [])) s)
       \<lparr>phase := Reading, sh_pending := False\<rparr>"

text \<open>\<open>run_cmd\<close> up to \<open>waitid\<close>; \<open>forks\<close> says whether \<open>fork\<close> succeeds.\<close>

definition run_cmd :: "(string list \<Rightarrow> bool) \<Rightarrow> argv \<Rightarrow> shell \<Rightarrow> shell" where
  "run_cmd forks cmd s =
     (if forks (args cmd) then (emit [Spawn (args cmd)] s)\<lparr>phase := Waiting False\<rparr>
      else s\<lparr>phase := Ended EXIT_FAILURE\<rparr>)"

text \<open>
  The body of the loop of \<open>main\<close> for one line, which is not just a newline; \<open>parse\<close> is \<open>parse_cmd\<close>.
\<close>

definition exited :: siginfo where
  "exited = \<lparr>si_code = CLD_EXITED, si_status = 0\<rparr>"

definition main_body :: "(string \<Rightarrow> argv run) \<Rightarrow> (string list \<Rightarrow> bool) \<Rightarrow> string \<Rightarrow> shell \<Rightarrow> shell" where
  "main_body parse forks line s =
     (case parse line of
        Inl e \<Rightarrow> s\<lparr>phase := Faulted e\<rparr>
      | Inr (Inl k) \<Rightarrow> s\<lparr>phase := Ended k\<rparr>
      | Inr (Inr cmd) \<Rightarrow>
          (case handle_builtin cmd of
             Inl e \<Rightarrow> s\<lparr>phase := Faulted e\<rparr>
           | Inr (Inl k) \<Rightarrow> (emit [Skull] s)\<lparr>phase := Ended k\<rparr>
           | Inr (Inr True) \<Rightarrow> handle_input exited (emit [Help] s)
           | Inr (Inr False) \<Rightarrow> run_cmd forks cmd s))"

text \<open>One event, \<open>None\<close> where it cannot happen.\<close>

definition shell_step :: "(string \<Rightarrow> argv run) \<Rightarrow> (string list \<Rightarrow> bool) \<Rightarrow> shell \<Rightarrow> sev \<Rightarrow> shell option" where
  "shell_step parse forks s ev =
     (case (phase s, ev) of
        (Reading, Line l) \<Rightarrow>
          Some (if l = [CHR 0x0A] then emit [Prompt Clown] s else main_body parse forks l s)
      | (Reading, Eof) \<Rightarrow> Some ((emit [Skull] s)\<lparr>phase := Ended EXIT_SUCCESS\<rparr>)
      | (Reading, Sigint) \<Rightarrow> Some (emit [Prompt Monkey] s)
      | (Waiting False, Sigint) \<Rightarrow> Some ((emit [Kill] s)\<lparr>phase := Waiting True\<rparr>)
      | (Waiting True, Sigint) \<Rightarrow> Some (s\<lparr>sh_pending := True\<rparr>)
      | (Waiting b, Child info) \<Rightarrow> Some (handle_input info s)
      | _ \<Rightarrow> None)"

fun shell_run :: "(string \<Rightarrow> argv run) \<Rightarrow> (string list \<Rightarrow> bool) \<Rightarrow> sev list \<Rightarrow> shell \<Rightarrow> shell option" where
  "shell_run parse forks [] s = Some s"
| "shell_run parse forks (ev # evs) s =
     (case shell_step parse forks s ev of None \<Rightarrow> None | Some s' \<Rightarrow> shell_run parse forks evs s')"

text \<open>The older shell is the same around its own \<open>parse_cmd\<close>.\<close>

definition old_main_body :: "(nat \<Rightarrow> bool) \<Rightarrow> (string list \<Rightarrow> bool) \<Rightarrow> string \<Rightarrow> shell \<Rightarrow> shell" where
  "old_main_body alloc forks = main_body (old_parse_cmd alloc) forks"

definition old_shell_run :: "(nat \<Rightarrow> bool) \<Rightarrow> (string list \<Rightarrow> bool) \<Rightarrow> sev list \<Rightarrow> shell \<Rightarrow> shell option" where
  "old_shell_run alloc forks = shell_run (old_parse_cmd alloc) forks"

definition shell_start :: shell where
  "shell_start = handle_input \<lparr>si_code = CLD_NONE, si_status = 0\<rparr> 
     \<lparr>phase = Reading, sh_pending = False, sh_log = []\<rparr>"

section \<open>Parsing gives the words\<close>

text \<open>The number of words at which \<open>sz\<close> would have to grow beyond \<open>INT_MAX\<close>.\<close>

definition max_argc :: nat where
  "max_argc = INIT_ARG_CNT * 2 ^ 27"

definition sz_ok :: "nat \<Rightarrow> bool" where
  "sz_ok sz \<longleftrightarrow> (\<exists>j\<le>27. sz = INIT_ARG_CNT * 2 ^ j)"

lemma sz_okD:
  assumes "sz_ok sz"
  shows "0 < sz" "sz \<le> max_argc" "(INT_MAX < 2 * int sz) = (sz = max_argc)"
    "sz \<noteq> max_argc \<Longrightarrow> sz_ok (2 * sz)"
proof -
  obtain j where j: "j \<le> 27" "sz = INIT_ARG_CNT * 2 ^ j" using assms by (auto simp: sz_ok_def)
  show "0 < sz" using j by (simp add: INIT_ARG_CNT_def)
  have "(2 :: nat) ^ j \<le> 2 ^ 27" using j(1) by (intro power_increasing) auto
  then show le: "sz \<le> max_argc" using j(2) by (simp add: max_argc_def)
  have less: "j < 27" if "sz \<noteq> max_argc" using j that by (cases "j = 27") (auto simp: max_argc_def)
  have "sz \<le> 10 * 2 ^ 26" if "sz \<noteq> max_argc"
  proof -
    have "(2 :: nat) ^ j \<le> 2 ^ 26" using less [OF that] by (intro power_increasing) auto
    then show ?thesis using j(2) by (simp add: INIT_ARG_CNT_def)
  qed
  then show "(INT_MAX < 2 * int sz) = (sz = max_argc)"
    by (cases "sz = max_argc") (auto simp: INT_MAX_def max_argc_def INIT_ARG_CNT_def)
  show "sz_ok (2 * sz)" if "sz \<noteq> max_argc"
    unfolding sz_ok_def using less [OF that] j(2) by (intro exI [of _ "Suc j"]) simp
qed

lemma sz_ok_init: "sz_ok INIT_ARG_CNT"
  unfolding sz_ok_def by (intro exI [of _ 0]) simp

lemma parse_loop_words:
  "length cmd = sz \<Longrightarrow> n < sz \<Longrightarrow> take n cmd = map Tok ws \<Longrightarrow> sz_ok sz \<Longrightarrow>
    (\<exists>k. parse_loop alloc cmd sz n s = Inr (Inl k)) \<and> \<not> (\<forall>m. alloc m) \<or>
    parse_loop alloc cmd sz n s = Inl Overflow \<and> max_argc \<le> n + length (words s) \<or>
    (\<exists>cs. parse_loop alloc cmd sz n s = Inr (Inr (map Tok (ws @ words s) @ Nul # cs))) \<and>
      n + length (words s) < max_argc"
proof (induction alloc cmd sz n s arbitrary: ws rule: parse_loop.induct)
  case (1 alloc cmd sz n s)
  note step = parse_loop.simps [of alloc cmd sz n s]
  note sz_ok = sz_okD [OF "1.prems"(4)]
  have put: "take (Suc n) (cmd[n := c]) = take n cmd @ [c]" "cmd[n := c] = take n cmd @ c # drop (Suc n) cmd" for c
    using "1.prems"(1,2) by (simp_all add: take_Suc_conv_app_nth upd_conv_take_nth_drop)
  show ?case
  proof (cases "strtok s")
    case None
    then have "words s = []" by (simp add: strtok_None)
    moreover have "parse_loop alloc cmd sz n s = Inr (Inr (cmd[n := Nul]))"
      using step None "1.prems"(1,2) by simp
    ultimately show ?thesis using put(2) [of Nul] "1.prems"(2,3) sz_ok(2) by simp
  next
    case (Some x)
    then obtain tok rest where x: "strtok s = Some (tok, rest)" by (cases x) auto
    let ?cmd = "cmd[n := Tok tok]"
    have w: "words s = tok # words rest" using strtok_Some [OF x] by simp
    have wr: "wr cmd n (Tok tok) = Inr ?cmd" using "1.prems" by simp
    have tk: "take (Suc n) ?cmd = map Tok (ws @ [tok])" using put(1) "1.prems"(3) by simp
    consider "Suc n \<noteq> sz" | "Suc n = sz" "sz = max_argc" | "Suc n = sz" "sz \<noteq> max_argc" "\<not> alloc (2 * sz)"
      | "Suc n = sz" "sz \<noteq> max_argc" "alloc (2 * sz)" by blast
    then show ?thesis
    proof cases
      case 1
      then have "Suc n < sz" using "1.prems"(2) by simp
      then show ?thesis
        using "1.IH"(2) [OF x refl 1 _ _ tk "1.prems"(4)] "1.prems"(1) step x wr 1 w by simp
    next
      case 2
      then show ?thesis using step x wr sz_ok(3) w by simp
    next
      case 3
      then show ?thesis using step x wr sz_ok(3) by auto
    next
      case 4
      have len: "length ?cmd = Suc n" using 4(1) "1.prems"(1) by simp
      have no: "\<not> INT_MAX < 2 * int sz" using sz_ok(3) 4(2) by simp
      have "take (Suc n) (?cmd @ replicate sz Raw) = take (Suc n) ?cmd" unfolding take_append len by simp
      then have "take (Suc n) (?cmd @ replicate sz Raw) = map Tok (ws @ [tok])" using tk by (rule trans)
      moreover have "length (?cmd @ replicate sz Raw) = 2 * sz" "Suc n < 2 * sz" using 4(1) "1.prems"(1,2) by simp_all
      moreover have "parse_loop alloc cmd sz n s = parse_loop alloc (?cmd @ replicate sz Raw) (2 * sz) (Suc n) rest"
        using step x wr 4 no by simp
      moreover have "Suc n + length (words rest) = n + length (words s)" using w by simp
      ultimately show ?thesis
        using "1.IH"(1) [OF x refl 4(1) no 4(3), of ?cmd "ws @ [tok]"] sz_ok(4) [OF 4(2)] w
        by (simp only: append_assoc map_append append_Cons append_Nil)
    qed
  qed
qed

lemma parse_cmd_cases:
  "(\<exists>k. parse_cmd alloc s = Inr (Inl k)) \<and> \<not> (\<forall>m. alloc m) \<or>
    parse_cmd alloc s = Inl Overflow \<and> max_argc \<le> length (words s) \<or>
    (\<exists>cs. parse_cmd alloc s = Inr (Inr (map Tok (words s) @ Nul # cs))) \<and> length (words s) < max_argc"
  using parse_loop_words [of "replicate INIT_ARG_CNT Nul" INIT_ARG_CNT 0 "[]" alloc s] sz_ok_init
  by (auto simp: parse_cmd_def INIT_ARG_CNT_def)

lemma old_parse_loop_words:
  "length cmd = sz \<Longrightarrow> n \<le> sz \<Longrightarrow> take n cmd = map Tok ws \<Longrightarrow> sz_ok sz \<Longrightarrow> alloc = (\<lambda>_. True) \<Longrightarrow>
    (max_argc < n + length (words s) \<longrightarrow> old_parse_loop alloc cmd sz n s = Inl Overflow) \<and>
    (n + length (words s) \<le> max_argc \<longrightarrow> (\<exists>k. n + length (words s) = sz * 2 ^ k) \<longrightarrow>
      old_parse_loop alloc cmd sz n s = Inl OutOfBounds) \<and>
    (n + length (words s) \<le> max_argc \<longrightarrow> (\<nexists>k. n + length (words s) = sz * 2 ^ k) \<longrightarrow>
      (\<exists>cs. old_parse_loop alloc cmd sz n s = Inr (Inr (map Tok (ws @ words s) @ Nul # cs))))"
proof (induction alloc cmd sz n s arbitrary: ws rule: old_parse_loop.induct)
  case (1 alloc cmd sz n s)
  note step = old_parse_loop.simps [of alloc cmd sz n s]
  note sz_ok = sz_okD [OF "1.prems"(4)]
  have big: "sz \<le> sz * 2 ^ k" for k :: nat by simp
  show ?case
  proof (cases "strtok s")
    case None
    then have w: "words s = []" by (simp add: strtok_None)
    have le: "n \<le> max_argc" using "1.prems"(2) sz_ok(2) by simp
    show ?thesis
    proof (cases "n = sz")
      case True
      then have "\<exists>k. n + length (words s) = sz * 2 ^ k" using w by (intro exI [of _ 0]) simp
      moreover have "old_parse_loop alloc cmd sz n s = Inl OutOfBounds"
        using step None True "1.prems"(1) by (simp add: wr_def)
      ultimately show ?thesis using le w by simp
    next
      case False
      then have "old_parse_loop alloc cmd sz n s = Inr (Inr (cmd[n := Nul]))" "n < sz"
        using step None "1.prems"(1,2) by simp_all
      moreover have "\<nexists>k. n + length (words s) = sz * 2 ^ k" using w calculation(2) big by (metis add_0_right leD list.size(3))
      ultimately show ?thesis using "1.prems"(1,3) le w by (simp add: upd_conv_take_nth_drop)
    qed
  next
    case (Some x)
    then obtain tok rest where x: "strtok s = Some (tok, rest)" by (cases x) auto
    have w: "words s = tok # words rest" using strtok_Some [OF x] by simp
    consider "n \<noteq> sz" | "n = sz" "sz = max_argc" | "n = sz" "sz \<noteq> max_argc" by blast
    then show ?thesis
    proof cases
      case 1
      let ?cmd = "cmd[n := Tok tok]"
      have "old_parse_loop alloc cmd sz n s = old_parse_loop alloc ?cmd sz (Suc n) rest"
        using step x 1 "1.prems"(1,2) by simp
      moreover have "take (Suc n) ?cmd = map Tok (ws @ [tok])"
        using 1 "1.prems"(1-3) by (simp add: take_Suc_conv_app_nth)
      ultimately show ?thesis
        using "1.IH"(2) [OF x refl 1, of ?cmd "ws @ [tok]"] "1.prems" 1 w by simp
    next
      case 2
      then show ?thesis using step x sz_ok(3) w by simp
    next
      case 3
      let ?cmd = "(cmd @ replicate sz Raw)[n := Tok tok]"
      have no: "\<not> INT_MAX < 2 * int sz" using sz_ok(3) 3(2) by simp
      have "old_parse_loop alloc cmd sz n s = old_parse_loop alloc ?cmd (2 * sz) (Suc n) rest"
        using step x 3(1) no "1.prems"(1,5) sz_ok(1) by simp
      moreover have "take (Suc n) ?cmd = map Tok (ws @ [tok])"
        using 3(1) "1.prems"(1,3) sz_ok(1) by (simp add: take_Suc_conv_app_nth)
      moreover have "(\<exists>k. n + length (words s) = sz * 2 ^ k) \<longleftrightarrow> (\<exists>k. Suc n + length (words rest) = 2 * sz * 2 ^ k)"
      proof
        assume "\<exists>k. n + length (words s) = sz * 2 ^ k"
        then obtain k where k: "n + length (words s) = sz * 2 ^ k" by blast
        then have "k \<noteq> 0" using 3(1) w by (cases k) auto
        then obtain j where "k = Suc j" using not0_implies_Suc by blast
        then show "\<exists>k. Suc n + length (words rest) = 2 * sz * 2 ^ k" using k w by auto
      next
        assume "\<exists>k. Suc n + length (words rest) = 2 * sz * 2 ^ k"
        then obtain k where "Suc n + length (words rest) = 2 * sz * 2 ^ k" by blast
        then show "\<exists>k. n + length (words s) = sz * 2 ^ k" using w by (intro exI [of _ "Suc k"]) simp
      qed
      ultimately show ?thesis
        using "1.IH"(1) [OF x refl 3(1) no, of ?cmd "ws @ [tok]"] "1.prems" sz_ok(1) sz_ok(4) [OF 3(2)] 3(1) w by simp
    qed
  qed
qed

section \<open>Runs of the shell\<close>

abbreviation in_memory :: "nat \<Rightarrow> bool" where
  "in_memory \<equiv> \<lambda>_. True"

abbreviation can_fork :: "string list \<Rightarrow> bool" where
  "can_fork \<equiv> \<lambda>_. True"

lemma handle_builtin_words:
  "handle_builtin (map Tok ws @ Nul # cs) =
     (case ws of [] \<Rightarrow> Inl NullDeref
      | w # _ \<Rightarrow> if w = ''help'' then Inr (Inr True) else if w = ''quit'' then Inr (Inl EXIT_SUCCESS) else Inr (Inr False))"
  by (cases ws) (auto simp: handle_builtin_def strcmp0_def)

lemma main_body_words:
  assumes "length (words l) < max_argc"
  shows "main_body (parse_cmd in_memory) can_fork l s =
     (case words l of [] \<Rightarrow> s\<lparr>phase := Faulted NullDeref\<rparr>
      | w # ws \<Rightarrow>
          if w = ''help'' then handle_input exited (emit [Help] s)
          else if w = ''quit'' then (emit [Skull] s)\<lparr>phase := Ended EXIT_SUCCESS\<rparr>
          else (emit [Spawn (w # ws)] s)\<lparr>phase := Waiting False\<rparr>)"
proof -
  obtain cs where "parse_cmd in_memory l = Inr (Inr (map Tok (words l) @ Nul # cs))"
    using parse_cmd_cases [of in_memory l] assms by auto
  then show ?thesis
    by (simp only: main_body_def handle_builtin_words run_cmd_def args_toks sum.case bool.case split: list.split)
      (auto split: bool.splits)
qed

fun spawned :: "out list \<Rightarrow> string list list" where
  "spawned [] = []"
| "spawned (Spawn ws # os) = ws # spawned os"
| "spawned (_ # os) = spawned os"

lemma spawned_append [simp]: "spawned (xs @ ys) = spawned xs @ spawned ys"
  by (induction xs rule: spawned.induct) auto

text \<open>The commands that the lines of a sequence of events ask for.\<close>

fun asked :: "sev list \<Rightarrow> string list list" where
  "asked [] = []"
| "asked (Line l # evs) = (if words l = [] \<or> hd (words l) = ''help'' then asked evs else words l # asked evs)"
| "asked (_ # evs) = asked evs"

definition ok_line :: "string \<Rightarrow> bool" where
  "ok_line l \<longleftrightarrow>
     l = [CHR 0x0A] \<or> words l \<noteq> [] \<and> hd (words l) \<noteq> ''quit'' \<and> length (words l) < max_argc"

definition alive :: "shell \<Rightarrow> bool" where
  "alive s \<longleftrightarrow> phase s = Reading \<or> (\<exists>b. phase s = Waiting b)"

lemma words_newline: "words [CHR 0x0A] = []"
  by (simp add: words_def is_delim_def)

lemma shell_step_alive:
  assumes "shell_step (parse_cmd in_memory) can_fork s ev = Some s'" "ev \<noteq> Eof" "\<And>l. ev = Line l \<Longrightarrow> ok_line l"
  shows "alive s' \<and> spawned (sh_log s') = spawned (sh_log s) @ asked [ev]"
  using assms words_newline
  by (cases ev; cases "phase s")
    (auto simp: shell_step_def alive_def emit_def handle_input_def main_body_words ok_line_def
      split: list.splits bool.splits if_splits)

lemma asked_Cons: "asked (ev # evs) = asked [ev] @ asked evs"
  by (cases ev) auto

lemma shell_run_alive:
  "shell_run (parse_cmd in_memory) can_fork evs s = Some s' \<Longrightarrow> alive s \<Longrightarrow> Eof \<notin> set evs \<Longrightarrow>
    \<forall>l. Line l \<in> set evs \<longrightarrow> ok_line l \<Longrightarrow>
    alive s' \<and> spawned (sh_log s') = spawned (sh_log s) @ asked evs"
proof (induction evs arbitrary: s)
  case (Cons ev evs)
  obtain s1 where s1: "shell_step (parse_cmd in_memory) can_fork s ev = Some s1" "shell_run (parse_cmd in_memory) can_fork evs s1 = Some s'"
    using Cons.prems(1) by (auto split: option.splits)
  have "alive s1 \<and> spawned (sh_log s1) = spawned (sh_log s) @ asked [ev]"
    by (rule shell_step_alive [OF s1(1)]) (use Cons.prems(3,4) in auto)
  then show ?case using Cons.IH [OF s1(2)] Cons.prems(3,4) asked_Cons [of ev evs] by auto
qed simp

section \<open>What is started\<close>

text \<open>An argument vector that can be executed: some words, none of them empty, and no builtin.\<close>

definition spawn_wf :: "string list \<Rightarrow> bool" where
  "spawn_wf ws \<longleftrightarrow> ws \<noteq> [] \<and> hd ws \<noteq> ''help'' \<and> hd ws \<noteq> ''quit'' \<and>
     (\<forall>w\<in>set ws. w \<noteq> [] \<and> (\<forall>c\<in>set w. \<not> is_delim c))"

definition log_wf :: "shell \<Rightarrow> bool" where
  "log_wf s \<longleftrightarrow> (\<forall>ws\<in>set (spawned (sh_log s)). spawn_wf ws)"

lemma emit_wf: "log_wf (emit os s) \<longleftrightarrow> (\<forall>ws\<in>set (spawned os). spawn_wf ws) \<and> log_wf s"
  by (auto simp: log_wf_def emit_def)

lemma log_wf_update [simp]:
  "log_wf (s\<lparr>phase := p\<rparr>) = log_wf s" "log_wf (s\<lparr>sh_pending := b\<rparr>) = log_wf s"
  by (simp_all add: log_wf_def)

lemma handle_input_wf: "log_wf (handle_input info s) = log_wf s"
  by (simp add: handle_input_def emit_wf)

lemma main_body_wf:
  assumes "log_wf s"
  shows "log_wf (main_body (parse_cmd alloc) forks line s)"
proof -
  consider k where "parse_cmd alloc line = Inr (Inl k)" | "parse_cmd alloc line = Inl Overflow"
    | cs where "parse_cmd alloc line = Inr (Inr (map Tok (words line) @ Nul # cs))"
    using parse_cmd_cases [of alloc line] by blast
  then show ?thesis
  proof cases
    case 3
    have "spawn_wf (w # ws)" if "words line = w # ws" "w \<noteq> ''help''" "w \<noteq> ''quit''" for w ws
      using that words_no_delim [of _ line] by (auto simp: spawn_wf_def)
    then show ?thesis using assms 3
      by (cases "words line") (auto simp: main_body_def handle_builtin_def strcmp0_def run_cmd_def handle_input_wf emit_wf)
  qed (use assms in \<open>simp_all add: main_body_def\<close>)
qed

lemma shell_run_wf: "shell_run (parse_cmd alloc) forks evs s = Some s' \<Longrightarrow> log_wf s \<Longrightarrow> log_wf s'"
proof (induction evs arbitrary: s)
  case (Cons ev evs)
  then obtain s1 where s1: "shell_step (parse_cmd alloc) forks s ev = Some s1" "shell_run (parse_cmd alloc) forks evs s1 = Some s'"
    by (auto split: option.splits)
  then have "log_wf s1" using Cons.prems(2) main_body_wf [of s alloc forks]
    by (auto simp: shell_step_def emit_wf handle_input_wf split: phase.splits sev.splits bool.splits if_splits)
  then show ?case using Cons.IH s1(2) by blast
qed simp

section \<open>The two parsers\<close>

text \<open>The lines of 10, 20, 40, ... words, up to the largest array that \<open>sz\<close> can count.\<close>

definition grows_at_end :: "string \<Rightarrow> bool" where
  "grows_at_end line \<longleftrightarrow> (\<exists>k\<le>27. length (words line) = INIT_ARG_CNT * 2 ^ k)"

lemma grows_at_end_alt:
  "grows_at_end line \<longleftrightarrow> (\<exists>k. length (words line) = INIT_ARG_CNT * 2 ^ k) \<and> length (words line) \<le> max_argc"
proof -
  have "INIT_ARG_CNT * 2 ^ k \<le> INIT_ARG_CNT * 2 ^ 27 \<longleftrightarrow> k \<le> 27" for k
    by (simp only: mult_le_cancel1 power_increasing_iff) (simp add: INIT_ARG_CNT_def)
  then show ?thesis unfolding grows_at_end_def max_argc_def by metis
qed

lemma old_parse_cases:
  "if grows_at_end line then old_parse_cmd in_memory line = Inl OutOfBounds
   else if max_argc < length (words line) then old_parse_cmd in_memory line = Inl Overflow
   else \<exists>cs. old_parse_cmd in_memory line = Inr (Inr (map Tok (words line) @ Nul # cs))"
  using old_parse_loop_words [of "replicate INIT_ARG_CNT Nul" INIT_ARG_CNT 0 "[]" in_memory line] sz_ok_init
  by (cases "max_argc < length (words line)")
    (auto simp: old_parse_cmd_def grows_at_end_alt INIT_ARG_CNT_def split: if_splits)

lemma main_body_same:
  assumes "parse line = Inr (Inr (map Tok ws @ Nul # cs))" "parse' line = Inr (Inr (map Tok ws @ Nul # cs'))"
  shows "main_body parse forks line s = main_body parse' forks line s"
  proof -
  have "args (map Tok ws @ Nul # cs) = args (map Tok ws @ Nul # cs')" by simp
  then have "run_cmd forks (map Tok ws @ Nul # cs) s = run_cmd forks (map Tok ws @ Nul # cs') s"
    by (simp only: run_cmd_def)
  moreover have "handle_builtin (map Tok ws @ Nul # cs) = handle_builtin (map Tok ws @ Nul # cs')"
    by (simp only: handle_builtin_words)
  ultimately show ?thesis by (simp only: main_body_def assms sum.case)
qed

lemma old_main_body_same:
  assumes "\<not> grows_at_end line"
  shows "old_main_body in_memory forks line s = main_body (parse_cmd in_memory) forks line s"
proof (cases "max_argc < length (words line)")
  case True
  then have "old_parse_cmd in_memory line = Inl Overflow" "parse_cmd in_memory line = Inl Overflow"
    using old_parse_cases [of line] assms parse_cmd_cases [of in_memory line] by auto
  then show ?thesis by (simp add: old_main_body_def main_body_def)
next
  case False
  moreover have "length (words line) \<noteq> max_argc" using assms by (auto simp: grows_at_end_def max_argc_def)
  ultimately obtain cs cs' where "old_parse_cmd in_memory line = Inr (Inr (map Tok (words line) @ Nul # cs))"
    "parse_cmd in_memory line = Inr (Inr (map Tok (words line) @ Nul # cs'))"
    using old_parse_cases [of line] assms parse_cmd_cases [of in_memory line] by auto
  then show ?thesis unfolding old_main_body_def by (rule main_body_same)
qed

lemma old_shell_same:
  "\<forall>l. Line l \<in> set evs \<longrightarrow> \<not> grows_at_end l \<Longrightarrow>
   old_shell_run in_memory forks evs s = shell_run (parse_cmd in_memory) forks evs s"
proof (induction evs arbitrary: s)
  case (Cons ev evs)
  have "shell_step (old_parse_cmd in_memory) forks s ev = shell_step (parse_cmd in_memory) forks s ev"
    using Cons.prems old_main_body_same unfolding old_main_body_def
    by (auto simp: shell_step_def split: phase.splits sev.splits bool.splits)
  then show ?case using Cons by (auto simp: old_shell_run_def split: option.splits)
qed (simp add: old_shell_run_def)

section \<open>Properties\<close>

text \<open>
  C20: \<open>parse_cmd\<close> is word splitting: with memory it returns exactly the words of the line, the
  maximal runs without blank, tab or newline, followed by \<open>NULL\<close>, on every line of fewer than
  \<open>10 * 2 ^ 27\<close> words; without it the shell exits. It never writes outside the array it has grown,
  and its only fault is the overflow of \<open>sz\<close>, which every longer line reaches if there is memory.
\<close>

theorem parse_cmd_words:
  "(if length (words line) < max_argc
    then \<exists>cs. parse_cmd in_memory line = Inr (Inr (map Tok (words line) @ Nul # cs))
    else parse_cmd in_memory line = Inl Overflow) \<and>
   (\<forall>e. parse_cmd alloc line = Inl e \<longrightarrow> e = Overflow \<and> max_argc \<le> length (words line)) \<and>
   parse_cmd (\<lambda>_. False) line = Inr (Inl EXIT_FAILURE)"
  using parse_cmd_cases [of in_memory line] parse_cmd_cases [of alloc line] by (auto simp: parse_cmd_def)

lemma parse_cmd_words_witness:
  "\<exists>cs. parse_cmd in_memory ''ls  -l'' = Inr (Inr ([Tok ''ls'', Tok ''-l''] @ Nul # cs))"
proof -
  have w: "words ''ls  -l'' = [''ls'', ''-l'']" by code_simp
  then have "length (words ''ls  -l'') < max_argc" by (simp add: max_argc_def INIT_ARG_CNT_def)
  then show ?thesis using parse_cmd_words [of "''ls  -l''" in_memory] w by simp
qed

text \<open>
  C35: With memory, the older shell is the newer one but for lines of 10, 20, 40, ..., \<open>10 * 2 ^ 27\<close> words: over any
  sequence of events without such a line the two are in the same state; on such a line, and on no
  other, the older \<open>parse_cmd\<close> writes behind its array, as it tests for growth before a word, but not
  before the terminating \<open>NULL\<close>.
\<close>

theorem old_shell_agrees:
  "((\<forall>l. Line l \<in> set evs \<longrightarrow> \<not> grows_at_end l) \<longrightarrow>
      old_shell_run in_memory forks evs s = shell_run (parse_cmd in_memory) forks evs s) \<and>
   (old_parse_cmd in_memory line = Inl OutOfBounds) = grows_at_end line"
  using old_shell_same [of evs forks s] old_parse_cases [of line] by (auto split: if_splits)

lemma old_shell_agrees_witness:
  "old_shell_run in_memory can_fork [Line ''ls -l'', Sigint] shell_start =
     shell_run (parse_cmd in_memory) can_fork [Line ''ls -l'', Sigint] shell_start \<and>
   old_parse_cmd in_memory ''a b c d e f g h i j'' = Inl OutOfBounds"
proof -
  have "length (words ''ls -l'') = 2" "length (words ''a b c d e f g h i j'') = 10" by code_simp+
  moreover have "(2 :: nat) \<noteq> 10 * 2 ^ k" for k :: nat
  proof -
    have "(1 :: nat) \<le> 2 ^ k" by simp
    then show ?thesis by linarith
  qed
  ultimately have "\<not> grows_at_end ''ls -l''" "grows_at_end ''a b c d e f g h i j''"
    by (auto simp: grows_at_end_def INIT_ARG_CNT_def)
  then show ?thesis
    using old_shell_agrees [of "[Line ''ls -l'', Sigint]" can_fork shell_start "''a b c d e f g h i j''"] by simp
qed

text \<open>
  C36: Whatever is typed, whatever can be allocated and forked and however the children end, the shell
  only ever executes well-formed argument vectors: at least one word, each a nonempty string without
  separators, the first not a builtin.
\<close>

theorem shell_spawns_wellformed:
  assumes "shell_run (parse_cmd alloc) forks evs shell_start = Some s" and "Spawn ws \<in> set (sh_log s)"
  shows "spawn_wf ws"
proof -
  have "log_wf shell_start" by (simp add: shell_start_def handle_input_wf) (simp add: log_wf_def)
  then have "log_wf s" using shell_run_wf [OF assms(1)] by blast
  moreover have "Spawn ws \<in> set os \<Longrightarrow> ws \<in> set (spawned os)" for os
    by (induction os rule: spawned.induct) auto
  ultimately show ?thesis using assms(2) by (auto simp: log_wf_def)
qed

lemma shell_spawns_wellformed_witness: "spawn_wf [''ls'', ''-l'']"
proof -
  have w: "words (''ls  -l'' @ [CHR 0x0A]) = [''ls'', ''-l'']" by code_simp
  have "shell_run (parse_cmd in_memory) can_fork [Line (''ls  -l'' @ [CHR 0x0A])] shell_start =
      Some (main_body (parse_cmd in_memory) can_fork (''ls  -l'' @ [CHR 0x0A]) shell_start)"
    by (simp add: shell_step_def shell_start_def handle_input_def emit_def)
  moreover have "Spawn [''ls'', ''-l''] \<in>
      set (sh_log (main_body (parse_cmd in_memory) can_fork (''ls  -l'' @ [CHR 0x0A]) shell_start))"
    using w by (simp add: main_body_words emit_def max_argc_def INIT_ARG_CNT_def)
  ultimately show ?thesis by (rule shell_spawns_wellformed)
qed

text \<open>
  C19: The shell survives interrupts and failing children. With memory and successful forks, along any
  sequence of lines, signals and ends of children, without \<open>quit\<close>, end of input and lines of blanks, it stays in its loop and has
  started exactly the commands that the lines ask for, in order, with their words as arguments. A
  line has fewer than \<open>10 * 2 ^ 27\<close> words.
\<close>

theorem shell_runs_commands:
  assumes "shell_run (parse_cmd in_memory) can_fork evs shell_start = Some s" and "Eof \<notin> set evs"
    and "\<forall>l. Line l \<in> set evs \<longrightarrow> ok_line l"
  shows "alive s \<and> spawned (sh_log s) = asked evs"
  using shell_run_alive [OF assms(1) _ assms(2,3)]
  by (simp add: shell_start_def handle_input_def emit_def alive_def)

lemma shell_runs_commands_witness:
  "\<exists>s. shell_run (parse_cmd in_memory) can_fork
      [Sigint, Line (''ls  -l'' @ [CHR 0x0A]), Sigint, Child \<lparr>si_code = CLD_KILLED, si_status = 2\<rparr>, Line [CHR 0x0A]]
      shell_start = Some s \<and> alive s \<and> spawned (sh_log s) = [[''ls'', ''-l'']]"
proof -
  let ?evs = "[Sigint, Line (''ls  -l'' @ [CHR 0x0A]), Sigint, Child \<lparr>si_code = CLD_KILLED, si_status = 2\<rparr>, Line [CHR 0x0A]]"
  have w: "words (''ls  -l'' @ [CHR 0x0A]) = [''ls'', ''-l'']" by code_simp
  obtain s where s: "shell_run (parse_cmd in_memory) can_fork ?evs shell_start = Some s"
    using w by (simp add: shell_step_def shell_start_def handle_input_def emit_def main_body_words max_argc_def INIT_ARG_CNT_def)
  have "alive s \<and> spawned (sh_log s) = asked ?evs"
    by (rule shell_runs_commands [OF s]) (use w in \<open>auto simp: ok_line_def max_argc_def INIT_ARG_CNT_def\<close>)
  then show ?thesis using s w words_newline by simp
qed

text \<open>
  C37: With memory, a line of blanks crashes the shell: it has no words but is not the empty line that
  \<open>handle_input\<close> skips, so \<open>handle_builtin\<close> compares the \<open>NULL\<close> in the first cell.
\<close>

theorem shell_blank_line_crash:
  assumes "phase s = Reading" and "words line = []" and "line \<noteq> [CHR 0x0A]"
  shows "shell_step (parse_cmd in_memory) can_fork s (Line line) = Some (s\<lparr>phase := Faulted NullDeref\<rparr>)"
  using assms by (simp add: shell_step_def main_body_words max_argc_def INIT_ARG_CNT_def)

lemma shell_blank_line_crash_witness:
  "map_option phase (shell_step (parse_cmd in_memory) can_fork shell_start (Line ('' '' @ [CHR 0x0A]))) = Some (Faulted NullDeref)"
  using shell_blank_line_crash [of shell_start "'' '' @ [CHR 0x0A]"]
  by (simp add: shell_start_def handle_input_def emit_def words_def is_delim_def)

text \<open>Only the first interrupt reaches a child; a second one waits for the next prompt.\<close>

lemma second_interrupt:
  assumes "phase s = Waiting True"
  shows "shell_step parse forks s Sigint = Some (s\<lparr>sh_pending := True\<rparr>)"
  using assms by (simp add: shell_step_def)

end
