(* ===== verification/ShellPipes.thy ===== *)
theory ShellPipes
  imports Shell
begin

text \<open>
  The shell with pipelines of
  \<open>05-operating-systems/02-programs-and-processes/04-custom-shell-pipes/shell_pipes.c\<close>. A parameter
  says which call fails (by the number that the code exits with) for which process; a child is
  logged with what it executes and where its input and output go. The kernel's process groups are
  modelled: a group is there as long as one of its processes has not been waited for. Interrupts arrive
  while the shell reads a line or waits for a child.
\<close>

definition MAX_ARGV :: nat where
  "MAX_ARGV = 256"

datatype fd = Stdin | Stdout | PipeRd nat | PipeWr nat

datatype child = Exec "string list" fd fd | Died nat

text \<open>
  \<open>ps_pgid\<close> is \<open>pgid\<close>; \<open>ps_procs\<close> holds the children that have not been waited for with their
  groups, \<open>ps_open\<close> the pipe ends that the shell has open.
\<close>

record psh =
  ps_pgid :: nat
  ps_next :: nat
  ps_procs :: "(nat \<times> nat) list"
  ps_pipes :: nat
  ps_open :: "fd list"
  ps_log :: "child list"

text \<open>\<open>strsep\<close> at the first \<open>|\<close>: the text before it, and what follows, if there is one.\<close>

definition strsep :: "string \<Rightarrow> string \<times> string option" where
  "strsep s = (takeWhile (\<lambda>c. c \<noteq> CHR ''|'') s,
     case dropWhile (\<lambda>c. c \<noteq> CHR ''|'') s of [] \<Rightarrow> None | _ # r \<Rightarrow> Some r)"

lemma strsep_shorter: "strsep s = (t, Some r) \<Longrightarrow> length r < length s"
  using length_dropWhile_le [of "\<lambda>c. c \<noteq> CHR ''|''" s]
  by (auto simp: strsep_def split: list.splits)

text \<open>The loop that fills \<open>argv\<close>, an array of \<open>MAX_ARGV\<close> cells on the stack.\<close>

function arg_loop :: "argv \<Rightarrow> nat \<Rightarrow> string \<Rightarrow> (argv \<times> nat) res" where
  "arg_loop argv argc s =
     (case strtok s of
        None \<Rightarrow> andthen (wr argv argc Nul) (\<lambda>argv'. Inr (argv', argc))
      | Some (tok, rest) \<Rightarrow> andthen (wr argv argc (Tok tok)) (\<lambda>argv'. arg_loop argv' (Suc argc) rest))"
  by pat_completeness auto
termination
  by (relation "measure (\<lambda>(argv, argc, s). length s)") (auto dest: strtok_Some)

declare arg_loop.simps [simp del]

text \<open>What the child does up to \<open>execvp\<close>.\<close>

definition child_run :: "(nat \<Rightarrow> nat \<Rightarrow> bool) \<Rightarrow> nat \<Rightarrow> fd \<Rightarrow> fd \<Rightarrow> argv \<Rightarrow> child" where
  "child_run fails pid infd outfd argv =
     (if infd \<noteq> Stdin \<and> fails 4 pid then Died 4
      else if infd \<noteq> Stdin \<and> fails 5 pid then Died 5
      else if outfd \<noteq> Stdout \<and> fails 6 pid then Died 6
      else if outfd \<noteq> Stdout \<and> fails 7 pid then Died 7
      else if outfd \<noteq> Stdout \<and> fails 8 pid then Died 8
      else if fails 9 pid then Died 9
      else Exec (args argv) infd outfd)"

text \<open>\<open>setpgid(pid, g)\<close>: the group must be the process's own or that of another child.\<close>

definition setpgid :: "(nat \<Rightarrow> nat \<Rightarrow> bool) \<Rightarrow> nat \<Rightarrow> nat \<Rightarrow> psh \<Rightarrow> psh option" where
  "setpgid fails pid g s =
     (if \<not> fails 11 pid \<and> (g = pid \<or> g \<in> snd ` set (ps_procs s))
      then Some (s\<lparr>ps_procs := (pid, g) # ps_procs s\<rparr>) else None)"

definition close_fd :: "fd \<Rightarrow> psh \<Rightarrow> psh" where
  "close_fd f s = s\<lparr>ps_open := remove1 f (ps_open s)\<rparr>"

definition waitpid :: "nat \<Rightarrow> psh \<Rightarrow> psh" where
  "waitpid pid s = s\<lparr>ps_procs := filter (\<lambda>(p, g). p \<noteq> pid) (ps_procs s)\<rparr>"

text \<open>
  \<open>sigint_handler\<close>: it exits, or interrupts the group, which must still be there, and forgets it.
\<close>

definition sigint_handler :: "psh \<Rightarrow> nat + psh" where
  "sigint_handler s =
     (if ps_pgid s = 0 then Inl 0
      else if ps_pgid s \<notin> snd ` set (ps_procs s) then Inl 1
      else Inr (s\<lparr>ps_pgid := 0\<rparr>))"

text \<open>
  The wait for a child; \<open>ints\<close> says during which waits an interrupt arrives. \<open>waitpid\<close> goes on when
  the handler returns.
\<close>

definition wait_child :: "(nat \<Rightarrow> bool) \<Rightarrow> nat \<Rightarrow> psh \<Rightarrow> nat + psh" where
  "wait_child ints pid s =
     (if ints pid
      then (case sigint_handler s of Inl k \<Rightarrow> Inl k | Inr s' \<Rightarrow> Inr (waitpid pid s'))
      else Inr (waitpid pid s))"

text \<open>The part of \<open>run\<close> up to \<open>setpgid\<close>: the state in which the child runs, its pid, \<open>fds\<close>.\<close>

definition launch :: "(nat \<Rightarrow> nat \<Rightarrow> bool) \<Rightarrow> argv \<Rightarrow> bool \<Rightarrow> fd \<Rightarrow> psh \<Rightarrow> nat + psh \<times> nat \<times> fd \<times> fd" where
  "launch fails argv piped infd s =
     (let pid = ps_next s; k = ps_pipes s
      in if piped \<and> fails 2 pid then Inl 2
         else (let fds = (if piped then (PipeRd k, PipeWr k) else (Stdin, Stdout));
                   s1 = (if piped then s\<lparr>ps_pipes := Suc k, ps_open := PipeRd k # PipeWr k # ps_open s\<rparr> else s)
               in if fails 3 pid then Inl 3
                  else (let s2 = s1\<lparr>ps_next := Suc pid,
                            ps_log := ps_log s1 @ [child_run fails pid infd (snd fds) argv],
                            ps_pgid := (if ps_pgid s1 = 0 then pid else ps_pgid s1)\<rparr>
                        in case setpgid fails pid (ps_pgid s2) s2 of
                             None \<Rightarrow> Inl 11
                           | Some s3 \<Rightarrow> Inr (s3, pid, fds))))"

text \<open>\<open>run\<close>: an exit status, or the state after the whole pipeline.\<close>

function run :: "(nat \<Rightarrow> nat \<Rightarrow> bool) \<Rightarrow> (nat \<Rightarrow> bool) \<Rightarrow> string \<Rightarrow> fd \<Rightarrow> psh \<Rightarrow> psh Shell.run" where
  "run fails ints prompt infd s =
     (case strsep prompt of (tok, rest) \<Rightarrow>
      andthen (arg_loop (replicate MAX_ARGV Raw) 0 tok) (\<lambda>(argv, argc).
        if argc = 0 then Inr (Inr s)
        else (case launch fails argv (rest \<noteq> None) infd s of
            Inl k \<Rightarrow> Inr (Inl k)
          | Inr (s1, pid, rfd, wfd) \<Rightarrow>
              (case rest of
                 None \<Rightarrow> Inr (wait_child ints pid s1)
               | Some prompt' \<Rightarrow>
                   if fails 12 pid then Inr (Inl 12)
                   else andthen (run fails ints prompt' rfd (close_fd wfd s1)) (\<lambda>r.
                     case r of
                       Inl k \<Rightarrow> Inr (Inl k)
                     | Inr s2 \<Rightarrow> if fails 13 pid then Inr (Inl 13) else Inr (wait_child ints pid (close_fd rfd s2)))))))"
  by pat_completeness auto
termination
  by (relation "measure (\<lambda>(fails, ints, prompt, infd, s). length prompt)") (auto dest: strsep_shorter [OF sym])

declare run.simps [simp del]

text \<open>
  \<open>main\<close> on what the terminal sends: lines, interrupts while it reads, and then a read error or the
  end of the input. A last line without a newline meets the end and is not run, so it is not one
  of the lines.
\<close>

datatype typed = Text string | Interrupt

fun pipes_main :: "(nat \<Rightarrow> nat \<Rightarrow> bool) \<Rightarrow> (nat \<Rightarrow> bool) \<Rightarrow> bool \<Rightarrow> typed list \<Rightarrow> psh \<Rightarrow> nat res" where
  "pipes_main fails ints read_error [] s = Inr (if read_error then 14 else 15)"
| "pipes_main fails ints read_error (Text line # ts) s =
     andthen (run fails ints line Stdin s) (\<lambda>r.
       case r of Inl k \<Rightarrow> Inr k | Inr s' \<Rightarrow> pipes_main fails ints read_error ts s')"
| "pipes_main fails ints read_error (Interrupt # ts) s =
     (case sigint_handler s of Inl k \<Rightarrow> Inr k | Inr s' \<Rightarrow> pipes_main fails ints read_error ts s')"

definition pipes_start :: psh where
  "pipes_start = \<lparr>ps_pgid = 0, ps_next = 100, ps_procs = [], ps_pipes = 0, ps_open = [], ps_log = []\<rparr>"

section \<open>Pipelines\<close>

text \<open>The commands of a line, as a reference for \<open>strsep\<close>.\<close>

fun segments :: "string \<Rightarrow> string list" where
  "segments [] = [[]]"
| "segments (c # cs) =
     (if c = CHR ''|'' then [] # segments cs
      else (case segments cs of [] \<Rightarrow> [[c]] | f # fs \<Rightarrow> (c # f) # fs))"

lemma segments_not_Nil [simp]: "segments s \<noteq> []"
  by (induction s) (auto split: list.splits)

lemma segments_strsep:
  "segments s = fst (strsep s) # (case snd (strsep s) of None \<Rightarrow> [] | Some r \<Rightarrow> segments r)"
  by (induction s) (auto simp: strsep_def split: list.splits)

lemma arg_loop_words:
  "argc \<le> length argv \<Longrightarrow> take argc argv = map Tok ws \<Longrightarrow>
    (if argc + length (words s) < length argv
     then \<exists>cs. arg_loop argv argc s = Inr (map Tok (ws @ words s) @ Nul # cs, argc + length (words s))
     else arg_loop argv argc s = Inl OutOfBounds)"
proof (induction argv argc s arbitrary: ws rule: arg_loop.induct)
  case (1 argv argc s)
  note step = arg_loop.simps [of argv argc s]
  show ?case
  proof (cases "strtok s")
    case None
    then have "words s = []" by (simp add: strtok_None)
    then show ?thesis using step None "1.prems" by (auto simp: upd_conv_take_nth_drop wr_def)
  next
    case (Some x)
    then obtain tok rest where x: "strtok s = Some (tok, rest)" by (cases x) auto
    have w: "words s = tok # words rest" using strtok_Some [OF x] by simp
    show ?thesis
    proof (cases "argc < length argv")
      case False
      then show ?thesis using step x "1.prems"(1) by (simp add: wr_def)
    next
      case True
      let ?a = "argv[argc := Tok tok]"
      have "take (Suc argc) ?a = map Tok (ws @ [tok])"
        using True "1.prems"(2) by (simp add: take_Suc_conv_app_nth)
      then show ?thesis
        using "1.IH" [OF x refl, of ?a "ws @ [tok]"] step x True w
        by (cases "Suc argc + length (words rest) < length argv") auto
    qed
  qed
qed

text \<open>The children of a pipeline: each reads from the pipe of the one before.\<close>

fun chain :: "string list list \<Rightarrow> fd \<Rightarrow> nat \<Rightarrow> child list" where
  "chain [] infd k = []"
| "chain [ws] infd k = [Exec ws infd Stdout]"
| "chain (ws # wss) infd k = Exec ws infd (PipeWr k) # chain wss (PipeRd k) (Suc k)"

definition good_segment :: "string \<Rightarrow> bool" where
  "good_segment t \<longleftrightarrow> words t \<noteq> [] \<and> length (words t) < MAX_ARGV"

abbreviation no_failure :: "nat \<Rightarrow> nat \<Rightarrow> bool" where
  "no_failure \<equiv> \<lambda>_ _. False"

abbreviation undisturbed :: "nat \<Rightarrow> bool" where
  "undisturbed \<equiv> \<lambda>_. False"

definition groups_ok :: "psh \<Rightarrow> bool" where
  "groups_ok s \<longleftrightarrow> 0 < ps_next s \<and> (ps_pgid s = 0 \<or> ps_pgid s \<in> snd ` set (ps_procs s)) \<and>
     (\<forall>(p, g)\<in>set (ps_procs s). p < ps_next s)"

text \<open>The state in which the shell goes on after it has started a command.\<close>

definition launched :: "argv \<Rightarrow> bool \<Rightarrow> fd \<Rightarrow> psh \<Rightarrow> psh" where
  "launched argv piped infd s =
     \<lparr>ps_pgid = (if ps_pgid s = 0 then ps_next s else ps_pgid s),
      ps_next = Suc (ps_next s),
      ps_procs = (ps_next s, if ps_pgid s = 0 then ps_next s else ps_pgid s) # ps_procs s,
      ps_pipes = (if piped then Suc (ps_pipes s) else ps_pipes s),
      ps_open = (if piped then PipeRd (ps_pipes s) # PipeWr (ps_pipes s) # ps_open s else ps_open s),
      ps_log = ps_log s @ [Exec (args argv) infd (if piped then PipeWr (ps_pipes s) else Stdout)]\<rparr>"

lemma launch_ok:
  assumes "groups_ok s"
  shows "launch no_failure argv piped infd s =
    Inr (launched argv piped infd s, ps_next s,
      if piped then (PipeRd (ps_pipes s), PipeWr (ps_pipes s)) else (Stdin, Stdout))"
  using assms by (cases s) (auto simp: launch_def launched_def setpgid_def child_run_def groups_ok_def Let_def)

lemma launched_groups: "groups_ok s \<Longrightarrow> groups_ok (launched argv piped infd s)"
  by (auto simp: groups_ok_def launched_def)

lemma close_groups: "groups_ok (close_fd f s) = groups_ok s"
  by (simp add: groups_ok_def close_fd_def)

lemma waited: "groups_ok s \<Longrightarrow> filter (\<lambda>(p, g). p \<noteq> ps_next s) (ps_procs s) = ps_procs s"
  by (rule filter_True) (auto simp: groups_ok_def)

definition piped_ok :: "string \<Rightarrow> fd \<Rightarrow> psh \<Rightarrow> psh \<Rightarrow> bool" where
  "piped_ok prompt infd s s' \<longleftrightarrow>
     ps_log s' = ps_log s @ chain (map words (segments prompt)) infd (ps_pipes s) \<and>
     ps_procs s' = ps_procs s \<and> ps_open s' = ps_open s \<and>
     ps_pgid s' = (if ps_pgid s = 0 then ps_next s else ps_pgid s) \<and> ps_next s < ps_next s'"

lemma arg_loop_good:
  assumes "good_segment t"
  shows "\<exists>cs. arg_loop (replicate MAX_ARGV Raw) 0 t = Inr (map Tok (words t) @ Nul # cs, length (words t))"
  using arg_loop_words [of 0 "replicate MAX_ARGV Raw" "[]" t] assms by (simp add: good_segment_def)

lemma run_chain:
  "groups_ok s \<Longrightarrow> list_all good_segment (segments prompt) \<Longrightarrow> fails = no_failure \<Longrightarrow>
    \<exists>s'. run fails undisturbed prompt infd s = Inr (Inr s') \<and> piped_ok prompt infd s s'"
proof (induction "length prompt" arbitrary: prompt infd s rule: less_induct)
  case less
  obtain t rest where ss: "strsep prompt = (t, rest)" by (cases "strsep prompt")
  have segs: "segments prompt = t # (case rest of None \<Rightarrow> [] | Some r \<Rightarrow> segments r)"
    using segments_strsep [of prompt] ss by simp
  then have good: "good_segment t" using less.prems(2) by simp
  obtain cs where al: "arg_loop (replicate MAX_ARGV Raw) 0 t = Inr (map Tok (words t) @ Nul # cs, length (words t))"
    using arg_loop_good [OF good] by blast
  let ?argv = "map Tok (words t) @ Nul # cs"
  let ?s1 = "launched ?argv (rest \<noteq> None) infd s"
  have ne: "length (words t) \<noteq> 0" using good by (simp add: good_segment_def)
  note step = run.simps [of no_failure undisturbed prompt infd s]
  note la = launch_ok [OF less.prems(1), of ?argv "rest \<noteq> None" infd]
  show ?case
  proof (cases rest)
    case None
    have "run no_failure undisturbed prompt infd s = Inr (Inr (waitpid (ps_next s) ?s1))"
      using step ss al ne la None by (simp add: wait_child_def)
    then show ?thesis
      using segs None less.prems(3) waited [OF less.prems(1)]
      by (simp add: piped_ok_def wait_child_def waitpid_def launched_def)
  next
    case (Some r)
    let ?k = "ps_pipes s"
    let ?s2 = "close_fd (PipeWr ?k) ?s1"
    have "groups_ok ?s2" using less.prems(1) by (simp only: close_groups launched_groups)
    moreover have "list_all good_segment (segments r)" using segs Some less.prems(2) by simp
    moreover have "length r < length prompt" using ss Some strsep_shorter by simp
    ultimately obtain s3 where s3: "run no_failure undisturbed r (PipeRd ?k) ?s2 = Inr (Inr s3)" "piped_ok r (PipeRd ?k) ?s2 s3"
      using less.hyps less.prems(3) by blast
    let ?s' = "waitpid (ps_next s) (close_fd (PipeRd ?k) s3)"
    have "run no_failure undisturbed prompt infd s = Inr (Inr ?s')"
      using step ss al ne la Some s3(1) by (simp add: wait_child_def)
    moreover have "piped_ok prompt infd s ?s'"
      using s3(2) segs Some waited [OF less.prems(1)] less.prems(1) [unfolded groups_ok_def, THEN conjunct1]
      by (cases "segments r") (auto simp: piped_ok_def wait_child_def waitpid_def close_fd_def launched_def)
    ultimately show ?thesis using less.prems(3) by blast
  qed
qed

section \<open>Properties\<close>

text \<open>
  C21: A pipeline is set up right. When no call fails and every part of the line has between one and
  255 words, \<open>run\<close> starts one child for each part, in order, with its words as arguments; the first
  reads what \<open>run\<close> was given, each other from the pipe that the one before it writes, the last
  writes to the terminal. On return all pipe ends that the shell opened are closed, every child
  has been waited for, and the group is that of the first child.
\<close>

theorem pipeline_chain:
  assumes "groups_ok s" and "list_all good_segment (segments line)"
  shows "\<exists>s'. run no_failure undisturbed line infd s = Inr (Inr s') \<and>
      ps_log s' = ps_log s @ chain (map words (segments line)) infd (ps_pipes s) \<and>
      ps_open s' = ps_open s \<and> ps_procs s' = ps_procs s \<and>
      ps_pgid s' = (if ps_pgid s = 0 then ps_next s else ps_pgid s)"
  using run_chain [OF assms refl] unfolding piped_ok_def by blast

lemma start_groups: "groups_ok pipes_start"
  by (simp add: groups_ok_def pipes_start_def)

lemma pipeline_chain_witness:
  "\<exists>s'. run no_failure undisturbed ''ls -l|sort |wc'' Stdin pipes_start = Inr (Inr s') \<and>
      ps_log s' = [Exec [''ls'', ''-l''] Stdin (PipeWr 0), Exec [''sort''] (PipeRd 0) (PipeWr 1),
                   Exec [''wc''] (PipeRd 1) Stdout]"
proof -
  have "list_all good_segment (segments ''ls -l|sort |wc'')" by code_simp
  from pipeline_chain [OF start_groups this, of Stdin]
  obtain s' where s': "run no_failure undisturbed ''ls -l|sort |wc'' Stdin pipes_start = Inr (Inr s')"
    "ps_log s' = ps_log pipes_start @ chain (map words (segments ''ls -l|sort |wc'')) Stdin (ps_pipes pipes_start)"
    by blast
  have "ps_log pipes_start @ chain (map words (segments ''ls -l|sort |wc'')) Stdin (ps_pipes pipes_start) =
      [Exec [''ls'', ''-l''] Stdin (PipeWr 0), Exec [''sort''] (PipeRd 0) (PipeWr 1), Exec [''wc''] (PipeRd 1) Stdout]"
    by code_simp
  then show ?thesis using s' by simp
qed

lemma launch_dead_group:
  assumes "ps_pgid s \<noteq> 0" "ps_procs s = []" "ps_pgid s < ps_next s"
  shows "launch no_failure argv piped infd s = Inl 11"
  using assms by (simp add: launch_def setpgid_def Let_def)

lemma run_dead_group:
  assumes "ps_pgid s \<noteq> 0" "ps_procs s = []" "ps_pgid s < ps_next s" "good_segment (fst (strsep prompt))"
  shows "run no_failure undisturbed prompt infd s = Inr (Inl 11)"
proof -
  obtain t rest where ss: "strsep prompt = (t, rest)" by (cases "strsep prompt")
  obtain cs where "arg_loop (replicate MAX_ARGV Raw) 0 t = Inr (map Tok (words t) @ Nul # cs, length (words t))"
    using arg_loop_good [of t] assms(4) ss by auto
  then show ?thesis
    using run.simps [of no_failure undisturbed prompt infd s] ss launch_dead_group [OF assms(1-3)] assms(4)
    by (simp add: good_segment_def)
qed

text \<open>The group of a command that an interrupt has ended is forgotten: then the next command can run.\<close>

lemma run_interrupted:
  assumes "groups_ok s" "ps_pgid s = 0" "good_segment line" "strsep line = (line, None)" "ints (ps_next s)"
  shows "\<exists>s'. run no_failure ints line infd s = Inr (Inr s') \<and> ps_pgid s' = 0 \<and> groups_ok s' \<and>
    ps_log s' = ps_log s @ [Exec (words line) infd Stdout]"
proof -
  obtain cs where al: "arg_loop (replicate MAX_ARGV Raw) 0 line = Inr (map Tok (words line) @ Nul # cs, length (words line))"
    using arg_loop_good [OF assms(3)] by blast
  let ?argv = "map Tok (words line) @ Nul # cs"
  let ?s1 = "launched ?argv False infd s"
  have pg: "ps_pgid ?s1 = ps_next s" "(ps_next s, ps_next s) \<in> set (ps_procs ?s1)" "0 < ps_next s"
    using assms(1,2) by (simp_all add: launched_def groups_ok_def)
  then have sg: "sigint_handler ?s1 = Inr (?s1\<lparr>ps_pgid := 0\<rparr>)" by (force simp: sigint_handler_def)
  have "run no_failure ints line infd s = Inr (Inr (waitpid (ps_next s) (?s1\<lparr>ps_pgid := 0\<rparr>)))"
    using run.simps [of no_failure ints line infd s] assms(3-5) al launch_ok [OF assms(1), of ?argv False infd] sg
    by (simp add: wait_child_def good_segment_def)
  moreover have "groups_ok (waitpid (ps_next s) (?s1\<lparr>ps_pgid := 0\<rparr>))"
    using assms(1,2) waited [OF assms(1)] by (auto simp: groups_ok_def waitpid_def launched_def)
  ultimately show ?thesis by (auto simp: waitpid_def launched_def)
qed

definition single :: "string \<Rightarrow> bool" where
  "single line \<longleftrightarrow> good_segment line \<and> strsep line = (line, None)"

lemma interrupted_commands:
  "list_all single lines \<Longrightarrow> groups_ok s \<Longrightarrow> ps_pgid s = 0 \<Longrightarrow>
   pipes_main no_failure (\<lambda>_. True) read_error (map Text lines) s = Inr (if read_error then 14 else 15)"
proof (induction lines arbitrary: s)
  case (Cons line lines)
  then obtain s' where "run no_failure (\<lambda>_. True) line Stdin s = Inr (Inr s')" "ps_pgid s' = 0" "groups_ok s'"
    using run_interrupted [of s line "\<lambda>_. True" Stdin] by (auto simp: single_def)
  then show ?case using Cons.IH [of s'] Cons.prems(1) by simp
qed simp

lemma dead_group_interrupt:
  "ps_pgid s \<noteq> 0 \<Longrightarrow> ps_procs s = [] \<Longrightarrow> sigint_handler s = Inl 1"
  by (simp add: sigint_handler_def)

text \<open>
  C34: After a command the shell is lost unless an interrupt has ended the command. \<open>pgid\<close> keeps the
  group of the first pipeline, which is gone once its children have been waited for: the next
  command makes \<open>setpgid\<close> fail, and the shell exits with status 11; an interrupt at the prompt makes
  \<open>killpg\<close> fail, and it exits with status 1. When each of any number of single commands is ended by
  an interrupt, which forgets the group, the shell goes on to the end of its input.
\<close>

theorem pipes_second_command_exits:
  assumes "list_all good_segment (segments line)" and "good_segment (fst (strsep line'))"
    and "list_all single lines"
  shows "pipes_main no_failure undisturbed read_error (Text line # Text line' # ts) pipes_start = Inr 11 \<and>
    pipes_main no_failure undisturbed read_error (Text line # Interrupt # ts) pipes_start = Inr 1 \<and>
    pipes_main no_failure (\<lambda>_. True) read_error (map Text lines) pipes_start = Inr (if read_error then 14 else 15)"
proof -
  obtain s where s: "run no_failure undisturbed line Stdin pipes_start = Inr (Inr s)" "piped_ok line Stdin pipes_start s"
    using run_chain [OF start_groups assms(1) refl] by blast
  have d: "ps_pgid s \<noteq> 0" "ps_procs s = []" "ps_pgid s < ps_next s"
    using s(2) by (simp_all add: piped_ok_def pipes_start_def)
  show ?thesis
    using s(1) run_dead_group [OF d assms(2)] dead_group_interrupt [OF d(1,2)]
      interrupted_commands [OF assms(3) start_groups]
    by (simp add: pipes_start_def)
qed

lemma pipes_second_command_exits_witness:
  "pipes_main no_failure undisturbed False [Text ''ls|wc'', Text ''date'', Text ''date''] pipes_start = Inr 11 \<and>
   pipes_main no_failure (\<lambda>_. True) False [Text ''cat'', Text ''cat''] pipes_start = Inr 15"
proof -
  have "list_all good_segment (segments ''ls|wc'')" "good_segment (fst (strsep ''date''))"
    "list_all single [''cat'', ''cat'']"
    by code_simp+
  from pipes_second_command_exits [OF this, of False "[Text ''date'']"] show ?thesis by simp
qed

text \<open>
  A part of 256 or more words overflows \<open>argv\<close> on the stack, before any process is started; a
  prompt of 4096 characters has room for it.
\<close>

theorem pipes_argv_overflow:
  assumes "MAX_ARGV \<le> length (words (fst (strsep line)))"
  shows "run fails ints line infd s = Inl OutOfBounds"
  using assms arg_loop_words [of 0 "replicate MAX_ARGV Raw" "[]" "fst (strsep line)"]
    run.simps [of fails ints line infd s]
  by (cases "strsep line") simp

lemma words_blanks: "words (concat (replicate n ''a '')) = replicate n ''a''"
proof (induction n)
  case (Suc n)
  then show ?case using words_run [of "''a''" "'' '' @ concat (replicate n ''a '')"] by (simp add: is_delim_def)
qed simp

lemma strsep_blanks: "fst (strsep (concat (replicate n ''a ''))) = concat (replicate n ''a '')"
  by (auto simp: strsep_def intro: takeWhile_eq_all_conv [THEN iffD2])

lemma pipes_argv_overflow_witness:
  "run no_failure undisturbed (concat (replicate 256 ''a '')) Stdin pipes_start = Inl OutOfBounds"
  by (rule pipes_argv_overflow) (simp only: strsep_blanks words_blanks length_replicate MAX_ARGV_def order_refl)

end
