(* ===== verification/Pangram.thy ===== *)
theory Pangram
  imports Prelude
begin

unbundle bit_operations_syntax

text \<open>
  The two versions of \<open>ispangram\<close>:
  \<open>02-computer-systems/02-introduction-to-c/03-fast-pangram/pangram.c\<close>, which returns as soon as its
  mask is full, and \<open>02-computer-systems/03-low-level-programming/04-x86-64-pangram/pangram.c\<close>, which
  reads the whole line. A string is what stands in memory from the pointer on, bytes with their
  terminator; \<open>char\<close> is signed.
\<close>

type_synonym byte = "8 word"

definition MASK :: "32 word" where
  "MASK = 0x03fffffe"

text \<open>\<open>bits |= 1 << (ch & 0x1f)\<close>, where the shift is one of the \<open>int\<close> 1.\<close>

definition set_letter :: "byte \<Rightarrow> 32 word \<Rightarrow> 32 word res" where
  "set_letter ch bits = andthen (int_shl (unat (ch AND 0x1f))) (\<lambda>b. Inr (bits OR b))"

fun ispangram_from :: "byte list \<Rightarrow> 32 word \<Rightarrow> bool res" where
  "ispangram_from [] bits = Inl OutOfBounds"
| "ispangram_from (ch # s) bits =
     (if ch = 0 then Inr False
      else if sint ch \<le> 64 then ispangram_from s bits
      else andthen (set_letter ch bits) (\<lambda>bits'.
        if MASK = bits' AND MASK then Inr True else ispangram_from s bits'))"

definition ispangram :: "byte list \<Rightarrow> bool res" where
  "ispangram s = ispangram_from s 0"

text \<open>\<open>main\<close> prints the lines that pass; a line is what \<open>getline\<close> returns, terminator included.\<close>

fun pangram_main :: "byte list list \<Rightarrow> byte list list res" where
  "pangram_main [] = Inr []"
| "pangram_main (line # ls) =
     andthen (ispangram line) (\<lambda>b.
       andthen (pangram_main ls) (\<lambda>out. Inr (if b then takeWhile (\<lambda>c. c \<noteq> 0) line # out else out)))"

section \<open>The version for comparison with assembly\<close>

definition MASK64 :: "32 word" where
  "MASK64 = 0x07fffffe"

fun ispangram64_from :: "byte list \<Rightarrow> 32 word \<Rightarrow> bool res" where
  "ispangram64_from [] bs = Inl OutOfBounds"
| "ispangram64_from (c # s) bs =
     (if c = 0 then Inr (bs AND MASK64 = MASK64)
      else if sint c < 64 then ispangram64_from s bs
      else andthen (set_letter c bs) (ispangram64_from s))"

definition ispangram64 :: "byte list \<Rightarrow> bool res" where
  "ispangram64 s = ispangram64_from s 0"

fun pangram64_main :: "byte list list \<Rightarrow> byte list list res" where
  "pangram64_main [] = Inr []"
| "pangram64_main (line # ls) =
     andthen (ispangram64 line) (\<lambda>b.
       andthen (pangram64_main ls) (\<lambda>out. Inr (if b then takeWhile (\<lambda>c. c \<noteq> 0) line # out else out)))"

section \<open>Letters\<close>

text \<open>Letter \<open>k\<close> of the alphabet, from 1 on, in either case.\<close>

definition is_letter :: "nat \<Rightarrow> byte \<Rightarrow> bool" where
  "is_letter k c \<longleftrightarrow> uint c = 64 + int k \<or> uint c = 96 + int k"

definition has_letters :: "nat \<Rightarrow> byte list \<Rightarrow> bool" where
  "has_letters n t \<longleftrightarrow> (\<forall>k\<in>{1..n}. \<exists>c\<in>set t. is_letter k c)"

lemma byte_range: "0 \<le> uint (c :: byte)" "uint (c :: byte) < 256"
  using uint_range_size [of c] by (simp_all add: word_size)

lemma sint_byte: "sint (c :: byte) = (if uint c < 128 then uint c else uint c - 256)"
proof -
  have "sint c = (uint c + 128) mod 256 - 128"
    by (simp add: sint_uint signed_take_bit_eq_take_bit_shift take_bit_eq_mod)
  also have "(uint c + 128) mod 256 = (if uint c < 128 then uint c + 128 else uint c - 128)"
  proof (cases "uint c < 128")
    case True
    then show ?thesis using byte_range(1) [of c] by (simp add: mod_pos_pos_trivial)
  next
    case False
    have "(uint c + 128) mod 256 = (uint c - 128 + 256) mod 256" by (rule arg_cong) simp
    also have "\<dots> = uint c - 128" unfolding mod_add_self2
      using False byte_range(2) [of c] by (intro mod_pos_pos_trivial) simp_all
    finally show ?thesis using False by simp
  qed
  finally show ?thesis by simp
qed

lemma low_bits: "uint (c AND 0x1f :: byte) = uint c mod 32"
proof -
  have m: "(0x1f :: byte) = mask 5" by (simp add: mask_eq_exp_minus_1)
  have "uint (c AND 0x1f) = take_bit 5 (uint c)"
    unfolding m take_bit_eq_mask [symmetric] by (simp only: unsigned_take_bit_eq)
  then show ?thesis by (simp add: take_bit_eq_mod)
qed

lemma letter_code:
  fixes u :: int
  assumes "1 \<le> k" "k \<le> 31" "n = 63 \<or> n = 64"
  shows "n < u \<and> u < 128 \<and> u mod 32 = k \<longleftrightarrow> u = 64 + k \<or> u = 96 + k"
proof
  assume l: "n < u \<and> u < 128 \<and> u mod 32 = k"
  define q r where "q = u div 32" and "r = u mod 32"
  have u: "u = 32 * q + r" "0 \<le> r" "r < 32" unfolding q_def r_def by simp_all
  have "r = k" using l r_def by simp
  moreover have "1 < q \<and> q < 4" using l u assms(3) by linarith
  then have "q = 2 \<or> q = 3" by linarith
  ultimately show "u = 64 + k \<or> u = 96 + k" using u(1) by auto
next
  assume l: "u = 64 + k \<or> u = 96 + k"
  have "(64 + k) mod 32 = (k + 2 * 32) mod 32" "(96 + k) mod 32 = (k + 3 * 32) mod 32"
    by (rule arg_cong, simp)+
  then have "u mod 32 = k mod 32" using l unfolding mod_mult_self1 by blast
  then show "n < u \<and> u < 128 \<and> u mod 32 = k" using l assms by auto
qed

lemma letter_iff:
  assumes "1 \<le> k" "k \<le> 31" "n = 63 \<or> n = 64"
  shows "n < sint c \<and> unat (c AND 0x1f) = k \<longleftrightarrow> is_letter k c"
proof -
  have "n < sint c \<longleftrightarrow> n < uint c \<and> uint c < 128"
    using assms(3) byte_range [of c] unfolding sint_byte by auto
  moreover have "unat (c AND 0x1f) = k \<longleftrightarrow> uint (c AND 0x1f) = int k"
    by (metis int_eq_iff uint_nat unsigned_greater_eq of_nat_unat)
  moreover have "1 \<le> int k" "int k \<le> 31" using assms(1,2) by simp_all
  ultimately show ?thesis using letter_code [OF _ _ assms(3), of "int k" "uint c"]
    unfolding low_bits is_letter_def by blast
qed

text \<open>The two characters whose shift is out of range, the underscore and \<open>DEL\<close>.\<close>

definition shifts_out :: "byte \<Rightarrow> bool" where
  "shifts_out c \<longleftrightarrow> c = 0x5f \<or> c = 0x7f"

lemma shifts_out_iff:
  assumes "n = 63 \<or> n = 64" "n < sint c"
  shows "shifts_out c \<longleftrightarrow> unat (c AND 0x1f) = 31"
proof -
  have "shifts_out c \<longleftrightarrow> is_letter 31 c" by (simp add: shifts_out_def is_letter_def word_uint_eq_iff)
  then show ?thesis using letter_iff [of 31 n c] assms by simp
qed

definition with_letter :: "byte \<Rightarrow> 32 word \<Rightarrow> 32 word" where
  "with_letter c bs = bs OR push_bit (unat (c AND 0x1f)) 1"

lemma set_letter_cases:
  assumes "n = 63 \<or> n = 64" "n < sint c"
  shows "set_letter c bs = (if shifts_out c then Inl BadShift else Inr (with_letter c bs))"
proof -
  have "uint (c AND 0x1f) < 32" unfolding low_bits by simp
  moreover have "int (unat (c AND 0x1f)) = uint (c AND 0x1f)" by (rule uint_nat [symmetric])
  ultimately have "unat (c AND 0x1f) < 32" by linarith
  then show ?thesis unfolding shifts_out_iff [OF assms] set_letter_def int_shl_def with_letter_def by auto
qed

lemma shifts_out_high: "shifts_out c \<Longrightarrow> 64 < sint c"
  by (auto simp: shifts_out_def sint_byte)

lemma bit_with_letter: "k < 32 \<Longrightarrow> bit (with_letter c bs) k \<longleftrightarrow> bit bs k \<or> unat (c AND 0x1f) = k"
  unfolding with_letter_def bit_or_iff bit_push_bit_iff bit_1_iff by auto

lemma mask_covered:
  assumes "m = push_bit 1 (mask n)" "n < 31"
  shows "(b AND m = (m :: 32 word)) \<longleftrightarrow> (\<forall>k\<in>{1..n}. bit b k)"
proof -
  have m: "bit m k \<longleftrightarrow> 1 \<le> k \<and> k \<le> n" if "k < 32" for k
    unfolding assms(1) bit_push_bit_iff bit_mask_iff using that assms(2) by auto
  have "(b AND m = m) \<longleftrightarrow> (\<forall>k<32. bit m k \<longrightarrow> bit b k)"
    by (auto simp: bit_eq_iff bit_and_iff)
  then show ?thesis using m assms(2) by auto
qed

lemma MASK_covered: "(b AND MASK = MASK) \<longleftrightarrow> (\<forall>k\<in>{1..25}. bit b k)"
  by (rule mask_covered) (simp_all add: MASK_def mask_eq_exp_minus_1)

lemma MASK64_covered: "(b AND MASK64 = MASK64) \<longleftrightarrow> (\<forall>k\<in>{1..26}. bit b k)"
  by (rule mask_covered) (simp_all add: MASK64_def mask_eq_exp_minus_1)

text \<open>What the loops have found after \<open>t\<close>, starting from \<open>b\<close>.\<close>

definition found :: "nat \<Rightarrow> 32 word \<Rightarrow> byte list \<Rightarrow> bool" where
  "found n b t \<longleftrightarrow> (\<forall>k\<in>{1..n}. bit b k \<or> (\<exists>c\<in>set t. is_letter k c))"

lemma found_skip: "n \<le> 26 \<Longrightarrow> m = 63 \<or> m = 64 \<Longrightarrow> sint c \<le> m \<Longrightarrow> found n b (c # t) = found n b t"
  using letter_iff [of _ m c] by (fastforce simp: found_def)

lemma found_set:
  assumes "n \<le> 26" "m = 63 \<or> m = 64" "m < sint c"
  shows "found n b (c # t) = found n (with_letter c b) t"
proof -
  have "bit (with_letter c b) k \<longleftrightarrow> bit b k \<or> is_letter k c" if "k \<in> {1..n}" for k
    using that assms letter_iff [of k m c] bit_with_letter [of k c b] by simp
  then show ?thesis by (auto simp: found_def)
qed

text \<open>What precedes the first character that shifts out of range.\<close>

abbreviation shiftable :: "byte list \<Rightarrow> byte list" where
  "shiftable t \<equiv> takeWhile (\<lambda>c. \<not> shifts_out c) t"

lemma ispangram_from_found:
  "0 \<notin> set t \<Longrightarrow> \<not> (\<forall>k\<in>{1..25}. bit b k) \<Longrightarrow> ispangram_from (t @ 0 # r) b =
    (if found 25 b (shiftable t) then Inr True else if shiftable t = t then Inr False else Inl BadShift)"
proof (induction t arbitrary: b)
  case Nil
  then show ?case by (auto simp: found_def)
next
  case (Cons c t)
  show ?case
  proof (cases "sint c \<le> 64")
    case True
    then have "\<not> shifts_out c" using shifts_out_high [of c] by linarith
    then show ?thesis using Cons True found_skip [of 25 64 c] by simp
  next
    case False
    note set = set_letter_cases [of 64 c b]
    show ?thesis
    proof (cases "shifts_out c")
      case True
      then have "ispangram_from ((c # t) @ 0 # r) b = Inl BadShift" "\<not> found 25 b (shiftable (c # t))"
        using False set Cons.prems by (auto simp: found_def)
      then show ?thesis using True by simp
    next
      case ok: False
      let ?b = "with_letter c b"
      have step: "ispangram_from ((c # t) @ 0 # r) b =
          (if MASK = ?b AND MASK then Inr True else ispangram_from (t @ 0 # r) ?b)"
        using ok False set Cons.prems(1) by simp
      have fd: "found 25 b (shiftable (c # t)) = found 25 ?b (shiftable t)"
        using found_set [of 25 64 c b] False ok by simp
      show ?thesis
      proof (cases "\<forall>k\<in>{1..25}. bit ?b k")
        case True
        then have "found 25 ?b (shiftable t)" by (simp add: found_def)
        moreover have "MASK = ?b AND MASK" using True MASK_covered [of ?b] by simp
        ultimately show ?thesis using fd step by simp
      next
        case no: False
        then have "MASK \<noteq> ?b AND MASK" using MASK_covered [of ?b] by metis
        then show ?thesis using Cons.IH [OF _ no] fd step ok Cons.prems(1) by simp
      qed
    qed
  qed
qed

lemma ispangram64_from_found:
  "0 \<notin> set t \<Longrightarrow> ispangram64_from (t @ 0 # r) b =
    (if \<exists>c\<in>set t. shifts_out c then Inl BadShift else Inr (found 26 b t))"
proof (induction t arbitrary: b)
  case Nil
  then show ?case by (simp add: MASK64_covered found_def)
next
  case (Cons c t)
  then show ?case
    using found_skip [of 26 63 c b t] found_set [of 26 63 c b t] set_letter_cases [of 63 c b] shifts_out_high [of c]
    by (cases "sint c < 64") auto
qed

lemma found_0: "found n 0 t = has_letters n t"
  by (simp add: found_def has_letters_def)

section \<open>Property\<close>

text \<open>
  C23: The early return and the full scan decide different things: on a terminated string both stay
  inside it. The second accepts exactly the lines with all the 26 letters, in either case, and the
  first those with the letters from \<open>a\<close> to \<open>y\<close>, so that it prints lines which lack a \<open>z\<close>. But an
  underscore or a \<open>DEL\<close> makes both shift an \<open>int\<close> out of its range, the second wherever it is, the
  first only where it has not found those letters before.
\<close>

theorem pangrams_decide:
  assumes "0 \<notin> set t"
  shows "ispangram64 (t @ 0 # r) = (if \<exists>c\<in>set t. shifts_out c then Inl BadShift else Inr (has_letters 26 t)) \<and>
    ispangram (t @ 0 # r) =
      (if has_letters 25 (shiftable t) then Inr True else if shiftable t = t then Inr False else Inl BadShift)"
proof -
  have "\<not> (\<forall>k\<in>{1..25::nat}. bit (0 :: 32 word) k)" by (auto intro: exI [of _ 1])
  then show ?thesis
    using assms ispangram_from_found [of t 0 r] ispangram64_from_found [of t r 0]
    by (simp add: ispangram_def ispangram64_def found_0)
qed

lemma pangrams_decide_witness:
  "ispangram64 (map word_of_nat [97..<122] @ [0]) = Inr False \<and> ispangram (map word_of_nat [97..<122] @ [0]) = Inr True \<and>
   ispangram64 [0x5f, 0] = Inl BadShift \<and> ispangram [0x5f, 0] = Inl BadShift"
proof -
  let ?t = "map word_of_nat [97..<122] :: byte list"
  have "0 \<notin> set ?t" "\<not> (\<exists>c\<in>set ?t. shifts_out c)" by code_simp+
  moreover have "has_letters 25 ?t" "\<not> has_letters 26 ?t" "\<not> has_letters 25 []" by code_simp+
  moreover have "shiftable ?t = ?t" using calculation(2) by (simp add: takeWhile_eq_all_conv)
  ultimately show ?thesis using pangrams_decide [of ?t "[]"] pangrams_decide [of "[0x5f]" "[]"]
    by (simp add: shifts_out_def)
qed

end
