(* ===== verification/SigLog.thy ===== *)
theory SigLog
  imports Prelude
begin

unbundle bit_operations_syntax



text \<open>What is printed: the signal with the number of signals seen, or \<open>ret\<close>.\<close>

datatype report = Caught nat nat | Ret nat

text \<open>
  A handler before \<open>handled |= (1 << sig)\<close>, before the store with the value to be stored, before the
  argument of \<open>printf\<close> is computed, before \<open>printf\<close>, and at its \<open>switch\<close>.
\<close>

datatype hpc = H_load | H_store u64 | H_count | H_print nat | H_switch

text \<open>\<open>main\<close> before it calls \<open>sigsetjmp\<close>, before its output, before the store, and in its last loop.\<close>

datatype mpc = M_fork | M_print nat | M_store | M_spin

text \<open>
  \<open>sl_i\<close> is the static \<open>i\<close> of the handler, \<open>sl_stack\<close> the handlers that run, the innermost first.
  \<open>sl_arrived\<close> are the signals that have been delivered, and \<open>sl_nested\<close> says that one has interrupted
  a handler; the code has neither of the two.
\<close>

record siglog =
  sl_handled :: u64
  sl_i :: nat
  sl_main :: mpc
  sl_stack :: "(nat \<times> hpc) list"
  sl_out :: "report list"
  sl_arrived :: "nat list"
  sl_nested :: bool

text \<open>\<open>sigsetjmp\<close> returns \<open>ret\<close>: the condition of the loop.\<close>

definition returns :: "nat \<Rightarrow> siglog \<Rightarrow> siglog" where
  "returns ret s = s\<lparr>sl_main := (if 10 > ret then M_print ret else M_spin)\<rparr>"

text \<open>A signal is delivered, unless its handler runs: then it waits.\<close>

definition deliver :: "nat \<Rightarrow> siglog \<Rightarrow> siglog" where
  "deliver sig s =
     (if sig \<in> set (map fst (sl_stack s)) then s
      else s\<lparr>sl_stack := (sig, H_load) # sl_stack s, sl_arrived := sl_arrived s @ [sig],
             sl_nested := (sl_nested s \<or> sl_stack s \<noteq> [])\<rparr>)"







section \<open>The mask is a set of signals\<close>

definition mask_set :: "u64 \<Rightarrow> nat set" where
  "mask_set w = {k. k < 64 \<and> bit w k}"

lemma mask_set_0 [simp]: "mask_set 0 = {}"
  by (simp add: mask_set_def)



section \<open>What is printed\<close>

text \<open>The reports on a sequence of signals.\<close>

definition counted :: "nat list \<Rightarrow> (nat \<times> nat) list" where
  "counted sigs = map (\<lambda>j. (sigs ! j, card (set (take (Suc j) sigs)))) [0..<length sigs]"

lemma counted_Nil [simp]: "counted [] = []"
  by (simp add: counted_def)



fun caught :: "report list \<Rightarrow> (nat \<times> nat) list" where
  "caught [] = []"
| "caught (Caught sig k # rs) = (sig, k) # caught rs"
| "caught (Ret _ # rs) = caught rs"

fun rets :: "report list \<Rightarrow> nat list" where
  "rets [] = []"
| "rets (Ret r # rs) = r # rets rs"
| "rets (Caught _ _ # rs) = rets rs"

lemma caught_append [simp]: "caught (xs @ ys) = caught xs @ caught ys"
  by (induction xs rule: caught.induct) auto

lemma rets_append [simp]: "rets (xs @ ys) = rets xs @ rets ys"
  by (induction xs rule: rets.induct) auto

section \<open>The invariants\<close>

text \<open>Nothing is counted that has not arrived, and nothing above 30.\<close>

definition pc_within :: "nat set \<Rightarrow> hpc \<Rightarrow> bool" where
  "pc_within A pc \<longleftrightarrow> (case pc of
     H_store w \<Rightarrow> mask_set w \<subseteq> A \<inter> {..<31} | H_print k \<Rightarrow> k \<le> card A | _ \<Rightarrow> True)"

lemma pc_within_simps [simp]:
  "pc_within A H_load" "pc_within A (H_store w) \<longleftrightarrow> mask_set w \<subseteq> A \<inter> {..<31}" "pc_within A H_count"
  "pc_within A (H_print k) \<longleftrightarrow> k \<le> card A" "pc_within A H_switch"
  by (simp_all add: pc_within_def)










lemma deliver_simps [simp]:
  "sl_i (deliver sig s) = sl_i s" "sl_out (deliver sig s) = sl_out s" "sl_main (deliver sig s) = sl_main s"
  "fst ` set (sl_stack (deliver sig s)) = insert sig (fst ` set (sl_stack s))"
  by (auto simp: deliver_def)




lemma returns_simps [simp]:
  "sl_out (returns r s) = sl_out s" "sl_stack (returns r s) = sl_stack s" "sl_i (returns r s) = sl_i s"
  "sl_arrived (returns r s) = sl_arrived s" "sl_handled (returns r s) = sl_handled s"
  "sl_nested (returns r s) = sl_nested s" "sl_main (returns r s) = (if 10 > r then M_print r else M_spin)"
  by (simp_all add: returns_def)





lemma ten_rets: "i \<le> 10 \<Longrightarrow> \<not> i < 10 \<Longrightarrow> [0..<i] = [0..<10]"
  by simp










section \<open>Property\<close>



end
