(* ===== verification/ByteWrite.thy ===== *)
theory ByteWrite
  imports Prelude
begin

text \<open>
  \<open>05-operating-systems/01-introduction/03-byte-write/byte_write.c\<close>, which writes a file byte by byte
  and prints its size whenever the number of its blocks has changed. How many blocks a file of a
  size has is a parameter (\<open>fstat\<close>), and so is which calls succeed.
\<close>

definition MAX_BYTES :: nat where
  "MAX_BYTES = 2 ^ 20"

datatype bw_call = Fopen | Setvbuf | Fwrite nat | Fstat nat | Fclose | Remove

text \<open>A line of output: the size, the blocks of 512 bytes, the bytes that they take.\<close>

type_synonym bw_line = "nat \<times> nat \<times> nat"

text \<open>
  The loop from \<open>i\<close> on, with \<open>blks\<close>: the lines, and whether \<open>error\<close> has ended the program. \<open>n\<close>
  rounds are left.
\<close>

fun bw_loop :: "(bw_call \<Rightarrow> bool) \<Rightarrow> (nat \<Rightarrow> nat) \<Rightarrow> nat \<Rightarrow> nat \<Rightarrow> nat \<Rightarrow> bw_line list \<times> bool" where
  "bw_loop ok st_blocks 0 i blks = ([], False)"
| "bw_loop ok st_blocks (Suc n) i blks =
     (if \<not> ok (Fwrite i) \<or> \<not> ok (Fstat i) then ([], True)
      else (let size = Suc i; b = st_blocks size
            in if blks \<noteq> b
               then (case bw_loop ok st_blocks n (Suc i) b of (ls, err) \<Rightarrow> ((size, b, b * 512) # ls, err))
               else bw_loop ok st_blocks n (Suc i) blks))"

text \<open>\<open>main\<close>: the lines and the exit status.\<close>

definition bw_main :: "(bw_call \<Rightarrow> bool) \<Rightarrow> (nat \<Rightarrow> nat) \<Rightarrow> bw_line list \<times> nat" where
  "bw_main ok st_blocks =
     (if \<not> ok Fopen \<or> \<not> ok Setvbuf then ([], 1)
      else (case bw_loop ok st_blocks MAX_BYTES 0 0 of
              (ls, err) \<Rightarrow> (ls, if err \<or> \<not> ok Fclose \<or> \<not> ok Remove then 1 else 0)))"

section \<open>The table determines the blocks of every size\<close>

text \<open>What a reader of the lines takes for the blocks of a size, \<open>b\<close> before the first line.\<close>

fun looked_up :: "nat \<Rightarrow> bw_line list \<Rightarrow> nat \<Rightarrow> nat" where
  "looked_up b [] k = b"
| "looked_up b ((sz, b', _) # ls) k = (if sz \<le> k then looked_up b' ls k else b)"

lemma bw_loop_Suc:
  "fst (bw_loop ok st_blocks (Suc n) i blks) =
     (if \<not> ok (Fwrite i) \<or> \<not> ok (Fstat i) then []
      else if blks = st_blocks (Suc i) then fst (bw_loop ok st_blocks n (Suc i) blks)
      else (Suc i, st_blocks (Suc i), st_blocks (Suc i) * 512) # fst (bw_loop ok st_blocks n (Suc i) (st_blocks (Suc i))))"
  "snd (bw_loop ok st_blocks (Suc n) i blks) \<longleftrightarrow>
     \<not> ok (Fwrite i) \<or> \<not> ok (Fstat i) \<or> snd (bw_loop ok st_blocks n (Suc i) (st_blocks (Suc i)))"
  by (auto simp: Let_def split: prod.splits)

declare bw_loop.simps(2) [simp del]

lemma bw_loop_sizes:
  "(sz, b, u) \<in> set (fst (bw_loop ok st_blocks n i blks)) \<Longrightarrow> i < sz \<and> sz \<le> i + n \<and> b = st_blocks sz \<and> u = b * 512"
proof (induction n arbitrary: i blks)
  case (Suc n)
  then show ?case by (fastforce simp: bw_loop_Suc split: if_splits)
qed simp

lemma bw_loop_ordered: "sorted_wrt (<) (map fst (fst (bw_loop ok st_blocks n i blks)))"
proof (induction n arbitrary: i blks)
  case (Suc n)
  have "Suc i < sz" if "(sz, r) \<in> set (fst (bw_loop ok st_blocks n (Suc i) b))" for sz r b
    using bw_loop_sizes [of sz "fst r" "snd r" ok st_blocks n "Suc i" b] that by simp
  then have "\<forall>sz'\<in>fst ` set (fst (bw_loop ok st_blocks n (Suc i) b)). Suc i < sz'" for b by fastforce
  then show ?case using Suc.IH by (simp add: bw_loop_Suc)
qed simp

lemma looked_up_late: "\<forall>l\<in>set ls. k < fst l \<Longrightarrow> looked_up b ls k = b"
  by (cases ls) auto

lemma bw_loop_lookup:
  "snd (bw_loop ok st_blocks n i blks) = False \<Longrightarrow> i < k \<Longrightarrow> k \<le> i + n \<Longrightarrow>
   looked_up blks (fst (bw_loop ok st_blocks n i blks)) k = st_blocks k"
proof (induction n arbitrary: i blks)
  case (Suc n)
  have late: "looked_up b (fst (bw_loop ok st_blocks n (Suc i) b)) k = b" if "k = Suc i" for b
  proof (rule looked_up_late, rule ballI)
    fix l
    assume "l \<in> set (fst (bw_loop ok st_blocks n (Suc i) b))"
    then show "k < fst l" using bw_loop_sizes [of "fst l" "fst (snd l)" "snd (snd l)"] that by (metis prod.collapse)
  qed
  have rest: "looked_up b (fst (bw_loop ok st_blocks n (Suc i) b)) k = st_blocks k"
    if "b = st_blocks (Suc i)" "snd (bw_loop ok st_blocks n (Suc i) b) = False" for b
    using Suc.IH [of "Suc i" b] late [of b] that Suc.prems(2,3) by (cases "k = Suc i") auto
  then show ?case using Suc.prems by (auto simp: bw_loop_Suc split: if_splits)
qed simp

lemma bw_loop_changes:
  "successively (\<lambda>l l'. fst (snd l) \<noteq> fst (snd l')) ((x, blks, y) # fst (bw_loop ok st_blocks n i blks))"
proof (induction n arbitrary: i blks x y)
  case (Suc n)
  then show ?case by (simp add: bw_loop_Suc)
qed simp

section \<open>Property\<close>

text \<open>
  C25: The table is exact and has no needless line. Its sizes increase, each is at most 2^20 bytes, its
  blocks are those of the file at that size and 512 bytes each, and differ from those of the line
  before, the first from 0; and when the program ends well, the blocks of the file at every size
  are those of the last line up to it.
\<close>

theorem byte_write_table:
  assumes "bw_main ok st_blocks = (ls, status)"
  shows "sorted_wrt (<) (map fst ls) \<and>
    (\<forall>(sz, b, u)\<in>set ls. 1 \<le> sz \<and> sz \<le> MAX_BYTES \<and> b = st_blocks sz \<and> u = b * 512) \<and>
    successively (\<lambda>l l'. fst (snd l) \<noteq> fst (snd l')) ((0, 0, 0) # ls) \<and>
    (status = 0 \<longrightarrow> (\<forall>k\<in>{1..MAX_BYTES}. looked_up 0 ls k = st_blocks k))"
proof (cases "ok Fopen \<and> ok Setvbuf")
  case True
  let ?r = "bw_loop ok st_blocks MAX_BYTES 0 0"
  have ls: "ls = fst ?r" "status = 0 \<longrightarrow> \<not> snd ?r"
    using assms True by (auto simp: bw_main_def split: prod.splits if_splits)
  have "\<forall>(sz, b, u)\<in>set ls. 1 \<le> sz \<and> sz \<le> MAX_BYTES \<and> b = st_blocks sz \<and> u = b * 512"
    using bw_loop_sizes [of _ _ _ ok st_blocks MAX_BYTES 0 0] unfolding ls(1) by fastforce
  then show ?thesis
    using bw_loop_ordered [of ok st_blocks MAX_BYTES 0 0] bw_loop_changes [of 0 0 0 ok st_blocks MAX_BYTES 0]
      bw_loop_lookup [of ok st_blocks MAX_BYTES 0 0] ls by auto
next
  case False
  then have "ls = []" "status = 1" using assms by (auto simp: bw_main_def split: if_splits)
  then show ?thesis by simp
qed

lemma byte_write_table_witness:
  "\<exists>ls status. bw_main (\<lambda>c. c = Fopen \<or> c = Setvbuf \<or> c = Fwrite 0 \<or> c = Fstat 0) (\<lambda>_. 8) = (ls, status) \<and>
     ls = [(1, 8, 4096)] \<and> sorted_wrt (<) (map fst ls)"
proof -
  let ?ok = "\<lambda>c. c = Fopen \<or> c = Setvbuf \<or> c = Fwrite 0 \<or> c = Fstat 0"
  have "MAX_BYTES = Suc (Suc (2 ^ 20 - 2))" by (simp add: MAX_BYTES_def)
  then obtain n where n: "MAX_BYTES = Suc (Suc n)" by blast
  have "fst (bw_loop ?ok (\<lambda>_. 8) MAX_BYTES 0 0) = [(1, 8, 4096)]" "snd (bw_loop ?ok (\<lambda>_. 8) MAX_BYTES 0 0)"
    unfolding n by (simp_all add: bw_loop_Suc)
  then have run: "bw_main ?ok (\<lambda>_. 8) = ([(1, 8, 4096)], 1)" by (simp add: bw_main_def case_prod_beta)
  then show ?thesis using byte_write_table [OF run] by blast
qed

end
