(* ===== verification/SmallPrograms.thy ===== *)
theory SmallPrograms
  imports Prelude Complex_Main
begin

text \<open>
  Three small programs of \<open>05-operating-systems\<close>: \<open>04-virtual-memory/01-basic-mmap/share.c\<close>, where a
  child writes to a page that its parent reads, \<open>02-programs-and-processes/01-signalbox/signalbox.c\<close>,
  which draws a box whenever the window was resized, and \<open>01-introduction/01-cpu-timing/cputime.c\<close>,
  which prints the times of three workloads.
\<close>

section \<open>A shared page\<close>

text \<open>
  The parent before \<open>fork\<close>, after it in \<open>wait\<close>, before the output, before the return; the child before
  its store, before its output, before \<open>exit\<close>, and when it has ended, by itself or by a signal. Output is
  taken to reach the terminal at once.
\<close>

datatype sppc = Sp_fork | Sp_wait | Sp_print | Sp_end

datatype scpc = Sc_none | Sc_store | Sc_print | Sc_exit | Sc_dead

datatype sh_line = ChildWrote int | ParentReads int

record share =
  sh_word :: int
  sh_parent :: sppc
  sh_child :: scpc
  sh_out :: "sh_line list"

text \<open>\<open>main\<close> up to \<open>fork\<close>: \<open>Inl\<close> the exit status where \<open>mmap\<close> fails.\<close>

definition share_main :: "bool \<Rightarrow> nat + share" where
  "share_main mmap_ok =
     (if mmap_ok then Inr \<lparr>sh_word = 0, sh_parent = Sp_fork, sh_child = Sc_none, sh_out = []\<rparr> else Inl 1)"

text \<open>
  \<open>wait\<close> returns when the child has ended, and at once when there is none: a \<open>fork\<close> that fails
  returns -1, and the parent goes on.
\<close>

definition share_parent :: "bool \<Rightarrow> share \<Rightarrow> share option" where
  "share_parent fork_ok s = (case sh_parent s of
     Sp_fork \<Rightarrow> Some (s\<lparr>sh_parent := Sp_wait, sh_child := (if fork_ok then Sc_store else Sc_none)\<rparr>)
   | Sp_wait \<Rightarrow> if sh_child s \<in> {Sc_none, Sc_dead} then Some (s\<lparr>sh_parent := Sp_print\<rparr>) else None
   | Sp_print \<Rightarrow> Some (s\<lparr>sh_parent := Sp_end, sh_out := sh_out s @ [ParentReads (sh_word s)]\<rparr>)
   | Sp_end \<Rightarrow> None)"

definition share_child :: "int \<Rightarrow> share \<Rightarrow> share option" where
  "share_child rnd s = (case sh_child s of
     Sc_store \<Rightarrow> Some (s\<lparr>sh_word := rnd, sh_child := Sc_print\<rparr>)
   | Sc_print \<Rightarrow> Some (s\<lparr>sh_child := Sc_exit, sh_out := sh_out s @ [ChildWrote (sh_word s)]\<rparr>)
   | Sc_exit \<Rightarrow> Some (s\<lparr>sh_child := Sc_dead\<rparr>)
   | _ \<Rightarrow> None)"

inductive share_step :: "bool \<Rightarrow> int \<Rightarrow> share \<Rightarrow> share \<Rightarrow> bool" for fork_ok rnd where
  share_p: "share_parent fork_ok s = Some s' \<Longrightarrow> share_step fork_ok rnd s s'"
| share_c: "share_child rnd s = Some s' \<Longrightarrow> share_step fork_ok rnd s s'"
| share_kill: "sh_child s \<in> {Sc_store, Sc_print, Sc_exit} \<Longrightarrow> share_step fork_ok rnd s (s\<lparr>sh_child := Sc_dead\<rparr>)"

text \<open>What the child can have printed, by where it is and the word in the page.\<close>

fun child_lines :: "int \<Rightarrow> scpc \<Rightarrow> int \<Rightarrow> sh_line list set" where
  "child_lines rnd Sc_exit w = {[ChildWrote rnd]}"
| "child_lines rnd Sc_dead w = (if w = rnd then {[], [ChildWrote rnd]} else {[]})"
| "child_lines rnd c w = {[]}"

fun words :: "int \<Rightarrow> scpc \<Rightarrow> int set" where
  "words rnd Sc_none = {0}"
| "words rnd Sc_store = {0}"
| "words rnd Sc_dead = {0, rnd}"
| "words rnd c = {rnd}"

fun pc_pairs :: "bool \<Rightarrow> sppc \<Rightarrow> scpc \<Rightarrow> bool" where
  "pc_pairs fork_ok Sp_fork c \<longleftrightarrow> c = Sc_none"
| "pc_pairs fork_ok Sp_wait c \<longleftrightarrow> (c = Sc_none \<longleftrightarrow> \<not> fork_ok)"
| "pc_pairs fork_ok p c \<longleftrightarrow> c = (if fork_ok then Sc_dead else Sc_none)"

definition share_inv :: "bool \<Rightarrow> int \<Rightarrow> share \<Rightarrow> bool" where
  "share_inv fork_ok rnd s \<longleftrightarrow>
     pc_pairs fork_ok (sh_parent s) (sh_child s) \<and> sh_word s \<in> words rnd (sh_child s) \<and>
     (\<exists>l\<in>child_lines rnd (sh_child s) (sh_word s).
        sh_out s = l @ (if sh_parent s = Sp_end then [ParentReads (sh_word s)] else []))"

lemma share_inv_start: "share_main True = Inr s \<Longrightarrow> share_inv fork_ok rnd s"
  by (auto simp: share_main_def share_inv_def)

lemma share_inv_parent: "share_inv fork_ok rnd s \<Longrightarrow> share_parent fork_ok s = Some s' \<Longrightarrow> share_inv fork_ok rnd s'"
  by (cases "sh_parent s"; cases "sh_child s")
    (auto simp: share_inv_def share_parent_def split: if_splits)

lemma share_inv_child: "share_inv fork_ok rnd s \<Longrightarrow> share_child rnd s = Some s' \<Longrightarrow> share_inv fork_ok rnd s'"
  by (cases "sh_parent s"; cases "sh_child s") (auto simp: share_inv_def share_child_def split: if_splits)

lemma share_inv_kill:
  "share_inv fork_ok rnd s \<Longrightarrow> sh_child s \<in> {Sc_store, Sc_print, Sc_exit} \<Longrightarrow>
   share_inv fork_ok rnd (s\<lparr>sh_child := Sc_dead\<rparr>)"
  by (cases "sh_parent s"; cases "sh_child s") (auto simp: share_inv_def split: if_splits)

interpretation shr: inductive_invariant
  "\<lambda>s. share_main True = Inr s" "share_step fork_ok rnd" "share_inv fork_ok rnd" for fork_ok rnd
  by unfold_locales
    (auto simp: share_inv_start share_step.simps intro: share_inv_parent share_inv_child share_inv_kill)

text \<open>
  The parent never reads before the child is done: what it prints is the child's number, where
  the child got as far as its output, and otherwise that number or the 0 from before.
\<close>

lemma share_output:
  assumes "reach (\<lambda>s. share_main True = Inr s) (share_step fork_ok rnd) s" and "sh_parent s = Sp_end"
  shows "sh_out s \<in> {[ChildWrote rnd, ParentReads rnd], [ParentReads rnd], [ParentReads 0]}"
    and "\<not> fork_ok \<Longrightarrow> sh_out s = [ParentReads 0]"
  using shr.reach_inv [OF assms(1)] assms(2) by (cases fork_ok; force simp: share_inv_def split: if_splits)+

text \<open>As long as the parent has not returned, something moves, and every step brings the end nearer.\<close>

definition share_left :: "share \<Rightarrow> nat" where
  "share_left s =
     (case sh_parent s of Sp_fork \<Rightarrow> 7 | Sp_wait \<Rightarrow> 2 | Sp_print \<Rightarrow> 1 | Sp_end \<Rightarrow> 0) +
     (case sh_child s of Sc_none \<Rightarrow> 0 | Sc_store \<Rightarrow> 3 | Sc_print \<Rightarrow> 2 | Sc_exit \<Rightarrow> 1 | Sc_dead \<Rightarrow> 0)"

lemma share_moves:
  assumes "sh_parent s \<noteq> Sp_end"
  shows "share_parent fork_ok s \<noteq> None \<or> share_child rnd s \<noteq> None"
  using assms by (cases "sh_parent s"; cases "sh_child s") (simp_all add: share_parent_def share_child_def)

lemma share_left_parent: "share_parent fork_ok s = Some s' \<Longrightarrow> share_left s' < share_left s"
  by (cases "sh_parent s"; cases "sh_child s") (auto simp: share_parent_def share_left_def split: if_splits)

lemma share_left_child: "share_child rnd s = Some s' \<Longrightarrow> share_left s' < share_left s"
  by (cases "sh_child s") (auto simp: share_child_def share_left_def)

lemma share_left_kill: "sh_child s \<in> {Sc_store, Sc_print, Sc_exit} \<Longrightarrow> share_left (s\<lparr>sh_child := Sc_dead\<rparr>) < share_left s"
  by (auto simp: share_left_def)

lemma share_ends: "share_step fork_ok rnd s s' \<Longrightarrow> share_left s' < share_left s"
  by (erule share_step.cases) (auto intro: share_left_parent share_left_child share_left_kill)

section \<open>The box\<close>

text \<open>Before the assignment, before \<open>print_box\<close>, before \<open>pause\<close>, and in it.\<close>

datatype boxpc = B_reset | B_print | B_gap | B_pause

record sbox =
  resized :: bool
  box_pc :: boxpc
  boxes :: nat

text \<open>A step of \<open>main\<close>, \<open>None\<close> in \<open>pause\<close>; a signal, whose handler is \<open>sigaction_handler\<close>.\<close>

definition box_step :: "sbox \<Rightarrow> sbox option" where
  "box_step s = (case box_pc s of
     B_reset \<Rightarrow> Some (s\<lparr>resized := False, box_pc := B_print\<rparr>)
   | B_print \<Rightarrow> Some (s\<lparr>boxes := Suc (boxes s), box_pc := B_gap\<rparr>)
   | B_gap \<Rightarrow> Some (s\<lparr>box_pc := B_pause\<rparr>)
   | B_pause \<Rightarrow> None)"

definition sigaction_handler :: "sbox \<Rightarrow> sbox" where
  "sigaction_handler s = s\<lparr>resized := True\<rparr>"

definition box_signal :: "sbox \<Rightarrow> sbox" where
  "box_signal s =
     (let s' = sigaction_handler s in if box_pc s = B_pause then s'\<lparr>box_pc := B_reset\<rparr> else s')"

text \<open>A run: \<open>True\<close> is a signal, \<open>False\<close> a step of \<open>main\<close> where there is one.\<close>

fun box_run :: "bool list \<Rightarrow> sbox \<Rightarrow> sbox" where
  "box_run [] s = s"
| "box_run (True # es) s = box_run es (box_signal s)"
| "box_run (False # es) s = box_run es (case box_step s of None \<Rightarrow> s | Some s' \<Rightarrow> s')"

definition box_start :: sbox where
  "box_start = \<lparr>resized = False, box_pc = B_reset, boxes = 0\<rparr>"

text \<open>There are never more boxes than the first and one for each signal.\<close>

lemma box_run_bound:
  "boxes (box_run es s) + (if box_pc (box_run es s) \<in> {B_reset, B_print} then 1 else 0) \<le>
   boxes s + (if box_pc s \<in> {B_reset, B_print} then 1 else 0) + length (filter id es)"
proof (induction es s rule: box_run.induct)
  case (2 es s)
  then show ?case by (auto simp: box_signal_def sigaction_handler_def Let_def split: if_splits)
next
  case (3 es s)
  then show ?case by (cases "box_pc s") (auto simp: box_step_def)
qed simp

lemma boxes_signals: "boxes (box_run es box_start) \<le> 1 + length (filter id es)"
  using box_run_bound [of es box_start] by (simp add: box_start_def)

text \<open>
  A signal between the output and \<open>pause\<close> is lost: the program waits with \<open>resized\<close> set, which it
  never reads, and the box of before.
\<close>

lemma signal_lost:
  "box_run ([False, False, True, False] @ replicate n False) box_start =
     \<lparr>resized = True, box_pc = B_pause, boxes = 1\<rparr>"
proof -
  have stay: "box_run (replicate n False) s = s" if "box_pc s = B_pause" for s
    using that by (induction n) (simp_all add: box_step_def)
  show ?thesis by (simp add: stay box_start_def box_step_def box_signal_def sigaction_handler_def)
qed

section \<open>Times of a process\<close>

text \<open>What \<open>times\<close> gives, in ticks, and the process and CPU that the program asks for.\<close>

record moment =
  m_real :: int
  m_utime :: int
  m_stime :: int
  m_pid :: nat
  m_cpu :: nat

record profile_info =
  title :: string
  rtime_start :: int
  utime_start :: int
  stime_start :: int

text \<open>A heading with the colour of its prefix, or the times in seconds, before their rounding.\<close>

datatype cpu_line = Heading char nat nat string | Times char nat nat rat rat rat

definition prefix_colour :: "nat \<Rightarrow> char" where
  "prefix_colour pid = char_of (of_char (CHR ''0'') + pid mod 7 + (1 :: nat))"

definition cpu_profile_start :: "moment \<Rightarrow> string \<Rightarrow> profile_info \<times> cpu_line" where
  "cpu_profile_start now ttl =
     (\<lparr>title = ttl, rtime_start = m_real now, utime_start = m_utime now, stime_start = m_stime now\<rparr>,
      Heading (prefix_colour (m_pid now)) (m_pid now) (m_cpu now) ttl)"

definition cpu_profile_log :: "int \<Rightarrow> moment \<Rightarrow> profile_info \<Rightarrow> cpu_line" where
  "cpu_profile_log tics_per_second now t =
     Times (prefix_colour (m_pid now)) (m_pid now) (m_cpu now)
       (of_int (m_real now - rtime_start t) / of_int tics_per_second)
       (of_int (m_utime now - utime_start t) / of_int tics_per_second)
       (of_int (m_stime now - stime_start t) / of_int tics_per_second)"

text \<open>\<open>main\<close>: the moments before and after each of the three workloads are \<open>clk 0\<close> to \<open>clk 5\<close>.\<close>

definition cpu_main :: "int \<Rightarrow> (nat \<Rightarrow> moment) \<Rightarrow> cpu_line list" where
  "cpu_main tics_per_second clk =
     (let profile = (\<lambda>k ttl. case cpu_profile_start (clk k) ttl of
            (t, heading) \<Rightarrow> [heading, cpu_profile_log tics_per_second (clk (Suc k)) t])
      in profile 0 ''profile doing a bunch of floating point muls'' @
         profile 2 ''profile doing a bunch of mallocs'' @ profile 4 ''profile sleeping'')"

lemma prefix_colour_digit: "prefix_colour pid = ''1234567'' ! (pid mod 7)"
proof -
  have "pid mod 7 < 7" by simp
  then have "pid mod 7 = 0 \<or> pid mod 7 = 1 \<or> pid mod 7 = 2 \<or> pid mod 7 = 3 \<or> pid mod 7 = 4 \<or> pid mod 7 = 5 \<or> pid mod 7 = 6"
    by arith
  then show ?thesis by (elim disjE) (simp_all add: prefix_colour_def char_of_def bit_0)
qed

text \<open>On clocks that do not go back no printed time is negative, and none exceeds what the six moments span.\<close>

lemma cpu_main_times:
  assumes "0 < hz" and "mono (\<lambda>k. m_real (clk k))" and "mono (\<lambda>k. m_utime (clk k))" and "mono (\<lambda>k. m_stime (clk k))"
    and "Times ch p c r u s \<in> set (cpu_main hz clk)"
  shows "0 \<le> r" "0 \<le> u" "0 \<le> s" "r \<le> of_int (m_real (clk 5) - m_real (clk 0)) / of_int hz"
proof -
  have m: "m_real (clk j) \<le> m_real (clk k)" "m_utime (clk j) \<le> m_utime (clk k)" "m_stime (clk j) \<le> m_stime (clk k)"
    if "j \<le> k" for j k
    using that assms(2-4) by (auto dest: monoD)
  have "\<exists>k\<in>{0, 2, 4}. r = of_int (m_real (clk (Suc k)) - m_real (clk k)) / of_int hz \<and>
      u = of_int (m_utime (clk (Suc k)) - m_utime (clk k)) / of_int hz \<and>
      s = of_int (m_stime (clk (Suc k)) - m_stime (clk k)) / of_int hz"
    using assms(5) by (auto simp: cpu_main_def cpu_profile_start_def cpu_profile_log_def)
  then obtain k where k: "k \<in> {0, 2, 4}"
    "r = of_int (m_real (clk (Suc k)) - m_real (clk k)) / of_int hz"
    "u = of_int (m_utime (clk (Suc k)) - m_utime (clk k)) / of_int hz"
    "s = of_int (m_stime (clk (Suc k)) - m_stime (clk k)) / of_int hz" by blast
  have "m_real (clk (Suc k)) - m_real (clk k) \<le> m_real (clk 5) - m_real (clk 0)"
    using m(1) [of "Suc k" 5] m(1) [of 0 k] k(1) by auto
  then show "0 \<le> r" "0 \<le> u" "0 \<le> s" "r \<le> of_int (m_real (clk 5) - m_real (clk 0)) / of_int hz"
    using m [of k "Suc k"] assms(1) unfolding k(2-4)
    by (simp_all add: divide_right_mono flip: of_int_diff)
qed

end
