(* ===== verification/Spec2Isabelle.thy ===== *)
theory Spec2Isabelle
  imports DynArray HashMapClaims SortMain SysvQueue ShmRobust ShmStream FizzBuzz Counter
    ShoutEpollClaims ShoutKqueueClaims ShellPipes Pangram SigLog ByteWrite SmallPrograms
begin

text \<open>
  A verification of the C programs of the repository. Each is a program of its own; they have no
  code in common, but the ring buffers are one design in three versions, and so are the two sorts
  and the two event loops, and the development shares between them what they share. Paths are
  under \<open>src/\<close>.

  \<^bold>\<open>How C is modelled.\<close> (\<open>Prelude\<close>) A heap block is a list of cells that an option marks as not
  written or not there; every access to an array is checked and gives a \<open>fault\<close> (an access out of
  bounds, a read of a cell not written, a \<open>NULL\<close> dereference, a use after \<open>free\<close>, a failed assertion,
  an overflow or a shift of an \<open>int\<close> out of its range, a signal that is not caught) as the left value
  of a sum, chained by \<open>andthen\<close>. Machine integers are words where a program relies on their width
  (hash values, masks, checksums, the elements of the stream) and \<open>nat\<close> elsewhere, with a fault
  where an \<open>int\<close> can reach its bound: the counter, the endless producers of the ring buffers, the size
  of the shell's array, the numbers of the signal logger. What C leaves to its environment is a parameter: which sizes can be allocated, the
  random numbers, the answers of the kernel. Programs with threads are transition systems, with
  one step for each access to shared state; the locales of \<open>Prelude\<close> give the rules for
  invariants and simulations, and each system interprets them. Loops are structural recursions or
  have a measure; fuel is used where a loop really may not end.

  \<^bold>\<open>Dynamic array\<close> (\<open>DynArray\<close>; \<open>02-computer-systems/02-introduction-to-c/04-dynamic-array\<close>). The
  record \<open>DA\<close> and its operations, under an invariant (size within capacity, written cells, a size in
  bytes that \<open>malloc\<close> gives), refine a list; the assertions of \<open>main\<close> pass. The capacity grows
  through \<open>double\<close>, with its rounding, and the size in bytes wraps around.

  \<^bold>\<open>Hash map\<close> (\<open>02-computer-systems/02-introduction-to-c/06-basic-hashmap/hashmap.c\<close>). \<open>HashMap\<close> has
  the operations, \<open>HashMapProbe\<close> the arithmetic of probing, \<open>HashMapInv\<close> the invariant and one
  operation without resizing, \<open>HashMapSpec\<close> resizing and the abstraction to a finite map,
  \<open>HashMapMain\<close> the test program with its 8002 keys, \<open>HashMapProps\<close> and \<open>HashMapClaims\<close> what holds
  and what fails. \<open>Hashmap_set\<close> calls itself on a larger array; its fuel counts the resizes. 57
  resizes exhaust every address space, so that more fuel makes no difference, and 26 suffice for
  the keys of \<open>main\<close>, whose hashes differ modulo \<open>2 ^ 26\<close>. Theorems that an operation returns are
  stated as such. The allocator is asked for a number of bytes, by \<open>calloc\<close> for an array and by
  \<open>malloc\<close> for the copy of a key; neither result is checked by the code. That a map refines a finite
  map holds for histories in which no key is inserted while it is stored and a slot is a tombstone;
  \<open>hashmap_stale_value\<close> is the case left out.

  \<^bold>\<open>Merge sorts\<close> (\<open>MergeSort\<close>:
  \<open>03-algorithms-and-data-structures/04-divide-and-conquer-and-sorting/01-merge-sort\<close>; \<open>ThreadSort\<close>:
  \<open>05-operating-systems/03-threads-concurrency-and-scheduling/02-multi-threaded-mergesort\<close>). \<open>Merging\<close>
  has the contract of a merging function, which the \<open>merge\<close> of both programs is shown to meet. The
  first is the iterative sort with its swapped arrays and the mask that tells where the result is;
  the second is a tree of running calls on ranges of one array, whose steps interleave: every
  schedule ends, and ends with the sorted array. \<open>SortMain\<close> has the programs around it, with the clocks
  of \<open>cputime.c\<close>, \<open>old/merge_sort_multi.c\<close> included.

  \<^bold>\<open>Ring buffers\<close> (\<open>BlockingQueue\<close>, \<open>SysvQueue\<close>:
  \<open>05-operating-systems/03-threads-concurrency-and-scheduling/04-ring-buffer\<close>; \<open>ShmQueue\<close>:
  \<open>05-operating-systems/04-virtual-memory/02-shared-memory-stream\<close>). The record \<open>bq\<close>, one step of a
  producer and of a consumer for each shared access, and any number of threads: order of the
  elements, mutual exclusion, and no deadlock before the \<open>int\<close> of an endless producer overflows. The
  System V version simulates the POSIX one step by step, for capacities up to the largest value of a
  semaphore; with more it blocks for ever. The version in shared memory adds the life of the object by name, and the two programs
  that stream random numbers and compare checksums; \<open>ShmStream\<close> composes it with the two
  programs, their messages over the socket included; \<open>ShmRobust\<close> has its put and take with robust
  mutexes, between processes that may die at any step. The session is right where the byte behind
  the name, which nobody has initialised, is zero, and wrong otherwise; and the queue goes on as long
  as it has lost fewer places to deaths than it has, with someone alive on either side.

  \<^bold>\<open>Fizz-buzz and counter\<close> (\<open>FizzBuzz\<close>, \<open>Counter\<close>: \<open>03-multi-threaded-fizzbuzz\<close> and
  \<open>01-threaded-counter\<close> of the same directory). Steps of the threads with their program counters; the
  output under every interleaving, no deadlock, no lost increment, termination.

  \<^bold>\<open>Shout server\<close> (\<open>04-computer-networks/01-introduction-to-network-programming/01-shout-server\<close>).
  \<open>ShoutOs\<close> has the descriptors, the buffers and the system calls, whose results are taken from a
  list of answers of the kernel, and \<open>do_send\<close>; \<open>ShoutMain\<close> has \<open>main\<close> and a locale with what it
  relies on in an event loop. \<open>ShoutEpoll\<close> and \<open>ShoutKqueue\<close> are the two loops, with the kernel's
  tables of interest as part of the state; the \<open>Inv\<close> theories prove their invariants, and the
  \<open>Claims\<close> theories interpret the locale and state what holds of the whole server for every
  sequence of answers and events. A \<open>send\<close> to a peer that has closed the connection kills the server by
  \<open>SIGPIPE\<close>; \<open>ShoutPipe\<close> shows that nothing else does. The fields \<open>sent\<close>, \<open>rcvd\<close> and \<open>third\<close> of the state record what
  went over a connection and whether a \<open>do_send\<close> made a third \<open>send\<close>; the code has none of them. That
  the server echoes holds while there was no such third \<open>send\<close>, for both loops. The
  list of events that the kernel reports is finite, which is where a run of the model stops.

  \<^bold>\<open>Shells\<close> (\<open>05-operating-systems/02-programs-and-processes\<close>). \<open>Tokens\<close> has \<open>strtok\<close> and the words of a
  line. \<open>Shell\<close> is \<open>shell_basic.c\<close> as a machine driven by lines, interrupts and ends of children, with
  the jumps out of the handler as changes of its phase, and the shell of
  \<open>old/headache_shell.c\<close>, which has an older \<open>parse_cmd\<close>. \<open>ShellPipes\<close> is \<open>shell_pipes.c\<close>, with the
  pipes, the process groups, the handler of interrupts and every exit of \<open>run\<close>. \<open>SigLog\<close> is
  \<open>siglog.c\<close>, on sequences of signals and of steps of \<open>main\<close> and of the handlers, which interrupt each
  other between the load and the store of the mask; a call of \<open>printf\<close> is one step.

  \<^bold>\<open>Pangrams\<close> (\<open>Pangram\<close>; \<open>pangram.c\<close> of \<open>02-introduction-to-c/03-fast-pangram\<close> and of
  \<open>03-low-level-programming/04-x86-64-pangram\<close>). The two loops over bit masks, the letters that
  they ask for, and the characters that shift an \<open>int\<close> out of its range.

  \<^bold>\<open>Byte writer\<close> (\<open>ByteWrite\<close>; \<open>05-operating-systems/01-introduction/03-byte-write\<close>). The loop that
  prints where the blocks of a growing file change, and what its table tells.

  \<^bold>\<open>Small programs\<close> (\<open>SmallPrograms\<close>; \<open>share.c\<close>, \<open>signalbox.c\<close> and \<open>01-cpu-timing/cputime.c\<close> of
  \<open>05-operating-systems\<close>). A parent that waits before it reads what its child wrote, a loop that
  draws for each signal that it does not miss, and the times around three workloads.

  \<^bold>\<open>Not modelled.\<close> What programs print is modelled where it is their result
  (fizz-buzz, the counter, the prompts of the shell, the filtered lines, the times of the timing
  programs without their rounding), not messages or \<open>Hashmap_print\<close>. Interrupts reach
  the pipeline shell while it reads or waits for a child, not between two other calls. Left out as a
  whole: \<open>bitcount.c\<close>, which calls a compiler builtin; \<open>stack_overflow.c\<close>,
  an endless recursion; \<open>test.c\<close> of the header server, which does not compile, and the
  empty \<open>http_header_server.c\<close>; the assembly programs with the C files that only call
  them; and under \<open>old/\<close> the copies of programs that are modelled under their current
  path.
\<close>

end
